(* ===== verification/Rave_Prelude.thy ===== *)
theory Rave_Prelude
  imports Main "HOL-Library.Word" "HOL-Library.Multiset" "HOL-Library.Monad_Syntax"
begin

text \<open>
  Shared ground of the development: the machine types of the x86-64 ABI the library is
  compiled for, the conversions between them that C makes implicitly, and the facts on
  words and lists that several components use. The collection \<open>ptr_arith\<close> holds the facts
  that move pointer arithmetic to natural numbers.
\<close>

unbundle bit_operations_syntax

named_theorems ptr_arith

section \<open>Machine types\<close>

type_synonym byte = "8 word"
type_synonym ptr = "64 word"
type_synonym uintptr = "64 word"
type_synonym size_t = "64 word"
type_synonym c_int = "32 word"

abbreviation NULL :: ptr where
  "NULL \<equiv> 0"

text \<open>The implicit conversions: \<open>int\<close> to a 64-bit type sign-extends, the other way truncates.\<close>

abbreviation int_to_size :: "c_int \<Rightarrow> size_t" where
  "int_to_size \<equiv> scast"

abbreviation size_to_int :: "size_t \<Rightarrow> c_int" where
  "size_to_int \<equiv> ucast"

section \<open>Words\<close>

lemma unat_plus_nowrap [ptr_arith]:
  fixes a b :: size_t
  assumes "unat a + unat b < 2 ^ 64"
  shows "unat (a + b) = unat a + unat b"
  using assms by (simp add: unat_word_ariths)

lemma unat_minus_nowrap [ptr_arith]:
  fixes a b :: size_t
  assumes "b \<le> a"
  shows "unat (a - b) = unat a - unat b"
  using assms by (simp add: unat_sub_if_size word_le_nat_alt)

lemma unat_lt64 [simp, ptr_arith]: "unat (a :: size_t) < 2 ^ 64"
  using unsigned_less [of a] by simp

lemma two_pow_64: "(2 :: nat) ^ 64 = 18446744073709551616"
  by simp

lemma unat_lt64_num [simp]: "unat (a :: size_t) < 18446744073709551616"
  using unat_lt64 [of a] by simp

lemma unat_of_nat64 [ptr_arith]: "k < 2 ^ 64 \<Longrightarrow> unat (of_nat k :: size_t) = k"
  by (simp add: unat_of_nat)

lemma unat_add_of_nat [ptr_arith]:
  fixes a :: size_t
  assumes "unat a + k < 2 ^ 64"
  shows "unat (a + of_nat k) = unat a + k"
  using assms by (simp add: unat_word_ariths unat_of_nat)

lemma unat_Suc_below:
  fixes i m :: size_t
  assumes "unat i < unat m"
  shows "unat (i + 1) = unat i + 1"
proof -
  have "unat i + 1 < 2 ^ 64" using assms unat_lt64 [of m] by linarith
  then show ?thesis using unat_add_of_nat [of i 1] by simp
qed

lemma plus_of_nat_add: "(a :: size_t) + of_nat m + of_nat n = a + of_nat (m + n)"
  by simp

lemma minus_eq_of_nat:
  fixes a b :: size_t
  shows "a = b + of_nat (unat (a - b))"
  by simp

lemma unat_plus_minus [simp]: "unat ((a :: size_t) + of_nat k - a) = k mod 2 ^ 64"
  by (simp add: unat_of_nat)

text \<open>A small index survives the round trip through \<open>int\<close> that the slot tables make.\<close>

lemma sint_small_int: "k < 2 ^ 31 \<Longrightarrow> sint (of_nat k :: c_int) = int k"
  by (simp add: sint_word_ariths signed_of_nat signed_take_bit_int_eq_self)

lemma size_to_int_of_nat [simp]: "size_to_int (of_nat k) = of_nat k"
  by (rule bit_word_eqI) (simp add: bit_simps)

lemma int_to_size_of_nat: "k < 2 ^ 31 \<Longrightarrow> int_to_size (of_nat k) = of_nat k"
  by (simp add: scast_eq sint_small_int)

section \<open>Lists and arrays\<close>

text \<open>A checked array read: \<open>None\<close> outside the array's bounds.\<close>

definition arr_get :: "'a list \<Rightarrow> int \<Rightarrow> 'a option" where
  "arr_get xs i = (if 0 \<le> i \<and> nat i < length xs then Some (xs ! nat i) else None)"

text \<open>A checked array write: \<open>None\<close> outside the array's bounds.\<close>

definition arr_set :: "'a list \<Rightarrow> int \<Rightarrow> 'a \<Rightarrow> 'a list option" where
  "arr_set xs i v = (if 0 \<le> i \<and> nat i < length xs then Some (xs[nat i := v]) else None)"

lemma arr_get_nat [simp]: "arr_get xs (int k) = (if k < length xs then Some (xs ! k) else None)"
  by (simp add: arr_get_def)

lemma arr_set_nat [simp]:
  "arr_set xs (int k) v = (if k < length xs then Some (xs[k := v]) else None)"
  by (simp add: arr_set_def)

section \<open>Folding with a body that may fail\<close>

fun fold_opt :: "('a \<Rightarrow> 's \<Rightarrow> 's option) \<Rightarrow> 'a list \<Rightarrow> 's \<Rightarrow> 's option" where
  "fold_opt f [] s = Some s"
| "fold_opt f (x # xs) s = do { s1 \<leftarrow> f x s; fold_opt f xs s1 }"

lemma fold_opt_append:
  "fold_opt f (xs @ ys) s = do { s1 \<leftarrow> fold_opt f xs s; fold_opt f ys s1 }"
  by (induction xs arbitrary: s) (auto split: Option.bind_splits)

lemma fold_opt_total: "fold_opt (\<lambda>x s. Some (f x s)) xs s = Some (fold f xs s)"
  by (induction xs arbitrary: s) simp_all

text \<open>A body that keeps an invariant and never fails under it gives a fold that does the same.\<close>

lemma fold_opt_inv:
  assumes "\<And>x s. x \<in> set xs \<Longrightarrow> P s \<Longrightarrow> \<exists>s'. f x s = Some s' \<and> P s'" "P s"
  shows "\<exists>s'. fold_opt f xs s = Some s' \<and> P s'"
  using assms
proof (induction xs arbitrary: s)
  case Nil
  then show ?case by simp
next
  case (Cons x xs)
  then obtain s1 where "f x s = Some s1" "P s1" by (meson list.set_intros(1))
  with Cons.IH [of s1] Cons.prems(1) show ?case by auto
qed

end
