(* ===== verification/Util.thy ===== *)
theory Util
  imports Rave_Prelude
begin

text \<open>
  The macros of \<open>src/src/util.h\<close>: page rounding, pointer offsets, interval tests and
  \<open>container_of\<close>. \<open>PAGESZ\<close> is an \<open>int\<close> in C; the mask \<open>~(PAGESZ - 1)\<close> sign-extends to
  64 bits, which is the complement taken at 64 bits. The lemmas read every macro as arithmetic
  on natural numbers, with the wrap-around of \<open>PAGE_UP\<close> stated.
\<close>

unbundle bit_operations_syntax

definition PAGESZ :: c_int where
  "PAGESZ = 4096"

definition PAGE_DOWN :: "uintptr \<Rightarrow> uintptr" where
  "PAGE_DOWN addr = addr AND int_to_size (NOT (PAGESZ - 1))"

definition PAGE_UP :: "uintptr \<Rightarrow> uintptr" where
  "PAGE_UP addr = PAGE_DOWN (addr + int_to_size (PAGESZ - 1))"

definition OFFSET :: "uintptr \<Rightarrow> size_t \<Rightarrow> uintptr" where
  "OFFSET p off = p + off"

definition CONTAINS :: "uintptr \<Rightarrow> uintptr \<Rightarrow> uintptr \<Rightarrow> bool" where
  "CONTAINS val lo hi \<longleftrightarrow> lo \<le> val \<and> val < hi"

definition c_min :: "'a::linorder \<Rightarrow> 'a \<Rightarrow> 'a" where
  "c_min a b = (if a < b then a else b)"

definition c_max :: "'a::linorder \<Rightarrow> 'a \<Rightarrow> 'a" where
  "c_max a b = (if a > b then a else b)"

text \<open>The offset of the member inside its structure stands for \<open>offsetof(type, member)\<close>.\<close>

definition container_of :: "ptr \<Rightarrow> size_t \<Rightarrow> ptr" where
  "container_of p off = p - off"

section \<open>Page rounding\<close>

lemma page_mask: "int_to_size (NOT (PAGESZ - 1)) = NOT (mask 12)"
  by (simp add: PAGESZ_def mask_eq_exp_minus_1)

lemma PAGE_DOWN_minus: "PAGE_DOWN a = a - take_bit 12 a"
proof -
  have "PAGE_DOWN a = push_bit 12 (drop_bit 12 a)"
    unfolding PAGE_DOWN_def page_mask
    by (rule bit_word_eqI) (auto simp: bit_simps)
  also have "\<dots> = a - take_bit 12 a"
    using bits_ident [of 12 a] by (metis add_diff_cancel_right')
  finally show ?thesis .
qed

lemma unat_take_bit_page: "unat (take_bit 12 (a :: size_t)) = unat a mod 4096"
  unfolding unsigned_take_bit_eq by (simp only: take_bit_eq_mod) simp

lemma unat_PAGE_DOWN: "unat (PAGE_DOWN a) = unat a - unat a mod 4096"
  by (simp add: PAGE_DOWN_minus unat_minus_nowrap word_le_nat_alt unat_take_bit_page)

lemma PAGE_DOWN_aligned: "unat (PAGE_DOWN a) mod 4096 = 0"
  by (simp add: unat_PAGE_DOWN minus_mod_eq_mult_div)

lemma PAGE_DOWN_le: "PAGE_DOWN a \<le> a"
  by (simp add: word_le_nat_alt unat_PAGE_DOWN)

lemma PAGE_DOWN_near: "unat a < unat (PAGE_DOWN a) + 4096"
proof -
  have "unat a mod 4096 < 4096" "unat a mod 4096 \<le> unat a"
    by simp_all
  then show ?thesis unfolding unat_PAGE_DOWN by linarith
qed

lemma PAGE_DOWN_ident: "unat a mod 4096 = 0 \<Longrightarrow> PAGE_DOWN a = a"
  by (simp add: word_unat_eq_iff unat_PAGE_DOWN)

lemma PAGE_DOWN_idem [simp]: "PAGE_DOWN (PAGE_DOWN a) = PAGE_DOWN a"
  by (rule PAGE_DOWN_ident) (rule PAGE_DOWN_aligned)

lemma page_slack: "int_to_size (PAGESZ - 1) = 4095"
  by (simp add: PAGESZ_def)

text \<open>Rounding up is the least page multiple at or above the address, when that fits.\<close>

lemma unat_PAGE_UP:
  assumes "unat a + 4095 < 2 ^ 64"
  shows "unat (PAGE_UP a) = (unat a + 4095) div 4096 * 4096"
proof -
  have "unat (a + 4095) = unat a + 4095"
    using assms by (simp add: unat_plus_nowrap)
  then show ?thesis
    by (simp add: PAGE_UP_def page_slack unat_PAGE_DOWN minus_mod_eq_div_mult)
qed

lemma PAGE_UP_bounds:
  assumes "unat a + 4095 < 2 ^ 64"
  shows "unat a \<le> unat (PAGE_UP a)" "unat (PAGE_UP a) < unat a + 4096"
proof -
  have "(unat a + 4095) mod 4096 < 4096" "(unat a + 4095) mod 4096 \<le> unat a + 4095"
    by simp_all
  then show "unat a \<le> unat (PAGE_UP a)" "unat (PAGE_UP a) < unat a + 4096"
    unfolding unat_PAGE_UP [OF assms] minus_mod_eq_div_mult [symmetric] by linarith+
qed

lemma PAGE_UP_aligned: "unat (PAGE_UP a) mod 4096 = 0"
  by (simp add: PAGE_UP_def PAGE_DOWN_aligned)

text \<open>Above the last page boundary the sum wraps, and the rounded address is 0.\<close>

lemma PAGE_UP_wraps:
  assumes "2 ^ 64 \<le> unat a + 4095"
  shows "PAGE_UP a = 0"
proof -
  have "unat (a + 4095) = (unat a + 4095) mod 2 ^ 64"
    by (simp add: unat_word_ariths)
  also have "\<dots> = (unat a + 4095 - 2 ^ 64) mod 2 ^ 64"
    using assms by (rule le_mod_geq)
  also have "\<dots> = unat a + 4095 - 2 ^ 64"
    using unat_lt64_num [of a] unfolding two_pow_64 by (intro mod_less) linarith
  finally have small: "unat (a + 4095) < 4096"
    using unat_lt64_num [of a] unfolding two_pow_64 by linarith
  then have "unat (PAGE_DOWN (a + 4095)) = 0"
    by (simp add: unat_PAGE_DOWN)
  then show ?thesis
    by (simp add: PAGE_UP_def page_slack unat_eq_0)
qed

section \<open>Intervals and offsets\<close>

lemma CONTAINS_empty [simp]: "\<not> CONTAINS v lo lo"
  by (auto simp: CONTAINS_def word_le_nat_alt word_less_nat_alt)

lemma CONTAINS_offset:
  assumes "unat lo + unat len < 2 ^ 64"
  shows "CONTAINS v lo (OFFSET lo len) \<longleftrightarrow> unat lo \<le> unat v \<and> unat v < unat lo + unat len"
  using assms by (simp add: CONTAINS_def OFFSET_def word_le_nat_alt word_less_nat_alt unat_plus_nowrap)

text \<open>An interval whose end wraps to zero or below its start holds nothing.\<close>

lemma CONTAINS_wrapped: "OFFSET lo len \<le> lo \<Longrightarrow> \<not> CONTAINS v lo (OFFSET lo len)"
  by (auto simp: CONTAINS_def word_le_nat_alt word_less_nat_alt)

lemma container_of_member [simp]: "container_of (p + off) off = p"
  by (simp add: container_of_def)

lemma c_min_le: "c_min a b \<le> a" "c_min a b \<le> b"
  by (auto simp: c_min_def)

lemma c_max_ge: "a \<le> c_max a b" "b \<le> c_max a b"
  by (auto simp: c_max_def)

end
