(* ===== verification/List_Head.thy ===== *)
theory List_Head
  imports Util
begin

text \<open>
  The intrusive lists of \<open>src/src/list.h\<close>: nodes are addresses, a heap maps each node to its
  two links, and every operation is a sequence of link updates in the order of the source.
  \<open>is_list h head xs\<close> says that the circular list at \<open>head\<close> holds exactly the nodes \<open>xs\<close>, in
  that order and with both directions in agreement; each operation is shown to implement its
  counterpart on sequences.
\<close>

record list_heap =
  nxt :: "ptr \<Rightarrow> ptr"
  prv :: "ptr \<Rightarrow> ptr"

definition set_next :: "ptr \<Rightarrow> ptr \<Rightarrow> list_heap \<Rightarrow> list_heap" where
  "set_next p q h = h\<lparr>nxt := (nxt h)(p := q)\<rparr>"

definition set_prev :: "ptr \<Rightarrow> ptr \<Rightarrow> list_heap \<Rightarrow> list_heap" where
  "set_prev p q h = h\<lparr>prv := (prv h)(p := q)\<rparr>"

lemma link_sel [simp]:
  "nxt (set_next p q h) = (nxt h)(p := q)" "prv (set_next p q h) = prv h"
  "prv (set_prev p q h) = (prv h)(p := q)" "nxt (set_prev p q h) = nxt h"
  by (simp_all add: set_next_def set_prev_def)

section \<open>Operations\<close>

definition LIST_POISON1 :: ptr where
  "LIST_POISON1 = 0x00100100 + 0"

definition LIST_POISON2 :: ptr where
  "LIST_POISON2 = 0x00200200 + 0"

text \<open>The initialiser of a head, and the definition of a head at the address \<open>name\<close>.\<close>

definition LIST_HEAD_INIT :: "ptr \<Rightarrow> ptr \<times> ptr" where
  "LIST_HEAD_INIT name = (name, name)"

definition LIST_HEAD :: "ptr \<Rightarrow> list_heap \<Rightarrow> list_heap" where
  "LIST_HEAD name h =
     (let (n, p) = LIST_HEAD_INIT name in h\<lparr>nxt := (nxt h)(name := n), prv := (prv h)(name := p)\<rparr>)"

definition INIT_LIST_HEAD :: "ptr \<Rightarrow> list_heap \<Rightarrow> list_heap" where
  "INIT_LIST_HEAD list h = set_prev list list (set_next list list h)"

definition list_add_valid :: "ptr \<Rightarrow> ptr \<Rightarrow> ptr \<Rightarrow> bool" where
  "list_add_valid new prev next = True"

definition list_del_entry_valid :: "ptr \<Rightarrow> bool" where
  "list_del_entry_valid entry = True"

definition list_add_between :: "ptr \<Rightarrow> ptr \<Rightarrow> ptr \<Rightarrow> list_heap \<Rightarrow> list_heap" where
  "list_add_between new prev next h =
     (if \<not> list_add_valid new prev next then h
      else
        let h1 = set_prev next new h;
            h2 = set_next new next h1;
            h3 = set_prev new prev h2
        in set_next prev new h3)"

definition list_add :: "ptr \<Rightarrow> ptr \<Rightarrow> list_heap \<Rightarrow> list_heap" where
  "list_add new head h = list_add_between new head (nxt h head) h"

definition list_add_tail :: "ptr \<Rightarrow> ptr \<Rightarrow> list_heap \<Rightarrow> list_heap" where
  "list_add_tail new head h = list_add_between new (prv h head) head h"

definition list_del_between :: "ptr \<Rightarrow> ptr \<Rightarrow> list_heap \<Rightarrow> list_heap" where
  "list_del_between prev next h = set_next prev next (set_prev next prev h)"

definition list_del_clearprev :: "ptr \<Rightarrow> list_heap \<Rightarrow> list_heap" where
  "list_del_clearprev entry h =
     set_prev entry NULL (list_del_between (prv h entry) (nxt h entry) h)"

definition list_del_entry :: "ptr \<Rightarrow> list_heap \<Rightarrow> list_heap" where
  "list_del_entry entry h =
     (if \<not> list_del_entry_valid entry then h
      else list_del_between (prv h entry) (nxt h entry) h)"

definition list_del :: "ptr \<Rightarrow> list_heap \<Rightarrow> list_heap" where
  "list_del entry h =
     set_prev entry LIST_POISON2 (set_next entry LIST_POISON1 (list_del_entry entry h))"

definition list_replace :: "ptr \<Rightarrow> ptr \<Rightarrow> list_heap \<Rightarrow> list_heap" where
  "list_replace old new h =
     (let h1 = set_next new (nxt h old) h;
          h2 = set_prev (nxt h1 new) new h1;
          h3 = set_prev new (prv h2 old) h2
      in set_next (prv h3 new) new h3)"

definition list_replace_init :: "ptr \<Rightarrow> ptr \<Rightarrow> list_heap \<Rightarrow> list_heap" where
  "list_replace_init old new h = INIT_LIST_HEAD old (list_replace old new h)"

definition list_swap :: "ptr \<Rightarrow> ptr \<Rightarrow> list_heap \<Rightarrow> list_heap" where
  "list_swap entry1 entry2 h =
     (let pos = prv h entry2;
          h1 = list_del entry2 h;
          h2 = list_replace entry1 entry2 h1;
          pos1 = (if pos = entry1 then entry2 else pos)
      in list_add entry1 pos1 h2)"

definition list_del_init :: "ptr \<Rightarrow> list_heap \<Rightarrow> list_heap" where
  "list_del_init entry h = INIT_LIST_HEAD entry (list_del_entry entry h)"

definition list_move :: "ptr \<Rightarrow> ptr \<Rightarrow> list_heap \<Rightarrow> list_heap" where
  "list_move list head h = list_add list head (list_del_entry list h)"

definition list_move_tail :: "ptr \<Rightarrow> ptr \<Rightarrow> list_heap \<Rightarrow> list_heap" where
  "list_move_tail list head h = list_add_tail list head (list_del_entry list h)"

definition list_bulk_move_tail :: "ptr \<Rightarrow> ptr \<Rightarrow> ptr \<Rightarrow> list_heap \<Rightarrow> list_heap" where
  "list_bulk_move_tail head first final h =
     (let h1 = set_next (prv h first) (nxt h final) h;
          h2 = set_prev (nxt h1 final) (prv h1 first) h1;
          h3 = set_next (prv h2 head) first h2;
          h4 = set_prev first (prv h3 head) h3;
          h5 = set_next final head h4
      in set_prev head final h5)"

definition list_is_first :: "ptr \<Rightarrow> ptr \<Rightarrow> list_heap \<Rightarrow> bool" where
  "list_is_first list head h \<longleftrightarrow> prv h list = head"

definition list_is_last :: "ptr \<Rightarrow> ptr \<Rightarrow> list_heap \<Rightarrow> bool" where
  "list_is_last list head h \<longleftrightarrow> nxt h list = head"

definition list_empty :: "ptr \<Rightarrow> list_heap \<Rightarrow> bool" where
  "list_empty head h \<longleftrightarrow> nxt h head = head"

definition list_rotate_left :: "ptr \<Rightarrow> list_heap \<Rightarrow> list_heap" where
  "list_rotate_left head h =
     (if \<not> list_empty head h then list_move_tail (nxt h head) head h else h)"

definition list_rotate_to_front :: "ptr \<Rightarrow> ptr \<Rightarrow> list_heap \<Rightarrow> list_heap" where
  "list_rotate_to_front list head h = list_move_tail head list h"

definition list_is_singular :: "ptr \<Rightarrow> list_heap \<Rightarrow> bool" where
  "list_is_singular head h \<longleftrightarrow> \<not> list_empty head h \<and> nxt h head = prv h head"

definition list_cut_position_raw :: "ptr \<Rightarrow> ptr \<Rightarrow> ptr \<Rightarrow> list_heap \<Rightarrow> list_heap" where
  "list_cut_position_raw list head entry h =
     (let new_first = nxt h entry;
          h1 = set_next list (nxt h head) h;
          h2 = set_prev (nxt h1 list) list h1;
          h3 = set_prev list entry h2;
          h4 = set_next entry list h3;
          h5 = set_next head new_first h4
      in set_prev new_first head h5)"

definition list_cut_position :: "ptr \<Rightarrow> ptr \<Rightarrow> ptr \<Rightarrow> list_heap \<Rightarrow> list_heap" where
  "list_cut_position list head entry h =
     (if list_empty head h then h
      else if list_is_singular head h \<and> nxt h head \<noteq> entry \<and> head \<noteq> entry then h
      else if entry = head then INIT_LIST_HEAD list h
      else list_cut_position_raw list head entry h)"

definition list_cut_before :: "ptr \<Rightarrow> ptr \<Rightarrow> ptr \<Rightarrow> list_heap \<Rightarrow> list_heap" where
  "list_cut_before list head entry h =
     (if nxt h head = entry then INIT_LIST_HEAD list h
      else
        let h1 = set_next list (nxt h head) h;
            h2 = set_prev (nxt h1 list) list h1;
            h3 = set_prev list (prv h2 entry) h2;
            h4 = set_next (prv h3 list) list h3;
            h5 = set_next head entry h4
        in set_prev entry head h5)"

definition list_splice_between :: "ptr \<Rightarrow> ptr \<Rightarrow> ptr \<Rightarrow> list_heap \<Rightarrow> list_heap" where
  "list_splice_between list prev next h =
     (let first = nxt h list;
          final = prv h list;
          h1 = set_prev first prev h;
          h2 = set_next prev first h1;
          h3 = set_next final next h2
      in set_prev next final h3)"

definition list_splice :: "ptr \<Rightarrow> ptr \<Rightarrow> list_heap \<Rightarrow> list_heap" where
  "list_splice list head h =
     (if \<not> list_empty list h then list_splice_between list head (nxt h head) h else h)"

definition list_splice_tail :: "ptr \<Rightarrow> ptr \<Rightarrow> list_heap \<Rightarrow> list_heap" where
  "list_splice_tail list head h =
     (if \<not> list_empty list h then list_splice_between list (prv h head) head h else h)"

definition list_splice_init :: "ptr \<Rightarrow> ptr \<Rightarrow> list_heap \<Rightarrow> list_heap" where
  "list_splice_init list head h =
     (if \<not> list_empty list h
      then INIT_LIST_HEAD list (list_splice_between list head (nxt h head) h) else h)"

definition list_splice_tail_init :: "ptr \<Rightarrow> ptr \<Rightarrow> list_heap \<Rightarrow> list_heap" where
  "list_splice_tail_init list head h =
     (if \<not> list_empty list h
      then INIT_LIST_HEAD list (list_splice_between list (prv h head) head h) else h)"

section \<open>Representation\<close>

primrec links :: "list_heap \<Rightarrow> ptr \<Rightarrow> ptr list \<Rightarrow> ptr \<Rightarrow> bool" where
  "links h a [] b \<longleftrightarrow> nxt h a = b \<and> prv h b = a"
| "links h a (x # xs) b \<longleftrightarrow> nxt h a = x \<and> prv h x = a \<and> links h x xs b"

definition is_list :: "list_heap \<Rightarrow> ptr \<Rightarrow> ptr list \<Rightarrow> bool" where
  "is_list h head xs \<longleftrightarrow> distinct (head # xs) \<and> links h head xs head"

lemma links_append [simp]:
  "links h a (xs @ y # ys) b \<longleftrightarrow> links h a xs y \<and> links h y ys b"
  by (induction xs arbitrary: a) auto

lemma links_set_next [simp]:
  "p \<noteq> a \<Longrightarrow> p \<notin> set xs \<Longrightarrow> links (set_next p q h) a xs b = links h a xs b"
  by (induction xs arbitrary: a) auto

lemma links_set_prev [simp]:
  "p \<noteq> b \<Longrightarrow> p \<notin> set xs \<Longrightarrow> links (set_prev p q h) a xs b = links h a xs b"
  by (induction xs arbitrary: a) auto

lemma is_list_next: "is_list h head (xs @ e # ys) \<Longrightarrow> nxt h e = hd (ys @ [head])"
  by (cases ys) (auto simp: is_list_def)

lemma is_list_prev: "is_list h head (xs @ e # ys) \<Longrightarrow> prv h e = last (head # xs)"
  by (cases xs rule: rev_cases) (auto simp: is_list_def)

lemma is_list_head_next: "is_list h head xs \<Longrightarrow> nxt h head = hd (xs @ [head])"
  by (cases xs) (auto simp: is_list_def)

lemma is_list_head_prev: "is_list h head xs \<Longrightarrow> prv h head = last (head # xs)"
  by (cases xs rule: rev_cases) (auto simp: is_list_def)

lemmas is_list_nbrs = is_list_next is_list_prev is_list_head_next is_list_head_prev

text \<open>The list at a head is unique: both heap and head determine it.\<close>

lemma links_unique:
  "links h a xs b \<Longrightarrow> links h a ys b \<Longrightarrow> b \<notin> set xs \<Longrightarrow> b \<notin> set ys \<Longrightarrow> xs = ys"
proof (induction xs arbitrary: a ys)
  case Nil
  then show ?case by (cases ys) auto
next
  case (Cons x xs)
  then show ?case by (cases ys) auto
qed

lemma is_list_unique: "is_list h head xs \<Longrightarrow> is_list h head ys \<Longrightarrow> xs = ys"
  by (auto simp: is_list_def dest: links_unique)

section \<open>Insertion and deletion\<close>

lemma LIST_HEAD_eq: "LIST_HEAD name h = INIT_LIST_HEAD name h"
  by (simp add: LIST_HEAD_def LIST_HEAD_INIT_def INIT_LIST_HEAD_def set_next_def set_prev_def)

lemma is_list_INIT: "is_list (INIT_LIST_HEAD p h) p []"
  by (simp add: is_list_def INIT_LIST_HEAD_def)

lemma is_list_insert:
  assumes "is_list h head (xs @ ys)" "new \<notin> set (head # xs @ ys)"
  shows "is_list (list_add_between new (last (head # xs)) (hd (ys @ [head])) h) head (xs @ new # ys)"
  using assms
  by (cases xs rule: rev_cases; cases ys)
    (auto simp: is_list_def list_add_between_def list_add_valid_def Let_def)

lemma is_list_unlink:
  assumes "is_list h head (xs @ e # ys)"
  shows "is_list (list_del_between (prv h e) (nxt h e) h) head (xs @ ys)"
  using assms
  by (cases xs rule: rev_cases; cases ys)
    (auto simp: is_list_def list_del_between_def)

lemmas list_edit_defs =
  is_list_def list_add_between_def list_add_valid_def list_del_between_def list_del_entry_def
  list_del_entry_valid_def INIT_LIST_HEAD_def Let_def

text \<open>An operation on one list leaves alone every list that shares no node with what it changed.\<close>

definition changes_only :: "ptr set \<Rightarrow> list_heap \<Rightarrow> list_heap \<Rightarrow> bool" where
  "changes_only S h h' \<longleftrightarrow> (\<forall>p. p \<notin> S \<longrightarrow> nxt h' p = nxt h p \<and> prv h' p = prv h p)"

lemma changes_only_trans:
  "changes_only S h h1 \<Longrightarrow> changes_only T h1 h2 \<Longrightarrow> changes_only (S \<union> T) h h2"
  by (simp add: changes_only_def)

lemma changes_only_mono: "changes_only S h h' \<Longrightarrow> S \<subseteq> T \<Longrightarrow> changes_only T h h'"
  by (auto simp: changes_only_def)

lemma links_frame:
  "changes_only S h h' \<Longrightarrow> S \<inter> set (a # b # xs) = {} \<Longrightarrow> links h' a xs b = links h a xs b"
  by (induction xs arbitrary: a) (auto simp: changes_only_def)

lemma is_list_frame:
  "changes_only S h h' \<Longrightarrow> S \<inter> set (head # xs) = {} \<Longrightarrow> is_list h' head xs = is_list h head xs"
  by (simp add: is_list_def links_frame)

lemma list_add_between_changes: "changes_only {new, prev, next} h (list_add_between new prev next h)"
  by (auto simp: changes_only_def list_add_between_def Let_def)

lemma list_del_between_changes: "changes_only {prev, next} h (list_del_between prev next h)"
  by (auto simp: changes_only_def list_del_between_def)

lemma is_list_add:
  "is_list h head xs \<Longrightarrow> new \<notin> set (head # xs) \<Longrightarrow> is_list (list_add new head h) head (new # xs)"
  using is_list_insert [of h head "[]" xs new] by (simp add: list_add_def is_list_head_next)

lemma is_list_add_tail:
  "is_list h head xs \<Longrightarrow> new \<notin> set (head # xs) \<Longrightarrow> is_list (list_add_tail new head h) head (xs @ [new])"
  using is_list_insert [of h head xs "[]" new] by (simp add: list_add_tail_def is_list_head_prev)

text \<open>Both insertions also work at a node inside the list.\<close>

lemma is_list_add_after:
  "is_list h head (xs @ e # ys) \<Longrightarrow> new \<notin> set (head # xs @ e # ys) \<Longrightarrow>
     is_list (list_add new e h) head (xs @ e # new # ys)"
  using is_list_insert [of h head "xs @ [e]" ys new] is_list_next [of h head xs e ys]
  by (simp add: list_add_def)

lemma is_list_add_before:
  "is_list h head (xs @ e # ys) \<Longrightarrow> new \<notin> set (head # xs @ e # ys) \<Longrightarrow>
     is_list (list_add_tail new e h) head (xs @ new # e # ys)"
  using is_list_insert [of h head xs "e # ys" new] is_list_prev [of h head xs e ys]
  by (simp add: list_add_tail_def)

lemma is_list_del_entry:
  "is_list h head (xs @ e # ys) \<Longrightarrow> is_list (list_del_entry e h) head (xs @ ys)"
  using is_list_unlink by (simp add: list_del_entry_def list_del_entry_valid_def)

lemma is_list_outside:
  "p \<notin> set (head # xs) \<Longrightarrow> is_list (set_next p q h) head xs = is_list h head xs"
  "p \<notin> set (head # xs) \<Longrightarrow> is_list (set_prev p q h) head xs = is_list h head xs"
  by (simp_all add: is_list_def)

lemma is_list_notin: "is_list h head (xs @ e # ys) \<Longrightarrow> e \<notin> set (head # xs @ ys)"
  by (auto simp: is_list_def)

lemma is_list_del:
  assumes "is_list h head (xs @ e # ys)"
  shows "is_list (list_del e h) head (xs @ ys)"
    and "nxt (list_del e h) e = LIST_POISON1" "prv (list_del e h) e = LIST_POISON2"
proof -
  have "e \<notin> set (head # xs @ ys)" using assms by (rule is_list_notin)
  then show "is_list (list_del e h) head (xs @ ys)"
    using is_list_del_entry [OF assms] by (auto simp: list_del_def is_list_outside)
qed (simp_all add: list_del_def)

lemma is_list_del_clearprev:
  assumes "is_list h head (xs @ e # ys)"
  shows "is_list (list_del_clearprev e h) head (xs @ ys)" "prv (list_del_clearprev e h) e = NULL"
proof -
  have "e \<notin> set (head # xs @ ys)" using assms by (rule is_list_notin)
  then show "is_list (list_del_clearprev e h) head (xs @ ys)"
    using is_list_unlink [OF assms] by (auto simp: list_del_clearprev_def is_list_outside)
qed (simp add: list_del_clearprev_def)

lemma is_list_del_init:
  assumes "is_list h head (xs @ e # ys)"
  shows "is_list (list_del_init e h) head (xs @ ys)" "is_list (list_del_init e h) e []"
proof -
  have "e \<notin> set (head # xs @ ys)" using assms by (rule is_list_notin)
  then show "is_list (list_del_init e h) head (xs @ ys)"
    using is_list_del_entry [OF assms]
    by (auto simp: list_del_init_def INIT_LIST_HEAD_def is_list_outside)
qed (simp add: list_del_init_def is_list_INIT)

lemma list_empty_iff: "is_list h head xs \<Longrightarrow> list_empty head h \<longleftrightarrow> xs = []"
  by (cases xs) (auto simp: is_list_def list_empty_def)

lemma list_is_singular_iff: "is_list h head xs \<Longrightarrow> list_is_singular head h \<longleftrightarrow> length xs = 1"
proof (cases xs)
  case (Cons a as)
  assume "is_list h head xs"
  then show ?thesis
    using Cons by (cases as rule: rev_cases) (auto simp: is_list_def list_is_singular_def list_empty_def)
qed (auto simp: is_list_def list_is_singular_def list_empty_def)

lemma list_is_first_iff:
  "is_list h head (xs @ e # ys) \<Longrightarrow> list_is_first e head h \<longleftrightarrow> xs = []"
  by (cases xs rule: rev_cases) (auto simp: is_list_def list_is_first_def)

lemma list_is_last_iff:
  "is_list h head (xs @ e # ys) \<Longrightarrow> list_is_last e head h \<longleftrightarrow> ys = []"
  by (cases ys) (auto simp: is_list_def list_is_last_def)

section \<open>Replacing, swapping and moving\<close>

text \<open>Replacing is unlinking the old node and linking the new one between its neighbours.\<close>

lemma list_add_after_unlink:
  "list_add_between new p n (list_del_between p n h) = list_add_between new p n h"
  by (rule list_heap.equality)
    (auto simp: list_add_between_def list_del_between_def Let_def list_add_valid_def)

lemma list_replace_eq:
  assumes "nxt h old \<noteq> old" "prv h old \<noteq> new" "nxt h old \<noteq> new" "old \<noteq> new"
  shows "list_replace old new h = list_add_between new (prv h old) (nxt h old) h"
  using assms
  by (intro list_heap.equality)
    (auto simp: list_replace_def list_add_between_def Let_def list_add_valid_def fun_eq_iff)

lemma is_list_replace:
  assumes "is_list h head (xs @ old # ys)" "new \<notin> set (head # xs @ old # ys)"
  shows "is_list (list_replace old new h) head (xs @ new # ys)"
proof -
  have n: "nxt h old = hd (ys @ [head])" and p: "prv h old = last (head # xs)"
    using assms(1) is_list_nbrs by blast+
  have "nxt h old \<in> set (ys @ [head])" "prv h old \<in> set (head # xs)"
    unfolding n p by (rule list.set_sel, simp) (rule last_in_set, simp)
  then have "list_replace old new h = list_add_between new (prv h old) (nxt h old) h"
    using assms by (intro list_replace_eq) (auto simp: is_list_def)
  also have "\<dots> = list_add_between new (prv h old) (nxt h old)
      (list_del_between (prv h old) (nxt h old) h)"
    by (simp add: list_add_after_unlink)
  finally show ?thesis
    using is_list_insert [OF is_list_unlink [OF assms(1)], of new] assms(2) n p by simp
qed

lemma is_list_replace_init:
  assumes "is_list h head (xs @ old # ys)" "new \<notin> set (head # xs @ old # ys)"
  shows "is_list (list_replace_init old new h) head (xs @ new # ys)"
    "is_list (list_replace_init old new h) old []"
proof -
  have "old \<notin> set (head # xs @ new # ys)" using assms by (auto simp: is_list_def)
  then show "is_list (list_replace_init old new h) head (xs @ new # ys)"
    using is_list_replace [OF assms]
    by (auto simp: list_replace_init_def INIT_LIST_HEAD_def is_list_outside)
qed (simp add: list_replace_init_def is_list_INIT)

text \<open>The two entries may come in either order and may be neighbours.\<close>

lemma is_list_swap_before:
  assumes "is_list h head (xs @ a # ys @ b # zs)"
  shows "is_list (list_swap a b h) head (xs @ b # ys @ a # zs)"
proof -
  have pos: "prv h b = last (a # ys)"
    using is_list_prev [of h head "xs @ a # ys" b zs] assms by simp
  have d: "distinct (head # xs @ a # ys @ b # zs)" using assms by (simp add: is_list_def)
  have "is_list (list_del b h) head (xs @ a # ys @ zs)"
    using is_list_del(1) [of h head "xs @ a # ys" b zs] assms by simp
  then have r: "is_list (list_replace a b (list_del b h)) head (xs @ b # ys @ zs)"
    using d by (intro is_list_replace) auto
  show ?thesis
  proof (cases ys rule: rev_cases)
    case Nil
    then show ?thesis
      using is_list_add_after [of _ head xs b zs a] r d pos by (auto simp: list_swap_def Let_def)
  next
    case (snoc us u)
    then show ?thesis
      using is_list_add_after [of _ head "xs @ b # us" u zs a] r d pos
      by (auto simp: list_swap_def Let_def)
  qed
qed

lemma is_list_swap_after:
  assumes "is_list h head (xs @ b # ys @ a # zs)"
  shows "is_list (list_swap a b h) head (xs @ a # ys @ b # zs)"
proof -
  have pos: "prv h b = last (head # xs)"
    using is_list_prev [of h head xs b "ys @ a # zs"] assms by simp
  have d: "distinct (head # xs @ b # ys @ a # zs)" using assms by (simp add: is_list_def)
  have "is_list (list_del b h) head ((xs @ ys) @ a # zs)"
    using is_list_del(1) [of h head xs b "ys @ a # zs"] assms by simp
  then have r: "is_list (list_replace a b (list_del b h)) head ((xs @ ys) @ b # zs)"
    using d by (intro is_list_replace) auto
  show ?thesis
  proof (cases xs rule: rev_cases)
    case Nil
    then show ?thesis
      using is_list_add [of _ head "ys @ b # zs" a] r d pos by (auto simp: list_swap_def Let_def)
  next
    case (snoc us u)
    then show ?thesis
      using is_list_add_after [of _ head us u "ys @ b # zs" a] r d pos
      by (auto simp: list_swap_def Let_def)
  qed
qed

text \<open>A node's neighbours belong to its list.\<close>

lemma is_list_nbrs_in:
  assumes "is_list h head (xs @ e # ys)"
  shows "nxt h e \<in> set (head # ys)" "prv h e \<in> set (head # xs)"
proof -
  have "hd (ys @ [head]) \<in> set (ys @ [head])" by (rule list.set_sel) simp
  then show "nxt h e \<in> set (head # ys)" using is_list_next [OF assms] by auto
  have "last (head # xs) \<in> set (head # xs)" by (rule last_in_set) simp
  then show "prv h e \<in> set (head # xs)" using is_list_prev [OF assms] by simp
qed

lemma is_list_ends_in:
  assumes "is_list h head xs"
  shows "nxt h head \<in> set (head # xs)" "prv h head \<in> set (head # xs)"
proof -
  have "hd (xs @ [head]) \<in> set (xs @ [head])" by (rule list.set_sel) simp
  then show "nxt h head \<in> set (head # xs)" using is_list_head_next [OF assms] by auto
  have "last (head # xs) \<in> set (head # xs)" by (rule last_in_set) simp
  then show "prv h head \<in> set (head # xs)" using is_list_head_prev [OF assms] by simp
qed

lemma list_del_entry_changes:
  "is_list h head (xs @ e # ys) \<Longrightarrow> changes_only (set (head # xs @ ys)) h (list_del_entry e h)"
  using is_list_nbrs_in [of h head xs e ys]
  by (auto simp: list_del_entry_def list_del_entry_valid_def
      intro: changes_only_mono [OF list_del_between_changes])

lemma list_add_changes:
  "is_list h head xs \<Longrightarrow> changes_only (set (new # head # xs)) h (list_add new head h)"
  using is_list_ends_in [of h head xs]
  by (auto simp: list_add_def intro: changes_only_mono [OF list_add_between_changes])

lemma list_add_tail_changes:
  "is_list h head xs \<Longrightarrow> changes_only (set (new # head # xs)) h (list_add_tail new head h)"
  using is_list_ends_in [of h head xs]
  by (auto simp: list_add_tail_def intro: changes_only_mono [OF list_add_between_changes])

text \<open>Moving an entry to the front or the back of its own list.\<close>

lemma is_list_move_same:
  assumes "is_list h head (xs @ e # ys)"
  shows "is_list (list_move e head h) head (e # xs @ ys)"
    "is_list (list_move_tail e head h) head (xs @ ys @ [e])"
  using is_list_add [OF is_list_del_entry [OF assms] is_list_notin [OF assms]]
    is_list_add_tail [OF is_list_del_entry [OF assms] is_list_notin [OF assms]]
  by (simp_all add: list_move_def list_move_tail_def)

text \<open>Moving an entry from one list to another.\<close>

lemma is_list_move_other:
  assumes l1: "is_list h head1 (xs @ e # ys)" and l2: "is_list h head2 zs"
    and d: "set (head1 # xs @ e # ys) \<inter> set (head2 # zs) = {}"
  shows "is_list (list_move e head2 h) head1 (xs @ ys)" "is_list (list_move e head2 h) head2 (e # zs)"
    and "is_list (list_move_tail e head2 h) head1 (xs @ ys)"
      "is_list (list_move_tail e head2 h) head2 (zs @ [e])"
proof -
  let ?h = "list_del_entry e h"
  have l1': "is_list ?h head1 (xs @ ys)" by (rule is_list_del_entry [OF l1])
  have l2': "is_list ?h head2 zs"
    using is_list_frame [OF list_del_entry_changes [OF l1], of head2 zs] l2 d by auto
  have e: "e \<notin> set (head2 # zs)" "set (e # head2 # zs) \<inter> set (head1 # xs @ ys) = {}"
    using d is_list_notin [OF l1] by auto
  show "is_list (list_move e head2 h) head2 (e # zs)"
    unfolding list_move_def by (rule is_list_add [OF l2' e(1)])
  show "is_list (list_move_tail e head2 h) head2 (zs @ [e])"
    unfolding list_move_tail_def by (rule is_list_add_tail [OF l2' e(1)])
  show "is_list (list_move e head2 h) head1 (xs @ ys)"
    unfolding list_move_def using is_list_frame [OF list_add_changes [OF l2'] e(2)] l1' by simp
  show "is_list (list_move_tail e head2 h) head1 (xs @ ys)"
    unfolding list_move_tail_def using is_list_frame [OF list_add_tail_changes [OF l2'] e(2)] l1' by simp
qed

text \<open>
  Ending a path at another node: enough is that the links on the way are as before and that the
  last node and the new end agree.
\<close>

lemma links_retarget:
  assumes "links h a xs b" "distinct (a # xs)" "last (a # xs) = q"
    and "\<And>p. p \<in> set (a # xs) \<Longrightarrow> p \<noteq> q \<Longrightarrow> nxt h' p = nxt h p"
    and "\<And>p. p \<in> set xs \<Longrightarrow> prv h' p = prv h p"
    and "nxt h' q = c" "prv h' c = q"
  shows "links h' a xs c"
  using assms
proof (induction xs arbitrary: a)
  case Nil
  then show ?case by simp
next
  case (Cons x xs)
  have "q \<noteq> a" using Cons.prems(2,3) last_in_set [of "x # xs"] by auto
  moreover have "links h' x xs c"
    using Cons.prems by (intro Cons.IH) auto
  ultimately show ?case using Cons.prems by simp
qed

lemma is_list_bulk_move_split:
  assumes "is_list h head (xs @ (f # ms) @ (n # ys))"
  shows "is_list (list_bulk_move_tail head f (last (f # ms)) h) head (xs @ (n # ys) @ (f # ms))"
proof -
  obtain p l t where ends: "last (head # xs) = p" "last (f # ms) = l" "last (n # ys) = t" by blast
  have d: "distinct (head # xs)" "distinct (f # ms)" "distinct (n # ys)"
    "set (head # xs) \<inter> set (f # ms) = {}" "set (head # xs) \<inter> set (n # ys) = {}"
    "set (f # ms) \<inter> set (n # ys) = {}"
    using assms by (auto simp: is_list_def)
  have mem: "p \<in> set (head # xs)" "l \<in> set (f # ms)" "t \<in> set (n # ys)"
    unfolding ends [symmetric] by (rule last_in_set; simp)+
  have L: "links h head xs f" "links h f ms n" "links h n ys head"
    using assms by (simp_all add: is_list_def)
  have p: "prv h f = p" 
    using is_list_prev [of h head xs f "ms @ n # ys"] assms ends by simp
  have n: "nxt h l = n"
    using is_list_next [of h head "xs @ butlast (f # ms)" l "n # ys"] assms ends
    by (metis append_butlast_last_id append.assoc append_Cons append_Nil list.sel(1) list.distinct(1))
  have t: "prv h head = t"
    using is_list_head_prev [OF assms] ends by simp
  define h' where "h' = list_bulk_move_tail head f l h"
  have ne: "f \<noteq> n" "l \<noteq> n" "t \<noteq> l" "t \<noteq> f" "head \<noteq> f" "head \<noteq> l" "head \<noteq> n" "head \<noteq> t"
    "p \<noteq> f" "p \<noteq> l" "p \<noteq> n" "p \<noteq> t"
    using d mem by auto
  have h': "nxt h' = (nxt h)(p := n, t := f, l := head)" "prv h' = (prv h)(n := p, f := t, head := l)"
    using p n t ne unfolding h'_def list_bulk_move_tail_def Let_def by auto
  have "links h' head xs n"
    by (rule links_retarget [OF L(1) d(1) ends(1)]; use ne d mem in \<open>auto simp: h'\<close>)
  moreover have "links h' n ys f" 
    by (rule links_retarget [OF L(3) d(3) ends(3)]; use ne d mem in \<open>auto simp: h'\<close>)
  moreover have "links h' f ms head"
    by (rule links_retarget [OF L(2) d(2) ends(2)]; use ne d mem in \<open>auto simp: h'\<close>)
  ultimately show ?thesis
    using assms ends by (auto simp: is_list_def h'_def)
qed
text \<open>A block that is already at the tail stays there.\<close>

lemma list_bulk_move_at_tail:
  assumes "is_list h head (xs @ f # ms)"
  shows "list_bulk_move_tail head f (last (f # ms)) h = h"
proof -
  obtain p l where ends: "last (head # xs) = p" "last (f # ms) = l" by blast
  have p: "prv h f = p" "prv h head = l"
    using is_list_prev [OF assms] is_list_head_prev [OF assms] ends by simp_all
  have split: "xs @ f # ms = (xs @ butlast (f # ms)) @ l # []"
    unfolding ends(2) [symmetric] by simp
  have l: "nxt h l = head"
    using is_list_next [of h head "xs @ butlast (f # ms)" l "[]"] assms split by simp
  have f: "nxt h p = f"
    using assms ends(1) by (cases xs rule: rev_cases) (auto simp: is_list_def)
  have "l \<in> set (f # ms)" "p \<in> set (head # xs)"
    unfolding ends [symmetric] by (rule last_in_set; simp)+
  then have ne: "l \<noteq> p" "f \<noteq> head" "l \<noteq> head"
    using assms by (auto simp: is_list_def)
  show ?thesis
    unfolding ends(2) list_bulk_move_tail_def Let_def
    using p l f ne by (intro list_heap.equality) (auto simp: fun_eq_iff)
qed

lemma is_list_bulk_move_tail:
  assumes "is_list h head (xs @ bs @ ys)" "bs \<noteq> []"
  shows "is_list (list_bulk_move_tail head (hd bs) (last bs) h) head (xs @ ys @ bs)"
proof -
  obtain f ms where bs: "bs = f # ms" using assms(2) by (cases bs) auto
  show ?thesis
    using assms(1) list_bulk_move_at_tail [of h head xs f ms]
      is_list_bulk_move_split [of h head xs f ms]
    by (cases ys) (simp_all add: bs)
qed

section \<open>Rotation\<close>

text \<open>A circular list may be read from any of its nodes.\<close>

lemma is_list_reseat: "is_list h head (xs @ e # ys) \<Longrightarrow> is_list h e (ys @ head # xs)"
  by (auto simp: is_list_def)

lemma is_list_rotate_left:
  assumes "is_list h head xs"
  shows "is_list (list_rotate_left head h) head (rotate1 xs)"
proof (cases xs)
  case Nil
  then show ?thesis
    using assms list_empty_iff [OF assms] by (simp add: list_rotate_left_def)
next
  case (Cons x ys)
  then show ?thesis
    using assms list_empty_iff [OF assms] is_list_head_next [OF assms]
      is_list_move_same(2) [of h head "[]" x ys]
    by (simp add: list_rotate_left_def)
qed

lemma is_list_rotate_to_front:
  assumes "is_list h head (xs @ e # ys)"
  shows "is_list (list_rotate_to_front e head h) head (e # ys @ xs)"
  using is_list_reseat [of _ e "ys @ xs" head "[]"]
    is_list_move_same(2) [OF is_list_reseat [OF assms]]
  by (simp add: list_rotate_to_front_def)

section \<open>Cutting and splicing\<close>

lemma links_agree:
  assumes "links h a xs b" "\<And>p. p \<in> set (a # xs) \<Longrightarrow> nxt h' p = nxt h p"
    "\<And>p. p \<in> set (b # xs) \<Longrightarrow> prv h' p = prv h p"
  shows "links h' a xs b"
  using assms by (induction xs arbitrary: a) auto

lemma is_list_splice_between:
  assumes l: "is_list h list ys" "ys \<noteq> []" and m: "is_list h head (xs @ zs)"
    and dj: "set (list # ys) \<inter> set (head # xs @ zs) = {}"
  shows "is_list (list_splice_between list (last (head # xs)) (hd (zs @ [head])) h) head (xs @ ys @ zs)"
proof -
  obtain f gs where ys: "ys = f # gs" using l(2) by (cases ys) auto
  obtain p t n where ends: "last (head # xs) = p" "last (f # gs) = t" "hd (zs @ [head]) = n" by blast
  define h' where "h' = list_splice_between list p n h"
  have mem: "p \<in> set (head # xs)" "t \<in> set (f # gs)"
    unfolding ends [symmetric] by (rule last_in_set; simp)+
  have n: "n \<in> set (head # zs)"
    unfolding ends [symmetric] by (cases zs) auto
  have d: "distinct (head # xs)" "distinct (f # gs)" "distinct (head # zs)"
    "set xs \<inter> set zs = {}" "list \<notin> set (f # gs)"
    "set (f # gs) \<inter> set (head # xs @ zs) = {}"
    using l m dj ys by (auto simp: is_list_def)
  have ft: "nxt h list = f" "prv h list = t"
    using is_list_head_next [OF l(1)] is_list_head_prev [OF l(1)] ys ends by simp_all
  have h': "nxt h' = (nxt h)(p := f, t := n)" "prv h' = (prv h)(f := p, n := t)"
    using ft unfolding h'_def list_splice_between_def Let_def by auto
  have L: "links h head xs n" "links h f gs list"
    using l(1) m ys ends(3) by (cases zs; auto simp: is_list_def)+
  have a: "links h' head xs f"
    by (rule links_retarget [OF L(1) d(1) ends(1)]; use d mem n in \<open>auto simp: h'\<close>)
  have b: "links h' f gs n"
    by (rule links_retarget [OF L(2) d(2) ends(2)]; use d mem n in \<open>auto simp: h'\<close>)
  have c: "links h' z zs' head" if "zs = z # zs'" for z zs'
  proof (rule links_agree)
    show "links h z zs' head" using m that by (simp add: is_list_def)
  qed (use d mem that ends(3) in \<open>auto simp: h'\<close>)
  have "links h' head (xs @ ys @ zs) head"
    using a b c ends(3) ys by (cases zs) auto
  then show ?thesis
    using d l m dj unfolding h'_def ends by (auto simp: is_list_def)
qed

lemma is_list_splice:
  assumes "is_list h list ys" "is_list h head xs" "set (list # ys) \<inter> set (head # xs) = {}"
  shows "is_list (list_splice list head h) head (ys @ xs)"
    "is_list (list_splice_tail list head h) head (xs @ ys)"
  using is_list_splice_between [of h list ys head "[]" xs] assms
    is_list_splice_between [of h list ys head xs "[]"]
    list_empty_iff [OF assms(1)] is_list_head_next [OF assms(2)] is_list_head_prev [OF assms(2)]
  by (cases "ys = []"; simp add: list_splice_def list_splice_tail_def)+

text \<open>The \<open>init\<close> variants also leave the emptied list in a usable state.\<close>

lemma is_list_splice_init:
  assumes "is_list h list ys" "is_list h head xs" "set (list # ys) \<inter> set (head # xs) = {}"
  shows "is_list (list_splice_init list head h) head (ys @ xs)"
    "is_list (list_splice_init list head h) list []"
    "is_list (list_splice_tail_init list head h) head (xs @ ys)"
    "is_list (list_splice_tail_init list head h) list []"
proof -
  have nin: "list \<notin> set (head # ys @ xs)" "list \<notin> set (head # xs @ ys)"
    using assms by (auto simp: is_list_def)
  have e: "list_empty list h \<longleftrightarrow> ys = []" by (rule list_empty_iff [OF assms(1)])
  show "is_list (list_splice_init list head h) head (ys @ xs)"
    using is_list_splice(1) [OF assms] nin(1) e
    by (auto simp: list_splice_def list_splice_init_def INIT_LIST_HEAD_def is_list_outside)
  show "is_list (list_splice_tail_init list head h) head (xs @ ys)"
    using is_list_splice(2) [OF assms] nin(2) e
    by (auto simp: list_splice_tail_def list_splice_tail_init_def INIT_LIST_HEAD_def is_list_outside)
  show "is_list (list_splice_init list head h) list []"
    "is_list (list_splice_tail_init list head h) list []"
    using assms(1) e by (auto simp: list_splice_init_def list_splice_tail_init_def is_list_INIT)
qed

text \<open>The entries up to and including \<open>entry\<close> move to the new list.\<close>

lemma is_list_cut_position_raw:
  assumes m: "is_list h head (xs @ e # ys)" and new: "list \<notin> set (head # xs @ e # ys)"
  shows "is_list (list_cut_position_raw list head e h) list (xs @ [e])"
    "is_list (list_cut_position_raw list head e h) head ys"
proof -
  obtain f gs where fg: "xs @ [e] = f # gs" by (cases xs) auto
  have split: "xs @ e # ys = (f # gs) @ ys" using fg by (metis append.assoc append_Cons append_Nil)
  obtain n where n: "hd (ys @ [head]) = n" by blast
  have nx: "nxt h e = n" "nxt h head = f"
    using is_list_next [OF m] is_list_head_next [OF m] n split by simp_all
  have last: "last (f # gs) = e" using fg by (metis last_snoc)
  have d: "distinct (f # gs)" "distinct (head # ys)" "head \<notin> set (f # gs)"
    "set (f # gs) \<inter> set ys = {}" "list \<notin> set (head # (f # gs) @ ys)"
    using m new unfolding split by (auto simp: is_list_def)
  have mem: "e \<in> set (f # gs)" "n \<in> set (head # ys)"
    using fg n by (metis in_set_conv_decomp, cases ys) auto
  define h' where "h' = list_cut_position_raw list head e h"
  have h': "nxt h' = (nxt h)(list := f, e := list, head := n)"
    "prv h' = (prv h)(f := list, list := e, n := head)"
    using nx d mem unfolding h'_def list_cut_position_raw_def Let_def by auto
  have L: "links h f gs n"
    using m n unfolding split is_list_def by (cases ys) auto
  have "links h' f gs list"
    by (rule links_retarget [OF L d(1) last]; use d mem in \<open>auto simp: h'\<close>)
  then show "is_list (list_cut_position_raw list head e h) list (xs @ [e])"
    using d mem unfolding h'_def [symmetric] fg is_list_def by (auto simp: h')
  have "links h' head ys head"
  proof (cases ys)
    case Nil
    then show ?thesis using n by (simp add: h')
  next
    case (Cons z zs)
    have "links h z zs head" using m Cons by (simp add: is_list_def)
    then have "links h' z zs head"
      by (rule links_agree) (use d mem n Cons in \<open>auto simp: h'\<close>)
    then show ?thesis using n Cons d mem by (auto simp: h')
  qed
  then show "is_list (list_cut_position_raw list head e h) head ys"
    using d unfolding h'_def [symmetric] is_list_def by auto
qed

lemma is_list_cut_position:
  assumes "is_list h head (xs @ e # ys)" "list \<notin> set (head # xs @ e # ys)"
  shows "is_list (list_cut_position list head e h) list (xs @ [e])"
    "is_list (list_cut_position list head e h) head ys"
proof -
  have "e \<noteq> head" "\<not> list_empty head h"
    using assms list_empty_iff [OF assms(1)] by (auto simp: is_list_def)
  moreover have "nxt h head = e" if "list_is_singular head h"
    using that list_is_singular_iff [OF assms(1)] is_list_head_next [OF assms(1)] by simp
  ultimately have "list_cut_position list head e h = list_cut_position_raw list head e h"
    by (auto simp: list_cut_position_def)
  then show "is_list (list_cut_position list head e h) list (xs @ [e])"
    "is_list (list_cut_position list head e h) head ys"
    using is_list_cut_position_raw [OF assms] by simp_all
qed

text \<open>Cutting at the head itself moves nothing and leaves an empty list behind.\<close>

lemma is_list_cut_position_head:
  assumes "is_list h head xs" "list \<notin> set (head # xs)" "xs \<noteq> []"
  shows "is_list (list_cut_position list head head h) list []"
    "is_list (list_cut_position list head head h) head xs"
  using assms list_empty_iff [OF assms(1)]
  by (auto simp: list_cut_position_def INIT_LIST_HEAD_def is_list_outside)
    (auto simp: is_list_def)

lemma list_cut_position_noop:
  "is_list h head [] \<Longrightarrow> list_cut_position list head e h = h"
  "is_list h head [x] \<Longrightarrow> e \<noteq> x \<Longrightarrow> e \<noteq> head \<Longrightarrow> list_cut_position list head e h = h"
  by (auto simp: list_cut_position_def list_empty_def list_is_singular_def is_list_def)

text \<open>The entries strictly before \<open>entry\<close> move to the new list.\<close>

lemma is_list_cut_before:
  assumes m: "is_list h head (xs @ e # ys)" and new: "list \<notin> set (head # xs @ e # ys)"
  shows "is_list (list_cut_before list head e h) list xs"
    "is_list (list_cut_before list head e h) head (e # ys)"
proof -
  have "is_list (list_cut_before list head e h) list xs \<and>
    is_list (list_cut_before list head e h) head (e # ys)"
  proof (cases xs)
    case Nil
    then show ?thesis
      using m new is_list_head_next [OF m]
      by (auto simp: list_cut_before_def is_list_INIT)
        (auto simp: INIT_LIST_HEAD_def is_list_def)
  next
    case (Cons f gs)
    obtain q where q: "last (f # gs) = q" by blast
    have d: "distinct (f # gs)" "distinct (head # e # ys)" "head \<notin> set (f # gs)"
      "set (f # gs) \<inter> set (e # ys) = {}" "list \<notin> set (head # (f # gs) @ e # ys)"
      using m new unfolding Cons by (auto simp: is_list_def)
    have mem: "q \<in> set (f # gs)" unfolding q [symmetric] by (rule last_in_set) simp
    have nx: "nxt h head = f" "prv h e = q"
      using is_list_head_next [OF m] is_list_prev [OF m] Cons q by simp_all
    have ne: "f \<noteq> e" "q \<noteq> list" "q \<noteq> head" "e \<noteq> head" "e \<noteq> list" "q \<noteq> e" using d mem by auto
    define h' where "h' = list_cut_before list head e h"
    have h': "nxt h' = (nxt h)(list := f, q := list, head := e)"
      "prv h' = (prv h)(f := list, list := q, e := head)"
      using nx ne d unfolding h'_def list_cut_before_def Let_def by auto
    have L: "links h f gs e" "links h e ys head"
      using m unfolding Cons is_list_def by auto
    have "links h' f gs list"
      by (rule links_retarget [OF L(1) d(1) q]; use d mem in \<open>auto simp: h'\<close>)
    moreover have "links h' e ys head"
      by (rule links_agree [OF L(2)]; use d mem in \<open>auto simp: h'\<close>)
    ultimately show ?thesis
      using d mem unfolding h'_def [symmetric] Cons is_list_def by (auto simp: h')
  qed
  then show "is_list (list_cut_before list head e h) list xs"
    "is_list (list_cut_before list head e h) head (e # ys)" by blast+
qed

text \<open>With the head as the entry every node moves.\<close>

lemma is_list_cut_before_head:
  assumes m: "is_list h head xs" and new: "list \<notin> set (head # xs)"
  shows "is_list (list_cut_before list head head h) list xs"
    "is_list (list_cut_before list head head h) head []"
proof -
  have "is_list (list_cut_before list head head h) list xs \<and>
    is_list (list_cut_before list head head h) head []"
  proof (cases xs)
    case Nil
    then show ?thesis
      using m new by (auto simp: list_cut_before_def is_list_def INIT_LIST_HEAD_def)
  next
    case (Cons f gs)
    obtain q where q: "last (f # gs) = q" by blast
    have d: "distinct (f # gs)" "head \<notin> set (f # gs)" "list \<notin> set (head # f # gs)"
      using m new unfolding Cons by (auto simp: is_list_def)
    have mem: "q \<in> set (f # gs)" unfolding q [symmetric] by (rule last_in_set) simp
    have nx: "nxt h head = f" "prv h head = q"
      using is_list_head_next [OF m] is_list_head_prev [OF m] Cons q by simp_all
    have ne: "f \<noteq> head" "q \<noteq> list" "q \<noteq> head" "head \<noteq> list" using d mem by auto
    define h' where "h' = list_cut_before list head head h"
    have h': "nxt h' = (nxt h)(list := f, q := list, head := head)"
      "prv h' = (prv h)(f := list, list := q, head := head)"
      using nx ne d unfolding h'_def list_cut_before_def Let_def by auto
    have L: "links h f gs head" using m unfolding Cons is_list_def by auto
    have "links h' f gs list"
      by (rule links_retarget [OF L d(1) q]; use d mem in \<open>auto simp: h'\<close>)
    then show ?thesis
      using d mem unfolding h'_def [symmetric] Cons is_list_def by (auto simp: h')
  qed
  then show "is_list (list_cut_before list head head h) list xs"
    "is_list (list_cut_before list head head h) head []" by blast+
qed

end
