(* ===== verification/List_Traversal.thy ===== *)
theory List_Traversal
  imports List_Head
begin

text \<open>
  The loops of \<open>src/src/list.h\<close>. Each \<open>for\<close> header becomes a loop over a state from which the
  links can be read (\<open>links_of\<close>), with a body that may change the state or fail; \<open>None\<close> also
  stands for a loop that never comes back to the head. On a well-formed list every loop
  terminates and runs its body once per entry in list order, so it is a fold; the safe variant
  does so even when the body removes the entry it is given.
\<close>

section \<open>Entries\<close>

definition list_entry :: "ptr \<Rightarrow> size_t \<Rightarrow> ptr" where
  "list_entry p off = container_of p off"

definition list_first_entry :: "ptr \<Rightarrow> size_t \<Rightarrow> list_heap \<Rightarrow> ptr" where
  "list_first_entry p off h = list_entry (nxt h p) off"

definition list_last_entry :: "ptr \<Rightarrow> size_t \<Rightarrow> list_heap \<Rightarrow> ptr" where
  "list_last_entry p off h = list_entry (prv h p) off"

definition list_first_entry_or_null :: "ptr \<Rightarrow> size_t \<Rightarrow> list_heap \<Rightarrow> ptr" where
  "list_first_entry_or_null p off h =
     (let head = p; pos = nxt h head in if pos \<noteq> head then list_entry pos off else NULL)"

definition list_next_entry :: "ptr \<Rightarrow> size_t \<Rightarrow> list_heap \<Rightarrow> ptr" where
  "list_next_entry pos off h = list_entry (nxt h (pos + off)) off"

definition list_prev_entry :: "ptr \<Rightarrow> size_t \<Rightarrow> list_heap \<Rightarrow> ptr" where
  "list_prev_entry pos off h = list_entry (prv h (pos + off)) off"

definition list_entry_is_head :: "ptr \<Rightarrow> ptr \<Rightarrow> size_t \<Rightarrow> bool" where
  "list_entry_is_head pos head off \<longleftrightarrow> pos + off = head"

definition list_prepare_entry :: "ptr \<Rightarrow> ptr \<Rightarrow> size_t \<Rightarrow> ptr" where
  "list_prepare_entry pos head off = (if pos \<noteq> NULL then pos else list_entry head off)"

section \<open>Loops over nodes\<close>

partial_function (option) for_each_loop ::
  "(ptr \<Rightarrow> 's \<Rightarrow> ptr) \<Rightarrow> (ptr \<Rightarrow> 's \<Rightarrow> 's option) \<Rightarrow> ptr \<Rightarrow> ptr \<Rightarrow> 's \<Rightarrow> 's option" where
  "for_each_loop step body head pos s =
     (if pos = head then Some s
      else do { s1 \<leftarrow> body pos s; for_each_loop step body head (step pos s1) s1 })"

partial_function (option) for_each_safe_loop ::
  "(ptr \<Rightarrow> 's \<Rightarrow> ptr) \<Rightarrow> (ptr \<Rightarrow> 's \<Rightarrow> 's option) \<Rightarrow> ptr \<Rightarrow> ptr \<Rightarrow> ptr \<Rightarrow> 's \<Rightarrow> 's option" where
  "for_each_safe_loop step body head pos n s =
     (if pos = head then Some s
      else do { s1 \<leftarrow> body pos s; for_each_safe_loop step body head n (step n s1) s1 })"

definition list_for_each ::
  "('s \<Rightarrow> list_heap) \<Rightarrow> (ptr \<Rightarrow> 's \<Rightarrow> 's option) \<Rightarrow> ptr \<Rightarrow> 's \<Rightarrow> 's option" where
  "list_for_each links_of body head s =
     for_each_loop (\<lambda>p s. nxt (links_of s) p) body head (nxt (links_of s) head) s"

definition list_for_each_continue ::
  "('s \<Rightarrow> list_heap) \<Rightarrow> (ptr \<Rightarrow> 's \<Rightarrow> 's option) \<Rightarrow> ptr \<Rightarrow> ptr \<Rightarrow> 's \<Rightarrow> 's option" where
  "list_for_each_continue links_of body head pos s =
     for_each_loop (\<lambda>p s. nxt (links_of s) p) body head (nxt (links_of s) pos) s"

definition list_for_each_prev ::
  "('s \<Rightarrow> list_heap) \<Rightarrow> (ptr \<Rightarrow> 's \<Rightarrow> 's option) \<Rightarrow> ptr \<Rightarrow> 's \<Rightarrow> 's option" where
  "list_for_each_prev links_of body head s =
     for_each_loop (\<lambda>p s. prv (links_of s) p) body head (prv (links_of s) head) s"

definition list_for_each_safe ::
  "('s \<Rightarrow> list_heap) \<Rightarrow> (ptr \<Rightarrow> 's \<Rightarrow> 's option) \<Rightarrow> ptr \<Rightarrow> 's \<Rightarrow> 's option" where
  "list_for_each_safe links_of body head s =
     (let pos = nxt (links_of s) head
      in for_each_safe_loop (\<lambda>p s. nxt (links_of s) p) body head pos (nxt (links_of s) pos) s)"

definition list_for_each_prev_safe ::
  "('s \<Rightarrow> list_heap) \<Rightarrow> (ptr \<Rightarrow> 's \<Rightarrow> 's option) \<Rightarrow> ptr \<Rightarrow> 's \<Rightarrow> 's option" where
  "list_for_each_prev_safe links_of body head s =
     (let pos = prv (links_of s) head
      in for_each_safe_loop (\<lambda>p s. prv (links_of s) p) body head pos (prv (links_of s) pos) s)"

section \<open>Loops over entries\<close>

partial_function (option) entry_loop ::
  "(ptr \<Rightarrow> 's \<Rightarrow> ptr) \<Rightarrow> (ptr \<Rightarrow> 's \<Rightarrow> 's option) \<Rightarrow> ptr \<Rightarrow> size_t \<Rightarrow> ptr \<Rightarrow> 's \<Rightarrow> 's option" where
  "entry_loop step body head off pos s =
     (if list_entry_is_head pos head off then Some s
      else do { s1 \<leftarrow> body pos s; entry_loop step body head off (step pos s1) s1 })"

definition list_for_each_entry ::
  "('s \<Rightarrow> list_heap) \<Rightarrow> (ptr \<Rightarrow> 's \<Rightarrow> 's option) \<Rightarrow> ptr \<Rightarrow> size_t \<Rightarrow> 's \<Rightarrow> 's option" where
  "list_for_each_entry links_of body head off s =
     entry_loop (\<lambda>e s. list_next_entry e off (links_of s)) body head off
       (list_first_entry head off (links_of s)) s"

definition list_for_each_entry_reverse ::
  "('s \<Rightarrow> list_heap) \<Rightarrow> (ptr \<Rightarrow> 's \<Rightarrow> 's option) \<Rightarrow> ptr \<Rightarrow> size_t \<Rightarrow> 's \<Rightarrow> 's option" where
  "list_for_each_entry_reverse links_of body head off s =
     entry_loop (\<lambda>e s. list_prev_entry e off (links_of s)) body head off
       (list_last_entry head off (links_of s)) s"

definition list_for_each_entry_continue ::
  "('s \<Rightarrow> list_heap) \<Rightarrow> (ptr \<Rightarrow> 's \<Rightarrow> 's option) \<Rightarrow> ptr \<Rightarrow> size_t \<Rightarrow> ptr \<Rightarrow> 's \<Rightarrow> 's option" where
  "list_for_each_entry_continue links_of body head off pos s =
     entry_loop (\<lambda>e s. list_next_entry e off (links_of s)) body head off
       (list_next_entry pos off (links_of s)) s"

definition list_for_each_entry_continue_reverse ::
  "('s \<Rightarrow> list_heap) \<Rightarrow> (ptr \<Rightarrow> 's \<Rightarrow> 's option) \<Rightarrow> ptr \<Rightarrow> size_t \<Rightarrow> ptr \<Rightarrow> 's \<Rightarrow> 's option" where
  "list_for_each_entry_continue_reverse links_of body head off pos s =
     entry_loop (\<lambda>e s. list_prev_entry e off (links_of s)) body head off
       (list_prev_entry pos off (links_of s)) s"

definition list_for_each_entry_from ::
  "('s \<Rightarrow> list_heap) \<Rightarrow> (ptr \<Rightarrow> 's \<Rightarrow> 's option) \<Rightarrow> ptr \<Rightarrow> size_t \<Rightarrow> ptr \<Rightarrow> 's \<Rightarrow> 's option" where
  "list_for_each_entry_from links_of body head off pos s =
     entry_loop (\<lambda>e s. list_next_entry e off (links_of s)) body head off pos s"

definition list_for_each_entry_from_reverse ::
  "('s \<Rightarrow> list_heap) \<Rightarrow> (ptr \<Rightarrow> 's \<Rightarrow> 's option) \<Rightarrow> ptr \<Rightarrow> size_t \<Rightarrow> ptr \<Rightarrow> 's \<Rightarrow> 's option" where
  "list_for_each_entry_from_reverse links_of body head off pos s =
     entry_loop (\<lambda>e s. list_prev_entry e off (links_of s)) body head off pos s"

text \<open>The safe forms keep the next entry before the body runs, and step from it afterwards.\<close>

partial_function (option) entry_safe_loop ::
  "(ptr \<Rightarrow> 's \<Rightarrow> ptr) \<Rightarrow> (ptr \<Rightarrow> 's \<Rightarrow> 's option) \<Rightarrow> ptr \<Rightarrow> size_t \<Rightarrow> ptr \<Rightarrow> ptr \<Rightarrow> 's \<Rightarrow> 's option" where
  "entry_safe_loop step body head off pos n s =
     (if list_entry_is_head pos head off then Some s
      else do { s1 \<leftarrow> body pos s; entry_safe_loop step body head off n (step n s1) s1 })"

definition list_for_each_entry_safe ::
  "('s \<Rightarrow> list_heap) \<Rightarrow> (ptr \<Rightarrow> 's \<Rightarrow> 's option) \<Rightarrow> ptr \<Rightarrow> size_t \<Rightarrow> 's \<Rightarrow> 's option" where
  "list_for_each_entry_safe links_of body head off s =
     (let pos = list_first_entry head off (links_of s)
      in entry_safe_loop (\<lambda>e s. list_next_entry e off (links_of s)) body head off pos
           (list_next_entry pos off (links_of s)) s)"

definition list_for_each_entry_safe_continue ::
  "('s \<Rightarrow> list_heap) \<Rightarrow> (ptr \<Rightarrow> 's \<Rightarrow> 's option) \<Rightarrow> ptr \<Rightarrow> size_t \<Rightarrow> ptr \<Rightarrow> 's \<Rightarrow> 's option" where
  "list_for_each_entry_safe_continue links_of body head off pos s =
     (let pos1 = list_next_entry pos off (links_of s)
      in entry_safe_loop (\<lambda>e s. list_next_entry e off (links_of s)) body head off pos1
           (list_next_entry pos1 off (links_of s)) s)"

definition list_for_each_entry_safe_from ::
  "('s \<Rightarrow> list_heap) \<Rightarrow> (ptr \<Rightarrow> 's \<Rightarrow> 's option) \<Rightarrow> ptr \<Rightarrow> size_t \<Rightarrow> ptr \<Rightarrow> 's \<Rightarrow> 's option" where
  "list_for_each_entry_safe_from links_of body head off pos s =
     entry_safe_loop (\<lambda>e s. list_next_entry e off (links_of s)) body head off pos
       (list_next_entry pos off (links_of s)) s"

definition list_for_each_entry_safe_reverse ::
  "('s \<Rightarrow> list_heap) \<Rightarrow> (ptr \<Rightarrow> 's \<Rightarrow> 's option) \<Rightarrow> ptr \<Rightarrow> size_t \<Rightarrow> 's \<Rightarrow> 's option" where
  "list_for_each_entry_safe_reverse links_of body head off s =
     (let pos = list_last_entry head off (links_of s)
      in entry_safe_loop (\<lambda>e s. list_prev_entry e off (links_of s)) body head off pos
           (list_prev_entry pos off (links_of s)) s)"

definition list_safe_reset_next :: "ptr \<Rightarrow> size_t \<Rightarrow> list_heap \<Rightarrow> ptr" where
  "list_safe_reset_next pos off h = list_next_entry pos off h"

section \<open>Loops are folds\<close>

text \<open>The nodes a step function visits from a position until it meets the head.\<close>

primrec chain :: "(ptr \<Rightarrow> ptr) \<Rightarrow> ptr \<Rightarrow> ptr list \<Rightarrow> ptr \<Rightarrow> bool" where
  "chain step pos [] stop \<longleftrightarrow> pos = stop"
| "chain step pos (x # xs) stop \<longleftrightarrow> pos = x \<and> chain step (step x) xs stop"

lemma links_chain: "links h a xs b \<Longrightarrow> chain (nxt h) (nxt h a) xs b"
  by (induction xs arbitrary: a) auto

lemma chain_append:
  "chain step pos (xs @ [y]) z \<longleftrightarrow> chain step pos xs y \<and> step y = z"
  by (induction xs arbitrary: pos) auto

lemma links_chain_prev: "links h a xs b \<Longrightarrow> chain (prv h) (prv h b) (rev xs) a"
  by (induction xs arbitrary: a) (auto simp: chain_append)

lemma is_list_chain:
  assumes "is_list h head xs"
  shows "chain (nxt h) (nxt h head) xs head" "chain (prv h) (prv h head) (rev xs) head" "head \<notin> set xs"
  using assms links_chain links_chain_prev by (auto simp: is_list_def)

lemma for_each_loop_fold:
  assumes "chain (\<lambda>p. step p s) pos xs head" "head \<notin> set xs"
    and "\<And>x s s'. x \<in> set xs \<Longrightarrow> body x s = Some s' \<Longrightarrow> (\<lambda>p. step p s') = (\<lambda>p. step p s)"
  shows "for_each_loop step body head pos s = fold_opt body xs s"
  using assms
proof (induction xs arbitrary: pos s)
  case Nil
  then show ?case by (simp add: for_each_loop.simps)
next
  case (Cons x xs)
  have "for_each_loop step body head (step x s1) s1 = fold_opt body xs s1" if "body x s = Some s1" for s1
  proof (rule Cons.IH)
    have "(\<lambda>p. step p s1) = (\<lambda>p. step p s)"
      by (rule Cons.prems(3) [OF _ that]) simp
    then show "chain (\<lambda>p. step p s1) (step x s1) xs head"
      using Cons.prems(1) by (simp add: fun_eq_iff)
  qed (use Cons.prems in auto)
  then show ?case
    using Cons.prems by (subst for_each_loop.simps) (auto split: Option.bind_splits)
qed

text \<open>A body that leaves the links alone runs once per entry, in the direction of the loop.\<close>

lemma list_for_each_fold:
  assumes "is_list (links_of s) head xs"
    and "\<And>x s s'. x \<in> set xs \<Longrightarrow> body x s = Some s' \<Longrightarrow> links_of s' = links_of s"
  shows "list_for_each links_of body head s = fold_opt body xs s"
    and "list_for_each_prev links_of body head s = fold_opt body (rev xs) s"
  unfolding list_for_each_def list_for_each_prev_def
  by (intro for_each_loop_fold; use is_list_chain [OF assms(1)] assms(2) in fastforce)+

lemma list_for_each_continue_fold:
  assumes "is_list (links_of s) head (xs @ e # ys)"
    and "\<And>x s s'. x \<in> set ys \<Longrightarrow> body x s = Some s' \<Longrightarrow> links_of s' = links_of s"
  shows "list_for_each_continue links_of body head e s = fold_opt body ys s"
  unfolding list_for_each_continue_def
proof (intro for_each_loop_fold)
  have "links (links_of s) e ys head" using assms(1) by (simp add: is_list_def)
  then show "chain (nxt (links_of s)) (nxt (links_of s) e) ys head" by (rule links_chain)
qed (use assms in \<open>auto simp: is_list_def\<close>)

lemma entry_loop_fold:
  assumes "chain (\<lambda>p. step (container_of p off) s + off) (pos + off) xs head" "head \<notin> set xs"
    and "\<And>x s s'. x \<in> set xs \<Longrightarrow> body (container_of x off) s = Some s' \<Longrightarrow>
           (\<lambda>e. step e s') = (\<lambda>e. step e s)"
  shows "entry_loop step body head off pos s = fold_opt body (map (\<lambda>p. container_of p off) xs) s"
  using assms
proof (induction xs arbitrary: pos s)
  case Nil
  then show ?case by (simp add: entry_loop.simps list_entry_is_head_def)
next
  case (Cons x xs)
  have x: "pos = container_of x off" "pos + off \<noteq> head"
    using Cons.prems by (auto simp: container_of_def)
  have "entry_loop step body head off (step pos s1) s1 =
      fold_opt body (map (\<lambda>p. container_of p off) xs) s1" if "body pos s = Some s1" for s1
  proof (rule Cons.IH)
    have "(\<lambda>e. step e s1) = (\<lambda>e. step e s)"
      using that unfolding x(1) by (rule Cons.prems(3) [rotated]) simp
    then show "chain (\<lambda>p. step (container_of p off) s1 + off) (step pos s1 + off) xs head"
      using Cons.prems(1) x(1) by (simp add: fun_eq_iff)
  qed (use Cons.prems in auto)
  then show ?case
    using x by (subst entry_loop.simps) (auto simp: list_entry_is_head_def split: Option.bind_splits)
qed

lemma list_for_each_entry_fold:
  assumes "is_list (links_of s) head xs"
    and "\<And>x s s'. x \<in> set xs \<Longrightarrow> body (container_of x off) s = Some s' \<Longrightarrow> links_of s' = links_of s"
  shows "list_for_each_entry links_of body head off s =
      fold_opt body (map (\<lambda>p. container_of p off) xs) s"
    and "list_for_each_entry_reverse links_of body head off s =
      fold_opt body (map (\<lambda>p. container_of p off) (rev xs)) s"
  unfolding list_for_each_entry_def list_for_each_entry_reverse_def
  by (intro entry_loop_fold;
      use is_list_chain [OF assms(1)] assms(2) in
        \<open>fastforce simp: list_next_entry_def list_prev_entry_def list_first_entry_def
          list_last_entry_def list_entry_def container_of_def\<close>)+

lemma list_for_each_entry_from_fold:
  assumes "is_list (links_of s) head (xs @ e # ys)"
    and "\<And>x s s'. x \<in> set (e # ys) \<Longrightarrow> body (container_of x off) s = Some s' \<Longrightarrow>
           links_of s' = links_of s"
  shows "list_for_each_entry_from links_of body head off (container_of e off) s =
      fold_opt body (map (\<lambda>p. container_of p off) (e # ys)) s"
    and "list_for_each_entry_continue links_of body head off (container_of e off) s =
      fold_opt body (map (\<lambda>p. container_of p off) ys) s"
proof -
  have "links (links_of s) e ys head" using assms(1) by (simp add: is_list_def)
  then have c: "chain (nxt (links_of s)) (nxt (links_of s) e) ys head" by (rule links_chain)
  have nh: "head \<notin> set (e # ys)" using assms(1) by (auto simp: is_list_def)
  show "list_for_each_entry_from links_of body head off (container_of e off) s =
      fold_opt body (map (\<lambda>p. container_of p off) (e # ys)) s"
    unfolding list_for_each_entry_from_def
    by (intro entry_loop_fold;
        use c nh assms(2) in \<open>fastforce simp: list_next_entry_def list_entry_def container_of_def\<close>)
  show "list_for_each_entry_continue links_of body head off (container_of e off) s =
      fold_opt body (map (\<lambda>p. container_of p off) ys) s"
    unfolding list_for_each_entry_continue_def
    by (intro entry_loop_fold;
        use c nh assms(2) in \<open>fastforce simp: list_next_entry_def list_entry_def container_of_def\<close>)
qed

section \<open>Removal while iterating\<close>

text \<open>
  The safe loop reads the successor before it runs the body, so a body that removes its entry
  drains the list: it runs once for every entry, and nothing is left.
\<close>

lemma for_each_safe_loop_fold:
  assumes "P s xs"
    and walk: "\<And>s x ys. P s (x # ys) \<Longrightarrow> x \<noteq> head \<and> step x s = hd (ys @ [head])"
    and body: "\<And>s x ys s'. P s (x # ys) \<Longrightarrow> body x s = Some s' \<Longrightarrow> P s' ys"
  shows "for_each_safe_loop step body head (hd (xs @ [head])) (step (hd (xs @ [head])) s) s = fold_opt body xs s"
    and "fold_opt body xs s = Some t \<Longrightarrow> P t []"
proof -
  show "for_each_safe_loop step body head (hd (xs @ [head])) (step (hd (xs @ [head])) s) s = fold_opt body xs s"
    using assms(1)
  proof (induction xs arbitrary: s)
    case Nil
    then show ?case by (simp add: for_each_safe_loop.simps)
  next
    case (Cons x ys)
    have "for_each_safe_loop step body head (hd (ys @ [head])) (step (hd (ys @ [head])) s1) s1 =
        fold_opt body ys s1" if "body x s = Some s1" for s1
      by (rule Cons.IH) (rule body [OF Cons.prems that])
    then show ?case
      using walk [OF Cons.prems] by (subst for_each_safe_loop.simps) (auto split: Option.bind_splits)
  qed
  show "P t []" if "fold_opt body xs s = Some t"
    using assms(1) that
  proof (induction xs arbitrary: s)
    case (Cons x ys)
    then obtain s1 where "body x s = Some s1" "fold_opt body ys s1 = Some t"
      by (auto simp: bind_eq_Some_conv)
    then show ?case using Cons.IH body Cons.prems(1) by blast
  qed simp
qed

lemma is_list_step:
  assumes "is_list h head (ws @ x # ys)"
  shows "x \<noteq> head" "nxt h x = hd (ys @ [head])"
  using assms is_list_next [OF assms] by (auto simp: is_list_def)

lemma for_each_safe_loop_drains:
  assumes "is_list (links_of s) head xs"
    and step: "\<And>x ys s s'. is_list (links_of s) head (x # ys) \<Longrightarrow> body x s = Some s' \<Longrightarrow>
           is_list (links_of s') head ys"
  shows "list_for_each_safe links_of body head s = fold_opt body xs s"
    and "fold_opt body xs s = Some t \<Longrightarrow> is_list (links_of t) head []"
proof -
  have walk: "x \<noteq> head \<and> nxt (links_of s) x = hd (ys @ [head])" if "is_list (links_of s) head (x # ys)" for s x ys
    using is_list_step [of "links_of s" head "[]" x ys] that by simp
  note fold = for_each_safe_loop_fold [where P = "\<lambda>s. is_list (links_of s) head" and head = head and
      step = "\<lambda>p s. nxt (links_of s) p" and body = body, OF assms(1) walk step]
  show "list_for_each_safe links_of body head s = fold_opt body xs s"
    using fold(1) is_list_head_next [OF assms(1)] by (simp add: list_for_each_safe_def Let_def)
  show "fold_opt body xs s = Some t \<Longrightarrow> is_list (links_of t) head []" by (rule fold(2))
qed

text \<open>The same for entries: the loop visits the entries of the nodes that are ahead of it.\<close>

lemma entry_safe_loop_fold:
  assumes "P s xs"
    and walk: "\<And>s x ys. P s (x # ys) \<Longrightarrow> x \<noteq> head \<and> step (container_of x off) s = container_of (hd (ys @ [head])) off"
    and body: "\<And>s x ys s'. P s (x # ys) \<Longrightarrow> body (container_of x off) s = Some s' \<Longrightarrow> P s' ys"
  shows "entry_safe_loop step body head off (container_of (hd (xs @ [head])) off)
      (step (container_of (hd (xs @ [head])) off) s) s = fold_opt body (map (\<lambda>p. container_of p off) xs) s"
    and "fold_opt body (map (\<lambda>p. container_of p off) xs) s = Some t \<Longrightarrow> P t []"
proof -
  show "entry_safe_loop step body head off (container_of (hd (xs @ [head])) off)
      (step (container_of (hd (xs @ [head])) off) s) s = fold_opt body (map (\<lambda>p. container_of p off) xs) s"
    using assms(1)
  proof (induction xs arbitrary: s)
    case Nil
    then show ?case by (simp add: entry_safe_loop.simps list_entry_is_head_def container_of_def)
  next
    case (Cons x ys)
    let ?next = "container_of (hd (ys @ [head])) off"
    have "entry_safe_loop step body head off ?next (step ?next s1) s1 =
        fold_opt body (map (\<lambda>p. container_of p off) ys) s1" if "body (container_of x off) s = Some s1" for s1
      by (rule Cons.IH) (rule body [OF Cons.prems that])
    then show ?case
      using walk [OF Cons.prems]
      by (subst entry_safe_loop.simps)
        (auto simp: list_entry_is_head_def container_of_def split: Option.bind_splits)
  qed
  show "P t []" if "fold_opt body (map (\<lambda>p. container_of p off) xs) s = Some t"
    using assms(1) that
  proof (induction xs arbitrary: s)
    case (Cons x ys)
    then obtain s1 where "body (container_of x off) s = Some s1"
        "fold_opt body (map (\<lambda>p. container_of p off) ys) s1 = Some t"
      by (auto simp: bind_eq_Some_conv)
    then show ?case using Cons.IH body Cons.prems(1) by blast
  qed simp
qed

lemma is_list_step_back:
  assumes "is_list h head (rev (x # ys))"
  shows "x \<noteq> head" "prv h x = hd (ys @ [head])"
proof -
  have "is_list h head (rev ys @ [x])" using assms by simp
  from is_list_prev [of h head "rev ys" x "[]"] this
  show "x \<noteq> head" "prv h x = hd (ys @ [head])" by (auto simp: is_list_def last_rev hd_append)
qed

text \<open>A body that unlinks its entry: what lies ahead is gone afterwards, the rest is as it was.\<close>

definition unlinks :: "('s \<Rightarrow> list_heap) \<Rightarrow> (ptr \<Rightarrow> 's \<Rightarrow> 's option) \<Rightarrow> ptr \<Rightarrow> size_t \<Rightarrow> bool" where
  "unlinks links_of body head off \<longleftrightarrow>
     (\<forall>ws x ys s s'. is_list (links_of s) head (ws @ x # ys) \<longrightarrow> body (container_of x off) s = Some s' \<longrightarrow>
        is_list (links_of s') head (ws @ ys))"

lemma list_for_each_entry_safe_from_removes:
  assumes "is_list (links_of s) head (ws @ xs)" "unlinks links_of body head off"
  shows "entry_safe_loop (\<lambda>e s. list_next_entry e off (links_of s)) body head off
      (container_of (hd (xs @ [head])) off)
      (list_next_entry (container_of (hd (xs @ [head])) off) off (links_of s)) s =
      fold_opt body (map (\<lambda>p. container_of p off) xs) s"
    and "fold_opt body (map (\<lambda>p. container_of p off) xs) s = Some t \<Longrightarrow> is_list (links_of t) head ws"
proof -
  have walk: "x \<noteq> head \<and> list_next_entry (container_of x off) off (links_of s) = container_of (hd (ys @ [head])) off"
    if "is_list (links_of s) head (ws @ x # ys)" for s x ys
    using is_list_step [OF that] by (simp add: list_next_entry_def list_entry_def container_of_def)
  have body: "is_list (links_of s') head (ws @ ys)"
    if "is_list (links_of s) head (ws @ x # ys)" "body (container_of x off) s = Some s'" for s x ys s'
    using assms(2) that unfolding unlinks_def by blast
  note fold = entry_safe_loop_fold [where P = "\<lambda>s xs. is_list (links_of s) head (ws @ xs)" and head = head and off = off and
      step = "\<lambda>e s. list_next_entry e off (links_of s)" and body = body, OF assms(1) walk body]
  show "entry_safe_loop (\<lambda>e s. list_next_entry e off (links_of s)) body head off
      (container_of (hd (xs @ [head])) off)
      (list_next_entry (container_of (hd (xs @ [head])) off) off (links_of s)) s =
      fold_opt body (map (\<lambda>p. container_of p off) xs) s"
    using fold(1) by simp
  show "fold_opt body (map (\<lambda>p. container_of p off) xs) s = Some t \<Longrightarrow> is_list (links_of t) head ws"
    using fold(2) by simp
qed

lemma list_for_each_entry_safe_reverse_removes:
  assumes "is_list (links_of s) head xs" "unlinks links_of body head off"
  shows "list_for_each_entry_safe_reverse links_of body head off s =
      fold_opt body (map (\<lambda>p. container_of p off) (rev xs)) s"
    and "fold_opt body (map (\<lambda>p. container_of p off) (rev xs)) s = Some t \<Longrightarrow> is_list (links_of t) head []"
proof -
  have walk: "x \<noteq> head \<and> list_prev_entry (container_of x off) off (links_of s) = container_of (hd (ys @ [head])) off"
    if "is_list (links_of s) head (rev (x # ys))" for s x ys
    using is_list_step_back [OF that] by (simp add: list_prev_entry_def list_entry_def container_of_def)
  have body: "is_list (links_of s') head (rev ys)"
    if "is_list (links_of s) head (rev (x # ys))" "body (container_of x off) s = Some s'" for s x ys s'
    using assms(2) that unfolding unlinks_def by (metis append_Nil2 rev.simps(2))
  have "is_list (links_of s) head (rev (rev xs))" using assms(1) by simp
  note fold = entry_safe_loop_fold [where P = "\<lambda>s xs. is_list (links_of s) head (rev xs)" and head = head and off = off and
      step = "\<lambda>e s. list_prev_entry e off (links_of s)" and body = body, OF this walk body]
  have "prv (links_of s) head = hd (rev xs @ [head])"
    using is_list_chain(2) [OF assms(1)] by (cases "rev xs") simp_all
  then show "list_for_each_entry_safe_reverse links_of body head off s =
      fold_opt body (map (\<lambda>p. container_of p off) (rev xs)) s"
    using fold(1) by (simp add: list_for_each_entry_safe_reverse_def list_last_entry_def list_entry_def Let_def)
  show "fold_opt body (map (\<lambda>p. container_of p off) (rev xs)) s = Some t \<Longrightarrow> is_list (links_of t) head []"
    using fold(2) by simp
qed

text \<open>The teardown loop of the library: delete every entry.\<close>

lemma list_drain:
  assumes "is_list h head xs"
  shows "\<exists>h'. list_for_each_safe id (\<lambda>p h. Some (list_del p h)) head h = Some h' \<and>
    is_list h' head [] \<and> list_empty head h'"
proof -
  have step: "is_list (id s') head ys"
    if "is_list (id s) head (x # ys)" "Some (list_del x s) = Some s'" for x ys and s s' :: list_heap
    using that is_list_del(1) [of s head "[]" x ys] by auto
  have "list_for_each_safe id (\<lambda>p h. Some (list_del p h)) head h =
      fold_opt (\<lambda>p h. Some (list_del p h)) xs h"
    by (rule for_each_safe_loop_drains(1) [OF _ step]) (use assms in simp_all)
  moreover have "is_list (id (fold list_del xs h)) head []"
    by (rule for_each_safe_loop_drains(2) [where s = h and xs = xs and
        body = "\<lambda>p h. Some (list_del p h)", OF _ step])
      (use assms in \<open>simp_all add: fold_opt_total\<close>)
  ultimately show ?thesis
    by (auto simp: fold_opt_total list_empty_iff)
qed

section \<open>The list as a queue\<close>

text \<open>
  What the transformer uses of the lists: an empty list, insertion at the tail, removal and the
  emptiness test, each as its effect on the sequence of nodes.
\<close>

locale node_queue =
  fixes repr :: "'h \<Rightarrow> ptr \<Rightarrow> ptr list \<Rightarrow> bool"
    and reset :: "ptr \<Rightarrow> 'h \<Rightarrow> 'h"
    and push_back :: "ptr \<Rightarrow> ptr \<Rightarrow> 'h \<Rightarrow> 'h"
    and unlink :: "ptr \<Rightarrow> 'h \<Rightarrow> 'h"
    and is_nil :: "ptr \<Rightarrow> 'h \<Rightarrow> bool"
  assumes repr_distinct: "repr h q xs \<Longrightarrow> distinct (q # xs)"
    and repr_reset: "repr (reset q h) q []"
    and repr_push_back: "repr h q xs \<Longrightarrow> n \<notin> set (q # xs) \<Longrightarrow> repr (push_back n q h) q (xs @ [n])"
    and repr_unlink: "repr h q (xs @ n # ys) \<Longrightarrow> repr (unlink n h) q (xs @ ys)"
    and is_nil_iff: "repr h q xs \<Longrightarrow> is_nil q h \<longleftrightarrow> xs = []"
begin

lemma push_back_all:
  "repr h q xs \<Longrightarrow> distinct (q # xs @ ns) \<Longrightarrow> repr (fold (\<lambda>n. push_back n q) ns h) q (xs @ ns)"
proof (induction ns arbitrary: h xs)
  case Nil
  then show ?case by simp
next
  case (Cons n ns)
  have "repr (push_back n q h) q (xs @ [n])"
    using Cons.prems by (intro repr_push_back) auto
  then show ?case
    using Cons.IH [of "push_back n q h" "xs @ [n]"] Cons.prems(2) by simp
qed

text \<open>Nodes appended to a fresh list come out in the order they went in.\<close>

lemma build: "distinct (q # ns) \<Longrightarrow> repr (fold (\<lambda>n. push_back n q) ns (reset q h)) q ns"
  using push_back_all [OF repr_reset, of q ns h] by simp

lemma unlink_all: "repr h q (xs @ ns) \<Longrightarrow> repr (fold unlink ns h) q xs"
proof (induction ns arbitrary: h)
  case Nil
  then show ?case by simp
next
  case (Cons n ns)
  then show ?case using repr_unlink [of h q xs n ns] by simp
qed

lemma teardown:
  assumes "repr h q ns"
  shows "repr (fold unlink ns h) q []" "is_nil q (fold unlink ns h)"
  using unlink_all [of h q "[]" ns] assms is_nil_iff by simp_all

lemma not_nil_after_push: "repr h q xs \<Longrightarrow> n \<notin> set (q # xs) \<Longrightarrow> \<not> is_nil q (push_back n q h)"
  using repr_push_back [of h q xs n] is_nil_iff by blast

end

locale node_deque = node_queue repr reset push_back unlink is_nil
  for repr :: "'h \<Rightarrow> ptr \<Rightarrow> ptr list \<Rightarrow> bool" and reset push_back unlink is_nil +
  fixes push_front :: "ptr \<Rightarrow> ptr \<Rightarrow> 'h \<Rightarrow> 'h"
  assumes repr_push_front: "repr h q xs \<Longrightarrow> n \<notin> set (q # xs) \<Longrightarrow> repr (push_front n q h) q (n # xs)"
begin

lemma push_front_all:
  "repr h q xs \<Longrightarrow> distinct (q # xs @ ns) \<Longrightarrow> repr (fold (\<lambda>n. push_front n q) ns h) q (rev ns @ xs)"
proof (induction ns arbitrary: h xs)
  case Nil
  then show ?case by simp
next
  case (Cons n ns)
  have "repr (push_front n q h) q (n # xs)"
    using Cons.prems by (intro repr_push_front) auto
  then show ?case
    using Cons.IH [of "push_front n q h" "n # xs"] Cons.prems(2) by auto
qed

end

interpretation lh: node_deque is_list INIT_LIST_HEAD list_add_tail list_del list_empty list_add
  by unfold_locales
    (auto simp: list_empty_iff is_list_INIT intro: is_list_add is_list_add_tail is_list_del,
     auto simp: is_list_def)

end
