(* ===== verification/List_Properties.thy ===== *)
theory List_Properties
  imports List_Traversal
begin

text \<open>
  The contract of \<open>list.h\<close>, stated operation by operation on the sequence of nodes, and of the
  traversals that the transformer uses. Each property is applied to a small concrete list.
\<close>

definition blank_heap :: list_heap where
  "blank_heap = \<lparr>nxt = (\<lambda>_. NULL), prv = (\<lambda>_. NULL)\<rparr>"

text \<open>A list at address \<open>q\<close> with the nodes \<open>ns\<close>, in a given heap.\<close>

definition list_of :: "ptr \<Rightarrow> ptr list \<Rightarrow> list_heap \<Rightarrow> list_heap" where
  "list_of q ns h = fold (\<lambda>n. list_add_tail n q) ns (INIT_LIST_HEAD q h)"

lemma is_list_of: "distinct (q # ns) \<Longrightarrow> is_list (list_of q ns h) q ns"
  unfolding list_of_def by (rule lh.build)

lemma list_of_snoc: "list_of q (ns @ [n]) h = list_add_tail n q (list_of q ns h)"
  by (simp add: list_of_def)

lemma list_of_changes: "distinct (q # ns) \<Longrightarrow> changes_only (set (q # ns)) h (list_of q ns h)"
proof (induction ns rule: rev_induct)
  case Nil
  then show ?case by (simp add: list_of_def INIT_LIST_HEAD_def changes_only_def)
next
  case (snoc n ns)
  then have "changes_only (set (n # q # ns)) (list_of q ns h) (list_of q (ns @ [n]) h)"
    unfolding list_of_snoc by (intro list_add_tail_changes is_list_of) simp
  with snoc have "changes_only (set (q # ns) \<union> set (n # q # ns)) h (list_of q (ns @ [n]) h)"
    by (intro changes_only_trans) auto
  then show ?case by (rule changes_only_mono) auto
qed

text \<open>Two disjoint lists in one heap.\<close>

definition two_lists :: "ptr \<Rightarrow> ptr list \<Rightarrow> ptr \<Rightarrow> ptr list \<Rightarrow> list_heap" where
  "two_lists q ns p ms = list_of p ms (list_of q ns blank_heap)"

lemma is_list_two:
  assumes "distinct (q # ns @ p # ms)"
  shows "is_list (two_lists q ns p ms) q ns" "is_list (two_lists q ns p ms) p ms"
proof -
  show "is_list (two_lists q ns p ms) p ms"
    unfolding two_lists_def using assms by (intro is_list_of) auto
  have "changes_only (set (p # ms)) (list_of q ns blank_heap) (two_lists q ns p ms)"
    unfolding two_lists_def using assms by (intro list_of_changes) auto
  from is_list_frame [OF this, of q ns] show "is_list (two_lists q ns p ms) q ns"
    using assms is_list_of [of q ns blank_heap] by auto
qed

abbreviation list_123 :: list_heap where
  "list_123 \<equiv> list_of 0x10 [0x20, 0x30, 0x40] blank_heap"

section \<open>Insertion and removal\<close>

text \<open>
  C32. \<open>list_add\<close> links a new node right after the given one and \<open>list_add_tail\<close> right before it;
  given the list head, these are the front and the back of the list. All other nodes keep their
  order and both directions of links agree.
\<close>

theorem list_insertion:
  assumes "is_list h head (xs @ e # ys)" "new \<notin> set (head # xs @ e # ys)"
  shows "is_list (list_add new e h) head (xs @ e # new # ys) \<and>
    is_list (list_add_tail new e h) head (xs @ new # e # ys) \<and>
    is_list (list_add new head h) head (new # xs @ e # ys) \<and>
    is_list (list_add_tail new head h) head (xs @ e # ys @ [new])"
  using assms is_list_add_after is_list_add_before is_list_add [OF assms] is_list_add_tail [OF assms]
  by simp

theorem list_insertion_witness:
  "is_list (list_add 0x50 0x30 list_123) 0x10 [0x20, 0x30, 0x50, 0x40]"
  using list_insertion [of list_123 "0x10" "[0x20]" "0x30" "[0x40]" "0x50"]
    is_list_of [of "0x10" "[0x20, 0x30, 0x40]"] by simp

text \<open>
  C33. \<open>list_del\<close> takes exactly one node out of the list and poisons its links; \<open>list_del_init\<close> takes
  it out and leaves it as an empty list of its own; \<open>list_del_clearprev\<close> clears its back link.
\<close>

theorem list_removal:
  assumes "is_list h head (xs @ e # ys)"
  shows "is_list (list_del e h) head (xs @ ys) \<and>
    nxt (list_del e h) e = LIST_POISON1 \<and> prv (list_del e h) e = LIST_POISON2 \<and>
    is_list (list_del_init e h) head (xs @ ys) \<and> is_list (list_del_init e h) e [] \<and>
    is_list (list_del_clearprev e h) head (xs @ ys) \<and> prv (list_del_clearprev e h) e = NULL"
  using is_list_del [OF assms] is_list_del_init [OF assms] is_list_del_clearprev [OF assms] by simp

theorem list_removal_witness: "is_list (list_del 0x30 list_123) 0x10 [0x20, 0x40]"
  using list_removal [of list_123 "0x10" "[0x20]" "0x30" "[0x40]"]
    is_list_of [of "0x10" "[0x20, 0x30, 0x40]"] by simp

text \<open>
  \<open>list_swap\<close> exchanges the places of two nodes of one list, in either order and also when they
  are neighbours.
\<close>

theorem list_swap_exchanges:
  assumes "is_list h head (xs @ a # ys @ b # zs)"
  shows "is_list (list_swap a b h) head (xs @ b # ys @ a # zs) \<and>
    is_list (list_swap b a h) head (xs @ b # ys @ a # zs)"
  using is_list_swap_before [OF assms] is_list_swap_after [OF assms] by simp

theorem list_swap_exchanges_witness:
  "is_list (list_swap 0x20 0x30 list_123) 0x10 [0x30, 0x20, 0x40]"
  using list_swap_exchanges [of list_123 "0x10" "[]" "0x20" "[]" "0x30" "[0x40]"]
    is_list_of [of "0x10" "[0x20, 0x30, 0x40]"] by simp

section \<open>Moving, splicing and cutting\<close>

text \<open>
  \<open>list_move\<close> and \<open>list_move_tail\<close> take a node out of one list and put it at the front or the
  back of another one.
\<close>

theorem list_moving:
  assumes "is_list h head1 (xs @ e # ys)" "is_list h head2 zs"
    and "set (head1 # xs @ e # ys) \<inter> set (head2 # zs) = {}"
  shows "is_list (list_move e head2 h) head1 (xs @ ys) \<and> is_list (list_move e head2 h) head2 (e # zs) \<and>
    is_list (list_move_tail e head2 h) head1 (xs @ ys) \<and>
    is_list (list_move_tail e head2 h) head2 (zs @ [e])"
  using is_list_move_other [OF assms] by simp

theorem list_moving_witness:
  "is_list (list_move 0x20 0x110 (two_lists 0x10 [0x20, 0x30] 0x110 [0x120])) 0x110 [0x20, 0x120]"
  using list_moving [of "two_lists 0x10 [0x20, 0x30] 0x110 [0x120]" "0x10" "[]" "0x20" "[0x30]"
      "0x110" "[0x120]"] is_list_two [of "0x10" "[0x20, 0x30]" "0x110" "[0x120]"] by simp

text \<open>
  \<open>list_bulk_move_tail\<close> moves a whole section of a list, from its first to its last node, to
  the back of the list, also when the section is already there.
\<close>

theorem list_bulk_moving:
  assumes "is_list h head (xs @ bs @ ys)" "bs \<noteq> []"
  shows "is_list (list_bulk_move_tail head (hd bs) (last bs) h) head (xs @ ys @ bs)"
  using assms by (rule is_list_bulk_move_tail)

theorem list_bulk_moving_witness:
  "is_list (list_bulk_move_tail 0x10 0x20 0x30 list_123) 0x10 [0x40, 0x20, 0x30]"
  using list_bulk_moving [of list_123 "0x10" "[]" "[0x20, 0x30]" "[0x40]"]
    is_list_of [of "0x10" "[0x20, 0x30, 0x40]"] by simp

text \<open>
  C34. The splices join a whole list into another one, at its front or its back; the \<open>init\<close> variants
  leave the source an empty list.
\<close>

theorem list_splicing:
  assumes "is_list h list ys" "is_list h head xs" "set (list # ys) \<inter> set (head # xs) = {}"
  shows "is_list (list_splice list head h) head (ys @ xs) \<and>
    is_list (list_splice_tail list head h) head (xs @ ys) \<and>
    is_list (list_splice_init list head h) head (ys @ xs) \<and>
    is_list (list_splice_init list head h) list [] \<and>
    is_list (list_splice_tail_init list head h) head (xs @ ys) \<and>
    is_list (list_splice_tail_init list head h) list []"
  using is_list_splice [OF assms] is_list_splice_init [OF assms] by simp

theorem list_splicing_witness:
  "is_list (list_splice_init 0x110 0x10 (two_lists 0x10 [0x20, 0x30] 0x110 [0x120, 0x130])) 0x10
     [0x120, 0x130, 0x20, 0x30]"
  using list_splicing [of "two_lists 0x10 [0x20, 0x30] 0x110 [0x120, 0x130]" "0x110" "[0x120, 0x130]"
      "0x10" "[0x20, 0x30]"] is_list_two [of "0x10" "[0x20, 0x30]" "0x110" "[0x120, 0x130]"] by simp

text \<open>
  \<open>list_cut_position\<close> moves the entries up to and including the given one to a new list, and
  \<open>list_cut_before\<close> those before it; the rest stays.
\<close>

theorem list_cutting:
  assumes "is_list h head (xs @ e # ys)" "list \<notin> set (head # xs @ e # ys)"
  shows "is_list (list_cut_position list head e h) list (xs @ [e]) \<and>
    is_list (list_cut_position list head e h) head ys \<and>
    is_list (list_cut_before list head e h) list xs \<and>
    is_list (list_cut_before list head e h) head (e # ys)"
  using is_list_cut_position [OF assms] is_list_cut_before [OF assms] by simp

theorem list_cutting_witness:
  "is_list (list_cut_position 0x80 0x10 0x30 list_123) 0x80 [0x20, 0x30]"
  using list_cutting [of list_123 "0x10" "[0x20]" "0x30" "[0x40]" "0x80"]
    is_list_of [of "0x10" "[0x20, 0x30, 0x40]"] by simp

text \<open>
  \<open>list_rotate_left\<close> moves the first entry to the back, and \<open>list_rotate_to_front\<close> rotates the
  list until the given entry is first.
\<close>

theorem list_rotation:
  assumes "is_list h head (xs @ e # ys)"
  shows "is_list (list_rotate_left head h) head (rotate1 (xs @ e # ys)) \<and>
    is_list (list_rotate_to_front e head h) head (e # ys @ xs)"
  using is_list_rotate_left [OF assms] is_list_rotate_to_front [OF assms] by simp

theorem list_rotation_witness:
  "is_list (list_rotate_to_front 0x30 0x10 list_123) 0x10 [0x30, 0x40, 0x20]"
  using list_rotation [of list_123 "0x10" "[0x20]" "0x30" "[0x40]"]
    is_list_of [of "0x10" "[0x20, 0x30, 0x40]"] by simp

section \<open>Traversal\<close>

text \<open>
  \<open>list_for_each_entry\<close> ends and runs its body on every entry, in order and exactly once; the
  reverse form in the opposite order, and \<open>list_for_each_entry_continue\<close> on what follows an entry.
\<close>

theorem list_for_each_entry_visits:
  assumes "is_list h head (xs @ e # ys)"
  shows "list_for_each_entry (\<lambda>_. h) (\<lambda>p s. Some (s @ [p])) head off [] =
      Some (map (\<lambda>p. container_of p off) (xs @ e # ys)) \<and>
    list_for_each_entry_reverse (\<lambda>_. h) (\<lambda>p s. Some (s @ [p])) head off [] =
      Some (map (\<lambda>p. container_of p off) (rev (xs @ e # ys))) \<and>
    list_for_each_entry_continue (\<lambda>_. h) (\<lambda>p s. Some (s @ [p])) head off (container_of e off) [] =
      Some (map (\<lambda>p. container_of p off) ys)"
proof -
  have f: "fold (\<lambda>p s. s @ [p]) zs acc = acc @ zs" for zs acc :: "ptr list"
    by (induction zs arbitrary: acc) simp_all
  show ?thesis
    using list_for_each_entry_fold [of "\<lambda>_. h" "[]" head "xs @ e # ys" "\<lambda>p s. Some (s @ [p])" off]
      list_for_each_entry_from_fold(2) [of "\<lambda>_. h" "[]" head xs e ys "\<lambda>p s. Some (s @ [p])" off] assms
    by (simp add: fold_opt_total f)
qed

theorem list_for_each_entry_visits_witness:
  "list_for_each_entry (\<lambda>_. list_123) (\<lambda>p s. Some (s @ [p])) 0x10 8 [] = Some [0x18, 0x28, 0x38]"
  using list_for_each_entry_visits [of list_123 "0x10" "[]" "0x20" "[0x30, 0x40]" 8]
    is_list_of [of "0x10" "[0x20, 0x30, 0x40]"] by (simp add: container_of_def)

text \<open>
  The deletion-safe loop \<open>list_for_each_safe\<close> ends although its body unlinks the node it is
  given: unlinking every node leaves an empty list.
\<close>

theorem list_for_each_safe_drains:
  assumes "is_list h head xs"
  shows "\<exists>h'. list_for_each_safe id (\<lambda>p h. Some (list_del p h)) head h = Some h' \<and>
    is_list h' head [] \<and> list_empty head h'"
  using assms by (rule list_drain)

theorem list_for_each_safe_drains_witness:
  "\<exists>h'. list_for_each_safe id (\<lambda>p h. Some (list_del p h)) 0x10 list_123 = Some h' \<and> list_empty 0x10 h'"
  using list_for_each_safe_drains [of list_123 "0x10" "[0x20, 0x30, 0x40]"]
    is_list_of [of "0x10" "[0x20, 0x30, 0x40]"] by auto

text \<open>A body that unlinks its entry and notes it down.\<close>

abbreviation remove_entry :: "size_t \<Rightarrow> ptr \<Rightarrow> list_heap \<times> ptr list \<Rightarrow> (list_heap \<times> ptr list) option" where
  "remove_entry off \<equiv> \<lambda>e (h, seen). Some (list_del (e + off) h, seen @ [e])"

lemma remove_entry_unlinks: "unlinks fst (remove_entry off) head off"
  using is_list_del(1) by (fastforce simp: unlinks_def container_of_def)

lemma remove_entry_seen: "\<exists>h'. fold_opt (remove_entry off) es (h, seen) = Some (h', seen @ es)"
proof (induction es arbitrary: h seen)
  case (Cons e es)
  show ?case using Cons.IH [of "list_del (e + off) h" "seen @ [e]"] by simp
qed simp

lemma remove_ahead:
  assumes "is_list h head (ws @ xs)" "pos = container_of (hd (xs @ [head])) off"
  shows "\<exists>h'. entry_safe_loop (\<lambda>e s. list_next_entry e off (fst s)) (remove_entry off) head off pos
      (list_next_entry pos off h) (h, []) = Some (h', map (\<lambda>p. container_of p off) xs) \<and> is_list h' head ws"
  using list_for_each_entry_safe_from_removes [of fst "(h, [])" head ws xs, OF _ remove_entry_unlinks]
    remove_entry_seen [of off "map (\<lambda>p. container_of p off) xs" h "[]"] assms
  by auto

text \<open>
  C35. The deletion-safe loops over entries end although their bodies unlink the entry they are given.
  \<open>list_for_each_entry_safe\<close> runs once on every entry and leaves an empty list; the \<open>from\<close> and
  \<open>continue\<close> forms leave what lies before them; the reverse form goes the other way.
\<close>

theorem list_for_each_entry_safe_removes:
  assumes "is_list h head (xs @ e # ys)"
  shows "(\<exists>h'. list_for_each_entry_safe fst (remove_entry off) head off (h, []) =
      Some (h', map (\<lambda>p. container_of p off) (xs @ e # ys)) \<and> is_list h' head []) \<and>
    (\<exists>h'. list_for_each_entry_safe_from fst (remove_entry off) head off (container_of e off) (h, []) =
      Some (h', map (\<lambda>p. container_of p off) (e # ys)) \<and> is_list h' head xs) \<and>
    (\<exists>h'. list_for_each_entry_safe_continue fst (remove_entry off) head off (container_of e off) (h, []) =
      Some (h', map (\<lambda>p. container_of p off) ys) \<and> is_list h' head (xs @ [e])) \<and>
    (\<exists>h'. list_for_each_entry_safe_reverse fst (remove_entry off) head off (h, []) =
      Some (h', map (\<lambda>p. container_of p off) (rev (xs @ e # ys))) \<and> is_list h' head [])"
proof (intro conjI)
  show "\<exists>h'. list_for_each_entry_safe fst (remove_entry off) head off (h, []) =
      Some (h', map (\<lambda>p. container_of p off) (xs @ e # ys)) \<and> is_list h' head []"
    unfolding list_for_each_entry_safe_def Let_def list_first_entry_def list_entry_def fst_conv
    by (rule remove_ahead) (use assms is_list_head_next [OF assms] in simp_all)
  show "\<exists>h'. list_for_each_entry_safe_from fst (remove_entry off) head off (container_of e off) (h, []) =
      Some (h', map (\<lambda>p. container_of p off) (e # ys)) \<and> is_list h' head xs"
    unfolding list_for_each_entry_safe_from_def fst_conv
    by (rule remove_ahead) (use assms in simp_all)
  show "\<exists>h'. list_for_each_entry_safe_continue fst (remove_entry off) head off (container_of e off) (h, []) =
      Some (h', map (\<lambda>p. container_of p off) ys) \<and> is_list h' head (xs @ [e])"
    unfolding list_for_each_entry_safe_continue_def Let_def fst_conv
    by (rule remove_ahead)
      (use assms is_list_next [OF assms] in \<open>simp_all add: list_next_entry_def list_entry_def container_of_def\<close>)
  show "\<exists>h'. list_for_each_entry_safe_reverse fst (remove_entry off) head off (h, []) =
      Some (h', map (\<lambda>p. container_of p off) (rev (xs @ e # ys))) \<and> is_list h' head []"
    using list_for_each_entry_safe_reverse_removes [of fst "(h, [])" head "xs @ e # ys", OF _ remove_entry_unlinks]
      remove_entry_seen [of off "map (\<lambda>p. container_of p off) (rev (xs @ e # ys))" h "[]"] assms
    by auto
qed

theorem list_for_each_entry_safe_removes_witness:
  "\<exists>h'. list_for_each_entry_safe fst (remove_entry 8) 0x10 8 (list_123, []) = Some (h', [0x18, 0x28, 0x38]) \<and>
     is_list h' 0x10 []"
  using list_for_each_entry_safe_removes [of list_123 "0x10" "[]" "0x20" "[0x30, 0x40]" 8]
    is_list_of [of "0x10" "[0x20, 0x30, 0x40]"] by (simp add: container_of_def)

text \<open>
  Nodes added at the tail of a fresh list come out in the order they went in, and unlinking
  them one by one leaves an empty list.
\<close>

theorem list_queue:
  assumes "distinct (head # ns)"
  shows "is_list (fold (\<lambda>n. list_add_tail n head) ns (INIT_LIST_HEAD head h)) head ns \<and>
    list_empty head (fold list_del ns (fold (\<lambda>n. list_add_tail n head) ns (INIT_LIST_HEAD head h)))"
  using lh.build [OF assms] lh.teardown(2) [OF lh.build [OF assms]] by simp

theorem list_queue_witness:
  "list_empty 0x10 (fold list_del [0x20, 0x30] (fold (\<lambda>n. list_add_tail n 0x10) [0x20, 0x30] (INIT_LIST_HEAD 0x10 blank_heap)))"
  using list_queue [of "0x10" "[0x20, 0x30]" blank_heap] by simp

end
