(* ===== verification/Errno.thy ===== *)
theory Errno
  imports Rave_Prelude
begin

text \<open>
  The error codes of \<open>include/rave/errno.h\<close>: the X-macro enumeration as a datatype with the
  constructors in the order of the expansion, and the value the C enumeration gives each. The
  codes are ordered by value, which makes them a linear order; a status that several calls are
  or-ed into (as \<open>rave_close\<close> does) is a plain \<open>int\<close>.
\<close>

datatype rave_errno =
    RAVE_SUCCESS
  | RAVE_EELF_INIT
  | RAVE_EELF_MEMORY
  | RAVE_EELF_NOT_SUPPORTED
  | RAVE_EELF_HEADER
  | RAVE_EFILE_OPEN
  | RAVE_EFILE_STAT
  | RAVE_EMAPPING
  | RAVE_EFILE_CLOSE
  | RAVE_ESECTION_HEADER
  | RAVE_ENO_SECTION
  | RAVE_ESECTION_DATA
  | RAVE_ENO_SEGMENT
  | RAVE_EPROGRAM_HEADER
  | RAVE_EMAP_FAILED
  | RAVE_ESEG_NOT_LOADABLE
  | RAVE_EDWARF
  | RAVE_ETRANSFORM
  | RAVE_EFATAL
  | RAVE_EINVAL
  | RAVE_ENOMEM

fun errno_code :: "rave_errno \<Rightarrow> c_int" where
  "errno_code RAVE_SUCCESS = 0"
| "errno_code RAVE_EELF_INIT = 1"
| "errno_code RAVE_EELF_MEMORY = 2"
| "errno_code RAVE_EELF_NOT_SUPPORTED = 3"
| "errno_code RAVE_EELF_HEADER = 4"
| "errno_code RAVE_EFILE_OPEN = 5"
| "errno_code RAVE_EFILE_STAT = 6"
| "errno_code RAVE_EMAPPING = 7"
| "errno_code RAVE_EFILE_CLOSE = 8"
| "errno_code RAVE_ESECTION_HEADER = 9"
| "errno_code RAVE_ENO_SECTION = 10"
| "errno_code RAVE_ESECTION_DATA = 11"
| "errno_code RAVE_ENO_SEGMENT = 12"
| "errno_code RAVE_EPROGRAM_HEADER = 13"
| "errno_code RAVE_EMAP_FAILED = 14"
| "errno_code RAVE_ESEG_NOT_LOADABLE = 15"
| "errno_code RAVE_EDWARF = 16"
| "errno_code RAVE_ETRANSFORM = 17"
| "errno_code RAVE_EFATAL = 18"
| "errno_code RAVE_EINVAL = 19"
| "errno_code RAVE_ENOMEM = 20"

lemma errno_code_zero [simp]: "errno_code e = 0 \<longleftrightarrow> e = RAVE_SUCCESS"
  by (cases e) simp_all

lemma errno_code_le: "errno_code e \<le> 20"
  by (cases e) simp_all

lemma errno_code_inj: "errno_code a = errno_code b \<Longrightarrow> a = b"
  by (cases a; cases b) simp_all

lemma errno_code_eq_iff [simp]: "errno_code a = errno_code b \<longleftrightarrow> a = b"
  by (auto dest: errno_code_inj)

text \<open>The enumeration is ordered by its values.\<close>

instantiation rave_errno :: linorder
begin

definition less_eq_rave_errno :: "rave_errno \<Rightarrow> rave_errno \<Rightarrow> bool" where
  "less_eq_rave_errno a b \<longleftrightarrow> errno_code a \<le> errno_code b"

definition less_rave_errno :: "rave_errno \<Rightarrow> rave_errno \<Rightarrow> bool" where
  "less_rave_errno a b \<longleftrightarrow> errno_code a < errno_code b"

instance
  by standard
    (auto simp: less_eq_rave_errno_def less_rave_errno_def order_less_le)

end

lemma success_least: "RAVE_SUCCESS \<le> e"
  by (simp add: less_eq_rave_errno_def)

end
