(* ===== verification/Func.thy ===== *)
theory Func
  imports Util
begin

text \<open>
  The function record of \<open>src/src/function.h\<close>, which the metadata reader produces and the
  transformer consumes.
\<close>

record func =
  faddr :: uintptr
  flen :: size_t

text \<open>A record whose range does not wrap around the address space.\<close>

definition func_ok :: "func \<Rightarrow> bool" where
  "func_ok f \<longleftrightarrow> unat (faddr f) + unat (flen f) < 2 ^ 64"

lemma unat_func_end: "func_ok f \<Longrightarrow> unat (faddr f + flen f) = unat (faddr f) + unat (flen f)"
  by (simp add: func_ok_def unat_plus_nowrap)

end
