(* ===== verification/World.thy ===== *)
theory World
  imports Rave_Prelude
begin

text \<open>
  What the library shares with its process: byte memory, the C heap behind \<open>memory.h\<close>, the
  stream of \<open>rand\<close>, libelf's one-time initialisation flag and the files the process has mapped. The heap's placement policy and
  the random numbers are not under \<open>src/\<close>: the fields \<open>alloc\<close> and \<open>rands\<close> are arbitrary
  streams of answers, so every theorem holds for whatever the C library returns. What
  \<open>malloc\<close> documents is built in: an answer that would overlap a live block or wrap around
  the address space is not one it can give, and counts as the failure \<open>NULL\<close>.

  Undefined behaviour has two forms here. Where C leaves no usable continuation (a store
  outside every live block, a \<open>free\<close> of something that is not live) the operation is \<open>None\<close>,
  so a result \<open>Some\<close> of a composed operation means that none of this happened. Where the
  execution continues in practice with the value still in memory (a read of a block just
  released, a read one past an array whose value is dropped) the operation goes on and the
  event is logged in \<open>faults\<close>.
\<close>

datatype fault =
    Use_After_Free ptr
  | Read_Past_End nat
  | Uninit_Read ptr

record world =
  mem :: "ptr \<Rightarrow> byte"
  live :: "(ptr \<times> nat) list"
  alloc :: "nat \<Rightarrow> ptr"
  nalloc :: nat
  rands :: "nat \<Rightarrow> nat"
  nrand :: nat
  faults :: "fault list"
  libelf_initialized :: bool
  mappings :: "(ptr \<times> size_t) list"

definition log_fault :: "fault \<Rightarrow> world \<Rightarrow> world" where
  "log_fault f w = w\<lparr>faults := faults w @ [f]\<rparr>"

section \<open>Bytes\<close>

definition mem_put :: "ptr \<Rightarrow> byte list \<Rightarrow> (ptr \<Rightarrow> byte) \<Rightarrow> ptr \<Rightarrow> byte" where
  "mem_put p bs m = (\<lambda>a. if unat (a - p) < length bs then bs ! unat (a - p) else m a)"

text \<open>
  For evaluation, distances are compared as integers: the distance to an address below \<open>p\<close> wraps
  around to a number too large to be counted down.
\<close>

lemma mem_put_code [code]:
  "mem_put p bs m = (\<lambda>a. if uint (a - p) < int (length bs) then bs ! unat (a - p) else m a)"
proof -
  have "uint d < int n \<longleftrightarrow> unat d < n" for d :: ptr and n
    unfolding uint_nat by linarith
  then show ?thesis by (simp add: mem_put_def)
qed

definition mem_get :: "(ptr \<Rightarrow> byte) \<Rightarrow> ptr \<Rightarrow> nat \<Rightarrow> byte list" where
  "mem_get m p n = map (\<lambda>i. m (p + of_nat i)) [0..<n]"

lemma length_mem_get [simp]: "length (mem_get m p n) = n"
  by (simp add: mem_get_def)

lemma nth_mem_get: "i < n \<Longrightarrow> mem_get m p n ! i = m (p + of_nat i)"
  by (simp add: mem_get_def)

lemma mem_get_cong: "(\<And>k. k < n \<Longrightarrow> m (p + of_nat k) = m' (p + of_nat k)) \<Longrightarrow> mem_get m p n = mem_get m' p n"
  by (simp add: mem_get_def)

lemma mem_put_Nil [simp]: "mem_put p [] m = m"
  by (simp add: mem_put_def)

lemma mem_get_put:
  assumes "length bs \<le> 2 ^ 64"
  shows "mem_get (mem_put p bs m) p (length bs) = bs"
  using assms by (intro nth_equalityI) (auto simp: nth_mem_get mem_put_def unat_of_nat)

text \<open>The distance from a later start, in terms of the distance from an earlier one.\<close>

lemma unat_diff_of_nat:
  fixes d :: ptr
  assumes "k < 2 ^ 64"
  shows "unat (d - of_nat k) = (if k \<le> unat d then unat d - k else 2 ^ 64 + unat d - k)"
  using assms by (auto simp: unat_sub_if_size unat_of_nat word_le_nat_alt word_size)

lemma unat_minus_shift:
  fixes a p :: ptr
  assumes "k < 2 ^ 64"
  shows "unat (a - (p + of_nat k)) =
    (if k \<le> unat (a - p) then unat (a - p) - k else 2 ^ 64 + unat (a - p) - k)"
  unfolding diff_diff_eq [symmetric] by (rule unat_diff_of_nat [OF assms])

lemma mem_put_append:
  assumes "length xs + length ys \<le> 2 ^ 64" "length xs < 2 ^ 64"
  shows "mem_put (p + of_nat (length xs)) ys (mem_put p xs m) = mem_put p (xs @ ys) m"
proof
  fix a :: ptr
  have d: "unat (a - p) < 2 ^ 64" by simp
  show "mem_put (p + of_nat (length xs)) ys (mem_put p xs m) a = mem_put p (xs @ ys) m a"
    unfolding mem_put_def unat_minus_shift [OF assms(2)]
    using assms d by (auto simp: nth_append)
qed

text \<open>A store changes only the addresses it covers.\<close>

lemma mem_put_outside: "length bs \<le> unat (a - p) \<Longrightarrow> mem_put p bs m a = m a"
  by (simp add: mem_put_def)

lemma mem_put_inside: "unat (a - p) < length bs \<Longrightarrow> mem_put p bs m a = bs ! unat (a - p)"
  by (simp add: mem_put_def)

section \<open>The heap\<close>

definition block_ok :: "(ptr \<times> nat) list \<Rightarrow> ptr \<Rightarrow> nat \<Rightarrow> bool" where
  "block_ok bl p n \<longleftrightarrow> (\<exists>(b, s) \<in> set bl. unat (p - b) + n \<le> s)"

lemma block_ok_code [code]:
  "block_ok bl p n \<longleftrightarrow> list_ex (\<lambda>(b, s). uint (p - b) + int n \<le> int s) bl"
proof -
  have "uint d + int n \<le> int s \<longleftrightarrow> unat d + n \<le> s" for d :: ptr and s
    unfolding uint_nat by linarith
  then show ?thesis by (simp add: block_ok_def list_ex_iff)
qed

definition is_live :: "world \<Rightarrow> ptr \<Rightarrow> bool" where
  "is_live w p \<longleftrightarrow> p \<in> fst ` set (live w)"

text \<open>A block \<open>malloc\<close> may hand out beside the live ones.\<close>

definition fresh_block :: "(ptr \<times> nat) list \<Rightarrow> ptr \<Rightarrow> nat \<Rightarrow> bool" where
  "fresh_block bl p n \<longleftrightarrow>
     uint p + int n < 2 ^ 64 \<and>
     list_all (\<lambda>(b, s). p \<noteq> b \<and> (uint p + int n \<le> uint b \<or> uint b + int s \<le> uint p)) bl"

lemma uint_sum_le: "uint (a :: ptr) + int n \<le> uint (b :: ptr) \<longleftrightarrow> unat a + n \<le> unat b"
  unfolding uint_nat by linarith

lemma uint_sum_lt: "uint (a :: ptr) + int n < 2 ^ 64 \<longleftrightarrow> unat a + n < 2 ^ 64"
  using of_nat_less_iff [of "unat a + n" "2 ^ 64", where 'a = int]
  by (simp only: of_nat_add of_nat_power of_nat_numeral uint_nat)

lemma fresh_block_iff:
  "fresh_block bl p n \<longleftrightarrow>
     unat p + n < 2 ^ 64 \<and>
     list_all (\<lambda>(b, s). p \<noteq> b \<and> (unat p + n \<le> unat b \<or> unat b + s \<le> unat p)) bl"
  unfolding fresh_block_def uint_sum_le uint_sum_lt ..

text \<open>\<open>rave_malloc\<close>, \<open>rave_calloc\<close>, \<open>rave_free\<close> of \<open>memory.h\<close>.\<close>

definition rave_malloc :: "nat \<Rightarrow> world \<Rightarrow> ptr \<times> world" where
  "rave_malloc n w =
     (let p = alloc w (nalloc w); w1 = w\<lparr>nalloc := Suc (nalloc w)\<rparr>
      in if p = NULL \<or> \<not> fresh_block (live w) p n then (NULL, w1)
         else (p, w1\<lparr>live := (p, n) # live w\<rparr>))"

definition rave_calloc :: "nat \<Rightarrow> nat \<Rightarrow> world \<Rightarrow> ptr \<times> world" where
  "rave_calloc k n w =
     (let (p, w1) = rave_malloc (k * n) w
      in if p = NULL then (p, w1)
         else (p, w1\<lparr>mem := mem_put p (replicate (k * n) 0) (mem w1)\<rparr>))"

definition rave_free :: "ptr \<Rightarrow> world \<Rightarrow> world option" where
  "rave_free p w =
     (if p = NULL then Some w
      else if is_live w p then Some (w\<lparr>live := filter (\<lambda>b. fst b \<noteq> p) (live w)\<rparr>)
      else None)"

definition store_bytes :: "ptr \<Rightarrow> byte list \<Rightarrow> world \<Rightarrow> world option" where
  "store_bytes p bs w =
     (if block_ok (live w) p (length bs) then Some (w\<lparr>mem := mem_put p bs (mem w)\<rparr>) else None)"

text \<open>\<open>rand\<close>: the next number of the stream, at most \<open>RAND_MAX\<close> (\<open>2 ^ 31 - 1\<close>).\<close>

definition c_rand :: "world \<Rightarrow> c_int \<times> world" where
  "c_rand w = (of_int (int (rands w (nrand w)) mod 2 ^ 31), w\<lparr>nrand := Suc (nrand w)\<rparr>)"

lemma c_rand_eq: "c_rand w = (of_nat (rands w (nrand w) mod 2 ^ 31), w\<lparr>nrand := Suc (nrand w)\<rparr>)"
proof -
  have "(of_int (int r mod 2 ^ 31) :: c_int) = of_nat (r mod 2 ^ 31)" for r
    by (simp add: zmod_int [of r "2 ^ 31", simplified, symmetric])
  then show ?thesis by (simp add: c_rand_def)
qed

section \<open>Ownership of blocks\<close>

text \<open>
  What the clients of the heap rely on, stated once: which pointers are owned after each call.
  A client that frees several blocks one after another folds the release over them.
\<close>

locale releasing =
  fixes release :: "ptr \<Rightarrow> 'w \<Rightarrow> 'w option"
    and owned :: "'w \<Rightarrow> ptr \<Rightarrow> bool"
  assumes release_owned:
      "owned w p \<Longrightarrow> p \<noteq> NULL \<Longrightarrow>
         \<exists>w'. release p w = Some w' \<and> (\<forall>q. owned w' q \<longleftrightarrow> owned w q \<and> q \<noteq> p)"
    and release_stale: "\<not> owned w p \<Longrightarrow> p \<noteq> NULL \<Longrightarrow> release p w = None"
begin

lemma release_SomeD:
  assumes "release p w = Some w'" "p \<noteq> NULL"
  shows "owned w p" "owned w' q \<longleftrightarrow> owned w q \<and> q \<noteq> p"
proof -
  show own: "owned w p"
    using assms release_stale by fastforce
  show "owned w' q \<longleftrightarrow> owned w q \<and> q \<noteq> p"
    using release_owned [OF own assms(2)] assms(1) by auto
qed

lemma no_double_release:
  "release p w = Some w' \<Longrightarrow> p \<noteq> NULL \<Longrightarrow> release p w' = None"
  using release_SomeD(2) release_stale by blast

text \<open>Releasing distinct owned blocks succeeds and gives up exactly those.\<close>

lemma release_list_owned:
  assumes "distinct ps" "\<forall>p \<in> set ps. owned w p \<and> p \<noteq> NULL"
  shows "\<exists>w'. fold_opt release ps w = Some w' \<and> (\<forall>q. owned w' q \<longleftrightarrow> owned w q \<and> q \<notin> set ps)"
  using assms
proof (induction ps arbitrary: w)
  case Nil
  then show ?case by simp
next
  case (Cons p ps)
  then obtain w1 where w1: "release p w = Some w1" "\<forall>q. owned w1 q \<longleftrightarrow> owned w q \<and> q \<noteq> p"
    using release_owned [of w p] by auto
  then have "\<forall>p \<in> set ps. owned w1 p \<and> p \<noteq> NULL"
    using Cons.prems by auto
  with Cons.IH [of w1] Cons.prems(1) obtain w' where
    "fold_opt release ps w1 = Some w'" "\<forall>q. owned w' q \<longleftrightarrow> owned w1 q \<and> q \<notin> set ps"
    by auto
  with w1 show ?case by auto
qed

lemma release_list_only_owned:
  assumes "fold_opt release ps w = Some w'" "NULL \<notin> set ps"
  shows "distinct ps \<and> (\<forall>p \<in> set ps. owned w p)"
  using assms
proof (induction ps arbitrary: w)
  case Nil
  then show ?case by simp
next
  case (Cons p ps)
  then obtain w1 where w1: "release p w = Some w1" "fold_opt release ps w1 = Some w'"
    by (auto simp: bind_eq_Some_conv)
  with Cons have "distinct ps \<and> (\<forall>q \<in> set ps. owned w1 q)" by auto
  with release_SomeD [OF w1(1)] Cons.prems(2) show ?case by auto
qed

end

locale allocating = releasing release owned
  for release :: "ptr \<Rightarrow> 'w \<Rightarrow> 'w option" and owned :: "'w \<Rightarrow> ptr \<Rightarrow> bool" +
  fixes acquire :: "nat \<Rightarrow> 'w \<Rightarrow> ptr \<times> 'w"
  assumes acquire_owned:
    "acquire n w = (p, w') \<Longrightarrow> owned w' q \<longleftrightarrow> owned w q \<or> p \<noteq> NULL \<and> q = p"
    and acquire_fresh: "acquire n w = (p, w') \<Longrightarrow> p \<noteq> NULL \<Longrightarrow> \<not> owned w p"
begin

text \<open>A block taken and given back leaves the ownership as it was.\<close>

lemma acquire_release:
  assumes "acquire n w = (p, w')" "p \<noteq> NULL"
  shows "\<exists>w''. release p w' = Some w'' \<and> (\<forall>q. owned w'' q \<longleftrightarrow> owned w q)"
  using release_owned [of w' p] acquire_owned [OF assms(1)] acquire_fresh [OF assms] assms(2) by auto

end

lemma is_live_free:
  "rave_free p w = Some w' \<Longrightarrow> p \<noteq> NULL \<Longrightarrow> is_live w' q \<longleftrightarrow> is_live w q \<and> q \<noteq> p"
  by (force simp: rave_free_def is_live_def split: if_splits)

lemma is_live_malloc:
  "rave_malloc n w = (p, w') \<Longrightarrow> is_live w' q \<longleftrightarrow> is_live w q \<or> p \<noteq> NULL \<and> q = p"
  by (auto simp: rave_malloc_def is_live_def Let_def split: if_splits)

lemma malloc_fresh:
  "rave_malloc n w = (p, w') \<Longrightarrow> p \<noteq> NULL \<Longrightarrow> fresh_block (live w) p n \<and> live w' = (p, n) # live w"
  by (auto simp: rave_malloc_def Let_def split: if_splits)

lemma malloc_not_live: "rave_malloc n w = (p, w') \<Longrightarrow> p \<noteq> NULL \<Longrightarrow> \<not> is_live w p"
  by (drule (1) malloc_fresh) (auto simp: fresh_block_iff is_live_def list_all_iff)

interpretation heap: allocating rave_free is_live rave_malloc
proof
  fix w p
  assume "is_live w p" "p \<noteq> NULL"
  then obtain w' where "rave_free p w = Some w'"
    by (simp add: rave_free_def)
  with \<open>p \<noteq> NULL\<close> show "\<exists>w'. rave_free p w = Some w' \<and> (\<forall>q. is_live w' q \<longleftrightarrow> is_live w q \<and> q \<noteq> p)"
    by (blast dest: is_live_free)
next
  fix w p
  assume "\<not> is_live w p" "p \<noteq> NULL"
  then show "rave_free p w = None"
    by (simp add: rave_free_def)
next
  fix n w p w' q
  assume "rave_malloc n w = (p, w')"
  then show "is_live w' q \<longleftrightarrow> is_live w q \<or> p \<noteq> NULL \<and> q = p"
    by (rule is_live_malloc)
next
  fix n w p w'
  assume "rave_malloc n w = (p, w')" "p \<noteq> NULL"
  then show "\<not> is_live w p"
    by (rule malloc_not_live)
qed

text \<open>Live blocks never overlap, whatever the sequence of calls.\<close>

definition heap_ok :: "(ptr \<times> nat) list \<Rightarrow> bool" where
  "heap_ok bl \<longleftrightarrow>
     sorted_wrt (\<lambda>(p, n) (b, s). p \<noteq> b \<and> (unat p + n \<le> unat b \<or> unat b + s \<le> unat p)) bl \<and>
     list_all (\<lambda>(p, n). p \<noteq> NULL \<and> unat p + n < 2 ^ 64) bl"

lemma heap_ok_malloc: "heap_ok (live w) \<Longrightarrow> rave_malloc n w = (p, w') \<Longrightarrow> heap_ok (live w')"
  by (auto simp: rave_malloc_def Let_def heap_ok_def fresh_block_iff list_all_iff split: if_splits)

lemma heap_ok_filter: "heap_ok bl \<Longrightarrow> heap_ok (filter P bl)"
  unfolding heap_ok_def by (auto simp: sorted_wrt_filter list_all_iff)

lemma heap_ok_free: "heap_ok (live w) \<Longrightarrow> rave_free p w = Some w' \<Longrightarrow> heap_ok (live w')"
  by (auto simp: rave_free_def heap_ok_filter split: if_splits)

text \<open>What the heap operations leave alone.\<close>

lemma rave_free_frame:
  "rave_free p w = Some w' \<Longrightarrow> mem w' = mem w \<and> faults w' = faults w \<and> nalloc w' = nalloc w \<and>
     alloc w' = alloc w \<and> rands w' = rands w \<and> nrand w' = nrand w"
  by (auto simp: rave_free_def split: if_splits)

lemma rave_free_NULL [simp]: "rave_free NULL w = Some w"
  by (simp add: rave_free_def)

lemma rave_malloc_frame:
  "rave_malloc n w = (p, w') \<Longrightarrow> mem w' = mem w \<and> faults w' = faults w \<and>
     nalloc w' = Suc (nalloc w) \<and> alloc w' = alloc w \<and> rands w' = rands w \<and> nrand w' = nrand w"
  by (auto simp: rave_malloc_def Let_def split: if_splits)

text \<open>A zeroed block reads back as zeros.\<close>

lemma rave_calloc_zeroed:
  assumes "rave_calloc k n w = (p, w')" "p \<noteq> NULL" "k * n \<le> 2 ^ 64"
  shows "mem_get (mem w') p (k * n) = replicate (k * n) 0"
proof -
  have "mem w' = mem_put p (replicate (k * n) 0) (mem w)"
    using assms(1,2) rave_malloc_frame [of "k * n" w]
    by (auto simp: rave_calloc_def split: prod.splits if_splits)
  then show ?thesis
    using mem_get_put [of "replicate (k * n) 0" p "mem w"] assms(3) by simp
qed

text \<open>Stores inside a live block, and what they change.\<close>

lemma store_bytes_ok:
  "block_ok (live w) p (length bs) \<Longrightarrow> store_bytes p bs w = Some (w\<lparr>mem := mem_put p bs (mem w)\<rparr>)"
  by (simp add: store_bytes_def)

lemma store_bytes_SomeD:
  "store_bytes p bs w = Some w' \<Longrightarrow>
     block_ok (live w) p (length bs) \<and> w' = w\<lparr>mem := mem_put p bs (mem w)\<rparr>"
  by (auto simp: store_bytes_def split: if_splits)

lemma block_ok_inside:
  assumes "(b, s) \<in> set bl" "k + n \<le> s" "k < 2 ^ 64"
  shows "block_ok bl (b + of_nat k) n"
  unfolding block_ok_def using assms by (intro bexI [of _ "(b, s)"]) (simp_all add: unat_of_nat)

end
