(* ===== verification/Window.thy ===== *)
theory Window
  imports Util Errno World
begin

text \<open>
  The address windows of \<open>src/src/window.c\<close>: a region of local memory that stands for a range
  of true addresses. A window that may be \<open>NULL\<close> is an option; a \<open>length\<close> argument that the
  caller passes as \<open>NULL\<close> is left out by taking the pointer part of the result only. The length
  written back is \<open>None\<close> where the code leaves the caller's variable alone.
\<close>

record window =
  orig :: uintptr
  data :: ptr
  wlength :: size_t

definition window_init ::
  "window option \<Rightarrow> uintptr \<Rightarrow> ptr \<Rightarrow> size_t \<Rightarrow> rave_errno \<times> window option" where
  "window_init self og d len =
     (case self of
        None \<Rightarrow> (RAVE_EINVAL, None)
      | Some s \<Rightarrow> (RAVE_SUCCESS, Some (s\<lparr>orig := og, data := d, wlength := len\<rparr>)))"

definition window_relocate :: "window option \<Rightarrow> uintptr \<Rightarrow> window option" where
  "window_relocate self og = (case self of None \<Rightarrow> None | Some s \<Rightarrow> Some (s\<lparr>orig := og\<rparr>))"

definition window_orig :: "window option \<Rightarrow> uintptr" where
  "window_orig self = (case self of None \<Rightarrow> 0 | Some s \<Rightarrow> orig s)"

definition window_get :: "window option \<Rightarrow> ptr \<times> size_t option" where
  "window_get self =
     (case self of
        None \<Rightarrow> (NULL, None)
      | Some s \<Rightarrow> (data s, if data s \<noteq> NULL then Some (wlength s) else None))"

definition window_contains :: "window option \<Rightarrow> uintptr \<Rightarrow> bool" where
  "window_contains self address =
     (case self of
        None \<Rightarrow> False
      | Some s \<Rightarrow> CONTAINS address (orig s) (OFFSET (orig s) (wlength s)))"

definition window_view :: "window option \<Rightarrow> uintptr \<Rightarrow> ptr \<times> size_t option" where
  "window_view self address =
     (case self of
        None \<Rightarrow> (NULL, None)
      | Some s \<Rightarrow>
          if \<not> window_contains self address then (NULL, None)
          else (OFFSET (data s) (address - orig s), Some (wlength s - (address - orig s))))"

text \<open>
  A window is sound when neither its address range nor its local range wraps, its data is not
  \<open>NULL\<close> (so that a view can be told from the \<open>NULL\<close> result).
\<close>

definition window_ok :: "window \<Rightarrow> bool" where
  "window_ok s \<longleftrightarrow>
     unat (orig s) + unat (wlength s) < 2 ^ 64 \<and> unat (data s) + unat (wlength s) < 2 ^ 64 \<and>
     data s \<noteq> NULL"

lemma window_contains_iff:
  assumes "window_ok s"
  shows "window_contains (Some s) a \<longleftrightarrow>
    unat (orig s) \<le> unat a \<and> unat a < unat (orig s) + unat (wlength s)"
  using assms by (simp add: window_contains_def CONTAINS_offset window_ok_def)

text \<open>The offset of a contained address, as a number below the length.\<close>

lemma window_contains_offset:
  assumes "window_ok s"
  shows "window_contains (Some s) a \<longleftrightarrow> (\<exists>k < unat (wlength s). a = orig s + of_nat k)"
proof
  assume "window_contains (Some s) a"
  then have b: "unat (orig s) \<le> unat a" "unat a < unat (orig s) + unat (wlength s)"
    using window_contains_iff [OF assms] by auto
  then have "unat (a - orig s) = unat a - unat (orig s)"
    by (simp add: unat_minus_nowrap word_le_nat_alt)
  with b have "unat (a - orig s) < unat (wlength s)" by linarith
  moreover have "a = orig s + of_nat (unat (a - orig s))" by simp
  ultimately show "\<exists>k < unat (wlength s). a = orig s + of_nat k" by blast
next
  assume "\<exists>k < unat (wlength s). a = orig s + of_nat k"
  then obtain k where k: "k < unat (wlength s)" "a = orig s + of_nat k" by blast
  then have "unat a = unat (orig s) + k"
    using assms by (simp add: window_ok_def unat_add_of_nat)
  with k show "window_contains (Some s) a"
    using window_contains_iff [OF assms] by simp
qed

lemma window_view_inside:
  assumes "window_ok s" "k < unat (wlength s)"
  shows "window_view (Some s) (orig s + of_nat k) = (data s + of_nat k, Some (wlength s - of_nat k))"
proof -
  have "window_contains (Some s) (orig s + of_nat k)"
    using window_contains_offset [OF assms(1)] assms(2) by blast
  then show ?thesis
    by (simp add: window_view_def OFFSET_def)
qed

lemma window_view_outside:
  "\<not> window_contains self a \<Longrightarrow> window_view self a = (NULL, None)"
  by (auto simp: window_view_def split: option.splits)

section \<open>Views as an interface\<close>

text \<open>
  What the transformer and the handle rely on when they go from a true address to local
  memory: a region holds the addresses at offsets below its extent, and the view of the one
  at offset \<open>k\<close> is the local byte at offset \<open>k\<close>.
\<close>

locale region_view =
  fixes contains :: "'w \<Rightarrow> uintptr \<Rightarrow> bool"
    and view :: "'w \<Rightarrow> uintptr \<Rightarrow> ptr"
    and base :: "'w \<Rightarrow> uintptr"
    and start :: "'w \<Rightarrow> ptr"
    and extent :: "'w \<Rightarrow> nat"
    and ok :: "'w \<Rightarrow> bool"
  assumes contains_iff: "ok w \<Longrightarrow> contains w a \<longleftrightarrow> (\<exists>k < extent w. a = base w + of_nat k)"
    and view_at: "ok w \<Longrightarrow> k < extent w \<Longrightarrow> view w (base w + of_nat k) = start w + of_nat k"
    and view_out: "\<not> contains w a \<Longrightarrow> view w a = NULL"
    and start_bound: "ok w \<Longrightarrow> unat (start w) + extent w < 2 ^ 64"
    and start_not_NULL: "ok w \<Longrightarrow> start w \<noteq> NULL"
begin

lemma unat_view_at:
  assumes "ok w" "k < extent w"
  shows "unat (view w (base w + of_nat k)) = unat (start w) + k"
  unfolding view_at [OF assms] using assms start_bound [of w] by (simp add: unat_add_of_nat)

lemma view_NULL_iff:
  assumes "ok w"
  shows "view w a = NULL \<longleftrightarrow> \<not> contains w a"
proof
  show "\<not> contains w a" if "view w a = NULL"
  proof
    assume "contains w a"
    then obtain k where "k < extent w" "a = base w + of_nat k"
      using contains_iff [OF assms] by blast
    then have "unat (start w) + k = 0"
      using unat_view_at [OF assms] that by (metis unat_0)
    then show False
      using start_not_NULL [OF assms] by (simp add: unat_eq_0)
  qed
qed (rule view_out)

lemma view_inj:
  assumes "ok w" "contains w a" "contains w b" "view w a = view w b"
  shows "a = b"
proof -
  obtain i j where ij: "i < extent w" "a = base w + of_nat i" "j < extent w" "b = base w + of_nat j"
    using assms contains_iff by blast
  then have "unat (start w) + i = unat (start w) + j"
    using assms(1,4) unat_view_at by metis
  with ij show ?thesis by simp
qed

text \<open>A window laid over a part of another one sees the same bytes.\<close>

lemma nested_view:
  assumes "ok w" "ok v" "base v = base w + of_nat d" "start v = start w + of_nat d"
    and "d + extent v \<le> extent w" "contains v a"
  shows "contains w a" "view v a = view w a"
proof -
  obtain k where k: "k < extent v" "a = base v + of_nat k"
    using assms contains_iff by blast
  then have a: "a = base w + of_nat (d + k)" "d + k < extent w"
    using assms(3,5) by simp_all
  then show "contains w a"
    using contains_iff [OF assms(1)] by blast
  show "view v a = view w a"
    using view_at [OF assms(2) k(1)] view_at [OF assms(1) a(2)] assms(4)
    unfolding k(2) [symmetric] a(1) [symmetric] by (simp add: add.assoc)
qed

end

interpretation wv: region_view "\<lambda>s. window_contains (Some s)" "\<lambda>s a. fst (window_view (Some s) a)"
  orig data "\<lambda>s. unat (wlength s)" window_ok
  by unfold_locales
    (auto simp: window_contains_offset window_view_inside window_view_outside window_ok_def)

end
