(* ===== verification/Random_Shuffle.thy ===== *)
theory Random_Shuffle
  imports World
begin

text \<open>
  The shuffle of \<open>src/src/random.c\<close>: a front-to-back Fisher--Yates pass over an \<open>int\<close> array,
  with the index arithmetic at the widths C uses (\<open>size_t\<close> counters, an \<open>int\<close> position) and
  checked array accesses. \<open>None\<close> is a division by zero or an access outside the array.
  The lemmas show that it permutes its input, that it never faults on a table of at most
  \<open>2 ^ 31\<close> entries, and that every permutation is the outcome of some numbers.
\<close>

definition swap :: "c_int list \<Rightarrow> int \<Rightarrow> int \<Rightarrow> c_int list option" where
  "swap arr a b =
     do { tmp \<leftarrow> arr_get arr a;
          vb \<leftarrow> arr_get arr b;
          arr1 \<leftarrow> arr_set arr a vb;
          arr_set arr1 b tmp }"

function shuffle_loop ::
  "size_t \<Rightarrow> size_t \<Rightarrow> c_int list \<Rightarrow> world \<Rightarrow> (c_int list \<times> world) option" where
  "shuffle_loop nmemb i arr w =
     (if i < nmemb - 1
      then if nmemb - i = 0 then None
        else
          let (r, w1) = c_rand w;
              rnd = size_to_int (i + int_to_size r mod (nmemb - i))
          in do { arr1 \<leftarrow> swap arr (int (unat i)) (sint rnd);
                  shuffle_loop nmemb (i + 1) arr1 w1 }
      else Some (arr, w))"
  by pat_completeness auto
termination
proof (relation "measure (\<lambda>(n, i, _). unat (n - 1) - unat i)")
  fix nmemb i :: size_t
  assume "i < nmemb - 1"
  then have less: "unat i < unat (nmemb - 1)"
    by (simp add: word_less_nat_alt)
  then have "unat (i + 1) = unat i + 1"
    by (rule unat_Suc_below)
  with less show "((nmemb, i + 1, arr', w'), nmemb, i, arr, w) \<in> measure (\<lambda>(n, i, _). unat (n - 1) - unat i)"
    for arr' w' arr w
    by simp
qed simp

declare shuffle_loop.simps [simp del]

definition shuffle :: "c_int list \<Rightarrow> size_t \<Rightarrow> world \<Rightarrow> (c_int list \<times> world) option" where
  "shuffle arr nmemb w = shuffle_loop nmemb 0 arr w"

section \<open>The shuffle as a sequence of swaps\<close>

definition swap_at :: "nat \<Rightarrow> nat \<Rightarrow> 'a list \<Rightarrow> 'a list" where
  "swap_at i j xs = xs[i := xs ! j, j := xs ! i]"

fun swap_run :: "nat \<Rightarrow> nat list \<Rightarrow> 'a list \<Rightarrow> 'a list" where
  "swap_run i [] xs = xs"
| "swap_run i (r # rs) xs = swap_run (Suc i) rs (swap_at i (i + r) xs)"

lemma length_swap_at [simp]: "length (swap_at i j xs) = length xs"
  by (simp add: swap_at_def)

lemma mset_swap_at: "i < length xs \<Longrightarrow> j < length xs \<Longrightarrow> mset (swap_at i j xs) = mset xs"
  unfolding swap_at_def by (rule mset_swap)

lemma nth_swap_at:
  "i < length xs \<Longrightarrow> j < length xs \<Longrightarrow> k < length xs \<Longrightarrow>
     swap_at i j xs ! k = (if k = i then xs ! j else if k = j then xs ! i else xs ! k)"
  by (auto simp: swap_at_def nth_list_update)

lemma swap_eq:
  "i < length arr \<Longrightarrow> j < length arr \<Longrightarrow> swap arr (int i) (int j) = Some (swap_at i j arr)"
  by (simp add: swap_def swap_at_def)

text \<open>The offset drawn at position \<open>i\<close> of a table of \<open>n\<close>, from a world's next number.\<close>

definition draw :: "world \<Rightarrow> nat \<Rightarrow> nat" where
  "draw w m = rands w (nrand w) mod 2 ^ 31 mod m"

definition draws :: "world \<Rightarrow> nat \<Rightarrow> nat \<Rightarrow> nat list" where
  "draws w n i = map (\<lambda>k. rands w (nrand w + (k - i)) mod 2 ^ 31 mod (n - k)) [i..<n - 1]"

lemma draws_Cons:
  "i < n - 1 \<Longrightarrow> draws w n i = draw w (n - i) # draws (w\<lparr>nrand := Suc (nrand w)\<rparr>) n (Suc i)"
  by (auto simp: draws_def draw_def upt_conv_Cons Suc_diff_Suc intro!: map_cong)

lemma draws_end: "n - 1 \<le> i \<Longrightarrow> draws w n i = []"
  by (simp add: draws_def)

lemma length_draws [simp]: "length (draws w n i) = n - 1 - i"
  by (simp add: draws_def)

section \<open>What the loop does\<close>

lemma rand_index:
  assumes "i < n" "n \<le> 2 ^ 31" "r < 2 ^ 31"
  shows "sint (size_to_int (of_nat i + int_to_size (of_nat r) mod (of_nat n - of_nat i))) =
    int (i + r mod (n - i))"
proof -
  have n: "(of_nat n - of_nat i :: size_t) = of_nat (n - i)"
    using assms(1) by simp
  have lt: "i + r mod (n - i) < n"
    using assms(1) mod_less_divisor [of "n - i" r] by linarith
  have u: "unat (of_nat r :: size_t) = r" "unat (of_nat (n - i) :: size_t) = n - i"
    "unat (of_nat (r mod (n - i)) :: size_t) = r mod (n - i)"
    using assms lt by (intro unat_of_nat64; simp)+
  have m: "(of_nat r mod of_nat (n - i) :: size_t) = of_nat (r mod (n - i))"
    by (simp only: word_unat_eq_iff unat_mod u)
  have "of_nat i + int_to_size (of_nat r) mod (of_nat n - of_nat i) = (of_nat (i + r mod (n - i)) :: size_t)"
    unfolding int_to_size_of_nat [OF assms(3)] n m by simp
  then show ?thesis
    using lt assms(2) by (simp add: sint_small_int del: of_nat_add)
qed

lemma shuffle_loop_eq:
  assumes "length arr = n" "i < n" "n \<le> 2 ^ 31"
  shows "shuffle_loop (of_nat n) (of_nat i) arr w =
    Some (swap_run i (draws w n i) arr, w\<lparr>nrand := nrand w + (n - 1 - i)\<rparr>)"
  using assms
proof (induction "n - i" arbitrary: i arr w)
  case 0
  then show ?case by simp
next
  case (Suc d)
  have "(of_nat n - 1 :: size_t) = of_nat (n - 1)"
    using Suc.prems by simp
  moreover have "unat (of_nat (n - 1) :: size_t) = n - 1" "unat (of_nat i :: size_t) = i"
    using Suc.prems by (intro unat_of_nat64; simp)+
  ultimately have u: "unat (of_nat n - 1 :: size_t) = n - 1" "unat (of_nat i :: size_t) = i"
    by simp_all
  show ?case
  proof (cases "i < n - 1")
    case False
    with Suc.prems u show ?thesis
      by (subst shuffle_loop.simps) (simp add: word_less_nat_alt draws_end)
  next
    case True
    let ?w = "w\<lparr>nrand := Suc (nrand w)\<rparr>"
    obtain r where r: "rands w (nrand w) mod 2147483648 = r" "r < 2 ^ 31" by simp
    have "i + r mod (n - i) < n"
      using Suc.prems mod_less_divisor [of "n - i" r] by linarith
    then obtain j where j: "i + r mod (n - i) = j" "j < length arr" "i + draw w (n - i) = j"
      using Suc.prems r by (simp add: draw_def)
    have idx: "sint (size_to_int (of_nat i + int_to_size (of_nat r) mod (of_nat n - of_nat i))) = int j"
      unfolding j(1) [symmetric] using Suc.prems r(2) by (intro rand_index) simp_all
    have nz: "(of_nat n - of_nat i :: size_t) \<noteq> 0"
      using Suc.prems by (simp add: word_unat_eq_iff unat_of_nat flip: of_nat_diff)
    have sw: "swap arr (int i) (int j) = Some (swap_at i j arr)"
      using swap_eq j(2) Suc.prems by simp
    have IH: "shuffle_loop (of_nat n) (of_nat i + 1) (swap_at i j arr) ?w =
        Some (swap_run (Suc i) (draws ?w n (Suc i)) (swap_at i j arr),
              ?w\<lparr>nrand := nrand ?w + (n - 1 - Suc i)\<rparr>)"
      using Suc.hyps(1) [of "Suc i" "swap_at i j arr" ?w] Suc.prems Suc.hyps(2) True
      by (simp add: add.commute)
    show ?thesis
      using True Suc.prems u nz
      by (subst shuffle_loop.simps)
        (simp add: word_less_nat_alt c_rand_eq r idx j sw IH draws_Cons)
  qed
qed

lemma mset_swap_run:
  assumes "i + length rs \<le> length xs" "\<And>k. k < length rs \<Longrightarrow> i + k + rs ! k < length xs"
  shows "mset (swap_run i rs xs) = mset xs \<and> length (swap_run i rs xs) = length xs"
  using assms
proof (induction rs arbitrary: i xs)
  case Nil
  then show ?case by simp
next
  case (Cons r rs)
  have "i + r < length xs" "i < length xs" using Cons.prems(2) [of 0] Cons.prems(1) by simp_all
  moreover have "Suc i + k + rs ! k < length xs" if "k < length rs" for k
    using Cons.prems(2) [of "Suc k"] that by simp
  ultimately show ?case
    using Cons.IH [of "Suc i" "swap_at i (i + r) xs"] Cons.prems(1) by (simp add: mset_swap_at)
qed

lemma draws_bound:
  assumes "k < length (draws w n i)"
  shows "i + k + draws w n i ! k < n"
proof -
  have "draws w n i ! k < n - (i + k)"
    using assms mod_less_divisor [of "n - (i + k)"] by (simp add: draws_def)
  then show ?thesis by simp
qed

text \<open>On a table of 1 to \<open>2 ^ 31\<close> entries the shuffle succeeds and permutes.\<close>

lemma shuffle_eq:
  assumes "length arr = n" "0 < n" "n \<le> 2 ^ 31"
  shows "shuffle arr (of_nat n) w =
    Some (swap_run 0 (draws w n 0) arr, w\<lparr>nrand := nrand w + (n - 1)\<rparr>)"
  using shuffle_loop_eq [OF assms(1), of 0] assms(2,3) by (simp add: shuffle_def)

lemma shuffle_mset:
  assumes "length arr = n" "0 < n" "n \<le> 2 ^ 31"
  shows "mset (swap_run 0 (draws w n 0) arr) = mset arr \<and> length (swap_run 0 (draws w n 0) arr) = n"
  using mset_swap_run [of 0 "draws w n 0" arr] draws_bound [of _ w n 0] assms by simp

section \<open>Every permutation is an outcome\<close>

lemma take_swap_at:
  assumes "take i xs = take i ys" "i \<le> j" "j < length xs" "xs ! j = ys ! i" "length xs = length ys"
  shows "take (Suc i) (swap_at i j xs) = take (Suc i) ys"
proof -
  have "take i (swap_at i j xs) = take i xs"
    using assms(2) by (simp add: swap_at_def)
  moreover have "swap_at i j xs ! i = ys ! i"
    using assms by (simp add: nth_swap_at)
  ultimately show ?thesis
    using assms by (simp add: take_Suc_conv_app_nth)
qed

lemma swap_run_reaches:
  assumes "length xs = n" "mset ys = mset xs" "take i ys = take i xs" "i < n"
  shows "\<exists>rs. length rs = n - 1 - i \<and> (\<forall>k < length rs. rs ! k < n - (i + k)) \<and> swap_run i rs xs = ys"
  using assms
proof (induction "n - 1 - i" arbitrary: i xs)
  case 0
  then have i: "i = n - 1" by simp
  have len: "length ys = n" using 0 by (metis size_mset)
  obtain P a b where "xs = P @ [a]" "ys = P @ [b]"
    using 0 i len take_Suc_conv_app_nth [of i xs] take_Suc_conv_app_nth [of i ys] by auto
  with 0(3) have "xs = ys" by simp
  then show ?case using i by simp
next
  case (Suc d)
  have len: "length ys = n" using Suc.prems by (metis size_mset)
  have "mset (drop i ys) = mset (drop i xs)"
    using Suc.prems(2,3) by (metis add_left_cancel append_take_drop_id mset_append)
  moreover have "ys ! i \<in> set (drop i ys)"
    using Suc.prems(4) len by (metis Cons_nth_drop_Suc list.set_intros(1))
  ultimately have "ys ! i \<in> set (drop i xs)" by (metis mset_eq_setD)
  then obtain r where r: "r < n - i" "xs ! (i + r) = ys ! i"
    using Suc.prems(1) by (auto simp: in_set_conv_nth)
  define zs where "zs = swap_at i (i + r) xs"
  have "length zs = n" "mset ys = mset zs" "take (Suc i) ys = take (Suc i) zs"
    using Suc.prems r len take_swap_at [of i xs ys "i + r"] by (simp_all add: zs_def mset_swap_at)
  moreover have "d = n - 1 - Suc i" "Suc i < n" using Suc.hyps(2) by simp_all
  ultimately obtain rs where rs: "length rs = n - 1 - Suc i"
    "\<forall>k < length rs. rs ! k < n - (Suc i + k)" "swap_run (Suc i) rs zs = ys"
    using Suc.hyps(1) by blast
  show ?case
  proof (intro exI [of _ "r # rs"] conjI allI impI)
    fix k
    assume "k < length (r # rs)"
    then show "(r # rs) ! k < n - (i + k)"
      using rs(2) r(1) by (cases k) auto
  qed (use rs Suc.hyps(2) in \<open>simp_all add: zs_def\<close>)
qed

lemma shuffle_reaches:
  assumes "length arr = n" "0 < n" "n \<le> 2 ^ 31" "mset ys = mset arr"
  shows "\<exists>f. shuffle arr (of_nat n) (w\<lparr>rands := f\<rparr>) =
    Some (ys, w\<lparr>rands := f, nrand := nrand w + (n - 1)\<rparr>)"
proof -
  obtain rs where rs: "length rs = n - 1" "\<forall>k < length rs. rs ! k < n - k" "swap_run 0 rs arr = ys"
    using swap_run_reaches [of arr n ys 0] assms by auto
  define f where "f = (\<lambda>m. rs ! (m - nrand w))"
  have "draws (w\<lparr>rands := f\<rparr>) n 0 = rs"
  proof (rule nth_equalityI)
    fix k
    assume k: "k < length (draws (w\<lparr>rands := f\<rparr>) n 0)"
    then have "rs ! k < n - k" using rs by simp
    then show "draws (w\<lparr>rands := f\<rparr>) n 0 ! k = rs ! k"
      using k assms(3) by (simp add: draws_def f_def)
  qed (simp add: rs)
  then show ?thesis
    using shuffle_eq [OF assms(1-3), of "w\<lparr>rands := f\<rparr>"] rs by auto
qed

section \<open>Slot tables\<close>

text \<open>
  The table the transformer shuffles: entry \<open>i\<close> is the slot of instruction \<open>i\<close>. A slot table
  of size \<open>n\<close> holds each of \<open>0 \<dots> n - 1\<close> once.
\<close>

definition slot_table :: "nat \<Rightarrow> c_int list \<Rightarrow> bool" where
  "slot_table n t \<longleftrightarrow> mset t = mset (map of_nat [0..<n])"

definition slots :: "c_int list \<Rightarrow> nat list" where
  "slots t = map (\<lambda>v. nat (sint v)) t"

lemma length_slots [simp]: "length (slots t) = length t"
  by (simp add: slots_def)

lemma slot_table_length: "slot_table n t \<Longrightarrow> length t = n"
  unfolding slot_table_def by (metis length_map length_upt size_mset minus_nat.diff_0)

lemma slots_of_nat: "\<forall>k \<in> set ks. k < 2 ^ 31 \<Longrightarrow> slots (map of_nat ks) = ks"
  by (induction ks) (auto simp: slots_def sint_small_int)

lemma slot_table_mset:
  assumes "slot_table n t" "n \<le> 2 ^ 31"
  shows "mset (slots t) = mset [0..<n]"
proof -
  have "mset (slots t) = image_mset (\<lambda>v. nat (sint v)) (mset t)" by (simp add: slots_def)
  also have "\<dots> = mset (slots (map of_nat [0..<n]))"
    by (simp only: slots_def mset_map assms(1) [unfolded slot_table_def])
  also have "\<dots> = mset [0..<n]" using assms(2) by (subst slots_of_nat) auto
  finally show ?thesis .
qed

lemma slot_table_slots:
  assumes "slot_table n t" "n \<le> 2 ^ 31"
  shows "distinct (slots t)" "set (slots t) = {..<n}" "length (slots t) = n" "t = map of_nat (slots t)"
proof -
  show "distinct (slots t)" "set (slots t) = {..<n}"
    using slot_table_mset [OF assms]
    by (metis distinct_upt mset_eq_imp_distinct_iff, metis lessThan_atLeast0 mset_eq_setD set_upt)
  show "length (slots t) = n" using assms(1) by (simp add: slot_table_length)
  have "set t = set (map of_nat [0..<n])"
    using assms(1) unfolding slot_table_def by (rule mset_eq_setD)
  then have "\<forall>v \<in> set t. of_nat (nat (sint v)) = v"
    using assms(2) by (auto simp: sint_small_int)
  then show "t = map of_nat (slots t)" by (simp add: slots_def map_idI)
qed

text \<open>The contract between the shuffle and the transformer that owns the table.\<close>

locale table_mixer =
  fixes mix :: "c_int list \<Rightarrow> size_t \<Rightarrow> world \<Rightarrow> (c_int list \<times> world) option"
  assumes mix_permutes:
    "length t = n \<Longrightarrow> 0 < n \<Longrightarrow> n \<le> 2 ^ 31 \<Longrightarrow>
       \<exists>t' k. mix t (of_nat n) w = Some (t', w\<lparr>nrand := k\<rparr>) \<and> mset t' = mset t"
begin

text \<open>Mixing keeps a slot table a slot table, however often it is done.\<close>

lemma mix_slot_table:
  assumes "slot_table n t" "0 < n" "n \<le> 2 ^ 31"
  shows "\<exists>t' k. mix t (of_nat n) w = Some (t', w\<lparr>nrand := k\<rparr>) \<and> slot_table n t'"
  using mix_permutes [of t n w] assms slot_table_length [OF assms(1)] by (auto simp: slot_table_def)

end

interpretation fy: table_mixer shuffle
proof
  fix t :: "c_int list" and n and w :: world
  assume "length t = n" "0 < n" "n \<le> 2 ^ 31"
  from shuffle_eq [OF this] shuffle_mset [OF this]
  show "\<exists>t' k. shuffle t (of_nat n) w = Some (t', w\<lparr>nrand := k\<rparr>) \<and> mset t' = mset t"
    by auto
qed

lemma slot_table_identity: "slot_table n (map of_nat [0..<n])"
  by (simp add: slot_table_def)

end
