(* ===== verification/Transform.thy ===== *)
theory Transform
  imports Errno Func Window Random_Shuffle
begin

text \<open>
  The transformer of \<open>src/src/transform.c\<close>: the state it keeps for each function and its
  operations, in the order of the source. DynamoRIO's decoder is not under \<open>src/\<close>; the record
  \<open>dr_api\<close> holds its functions as the code calls them, over an arbitrary type of instructions.

  Instruction objects and instruction sets are heap blocks, named by their addresses. A set's
  chain of instructions, linked through DynamoRIO's own pointers, is the list of its members;
  the lists of \<open>list.h\<close> are the sequences that theory \<open>List_Head\<close> shows them to implement. A
  set that was allocated but not yet initialised is \<open>None\<close>. The two loops that depend on the
  decoder's progress take fuel.
\<close>

type_synonym reg_id = nat

record 'i dr_api =
  dr_set_isa_mode :: bool
  dr_instr_size :: nat
  dr_decode :: "(ptr \<Rightarrow> byte) \<Rightarrow> ptr \<Rightarrow> uintptr \<Rightarrow> ptr \<times> 'i"
  dr_length :: "'i \<Rightarrow> c_int"
  dr_opcode :: "'i \<Rightarrow> int"
  dr_src_reg :: "'i \<Rightarrow> reg_id"
  dr_dst_reg :: "'i \<Rightarrow> reg_id"
  dr_encode :: "'i \<Rightarrow> uintptr \<Rightarrow> byte list option"
  OP_push :: int
  OP_pop :: int
  DR_REG_RBP :: reg_id

record 'i instr_set =
  set_ptr :: ptr
  set_start :: uintptr
  set_end :: uintptr
  nr_instrs :: size_t
  instrs :: "(ptr \<times> 'i) list"

record 'i transformable =
  tf_ptr :: ptr
  tf_record :: func
  prologue :: "'i instr_set"
  epilogues :: "'i instr_set list"
  tf_order :: "(ptr \<times> c_int list) option"

record 'i transform =
  tr_ptr :: ptr
  transformables :: "'i transformable list"

definition sizeof_instr_set :: nat where "sizeof_instr_set = 48"
definition sizeof_transformable :: nat where "sizeof_transformable = 104"
definition sizeof_transform :: nat where "sizeof_transform = 16"
definition offset_prologue :: size_t where "offset_prologue = 32"

section \<open>Instruction objects\<close>

definition instr_create :: "'i dr_api \<Rightarrow> world \<Rightarrow> ptr \<times> world" where
  "instr_create api w = rave_malloc (dr_instr_size api) w"

definition instr_destroy :: "ptr \<Rightarrow> world \<Rightarrow> world option" where
  "instr_destroy p w = rave_free p w"

text \<open>Following the link of an object reads the object.\<close>

definition instr_touch :: "ptr \<Rightarrow> world \<Rightarrow> world" where
  "instr_touch p w = (if is_live w p then w else log_fault (Use_After_Free p) w)"

section \<open>Creating and closing\<close>

definition instr_set_create :: "world \<Rightarrow> ptr \<times> world" where
  "instr_set_create w = rave_malloc sizeof_instr_set w"

definition instr_set_destroy :: "ptr \<Rightarrow> world \<Rightarrow> world option" where
  "instr_set_destroy self w = (if self \<noteq> NULL then rave_free self w else Some w)"

definition transformable_create :: "world \<Rightarrow> ptr \<times> world" where
  "transformable_create w = rave_malloc sizeof_transformable w"

definition transformable_destroy :: "ptr \<Rightarrow> world \<Rightarrow> world option" where
  "transformable_destroy self w = (if self \<noteq> NULL then rave_free self w else Some w)"

definition fresh_instr_set :: "ptr \<Rightarrow> uintptr \<Rightarrow> 'i instr_set" where
  "fresh_instr_set self og =
     \<lparr>set_ptr = self, set_start = og, set_end = og, nr_instrs = 0, instrs = []\<rparr>"

definition instr_set_init :: "ptr \<Rightarrow> 'i instr_set option \<Rightarrow> uintptr \<Rightarrow> 'i instr_set option" where
  "instr_set_init self contents og =
     (if self = NULL then contents else Some (fresh_instr_set self og))"

fun close_chain :: "(ptr \<times> 'i) list \<Rightarrow> world \<Rightarrow> world option" where
  "close_chain [] w = Some w"
| "close_chain ((p, i) # rest) w =
     do { w1 \<leftarrow> instr_destroy p w; close_chain rest (instr_touch p w1) }"

definition instr_set_close ::
  "ptr \<Rightarrow> 'i instr_set option \<Rightarrow> world \<Rightarrow> ('i instr_set option \<times> world) option" where
  "instr_set_close self contents w =
     (if self = NULL then Some (contents, w)
      else
        case contents of
          None \<Rightarrow> None
        | Some s \<Rightarrow> do { w1 \<leftarrow> close_chain (instrs s) w; Some (Some (s\<lparr>instrs := []\<rparr>), w1) })"

text \<open>The prologue's set lies inside the transformable, so its address is never \<open>NULL\<close>.\<close>

definition transformable_init :: "ptr \<Rightarrow> func \<Rightarrow> 'i transformable" where
  "transformable_init self rec =
     \<lparr>tf_ptr = self, tf_record = rec,
      prologue = fresh_instr_set (self + offset_prologue) (faddr rec),
      epilogues = [], tf_order = None\<rparr>"

fun close_epilogues :: "'i instr_set list \<Rightarrow> world \<Rightarrow> world option" where
  "close_epilogues [] w = Some w"
| "close_epilogues (s # rest) w =
     do { (_, w1) \<leftarrow> instr_set_close (set_ptr s) (Some s) w;
          w2 \<leftarrow> instr_set_destroy (set_ptr s) w1;
          close_epilogues rest w2 }"

definition transformable_close :: "'i transformable \<Rightarrow> world \<Rightarrow> ('i transformable \<times> world) option" where
  "transformable_close self w =
     do { w1 \<leftarrow> close_chain (instrs (prologue self)) w;
          let self1 = self\<lparr>prologue := (prologue self)\<lparr>instrs := []\<rparr>\<rparr>;
          w2 \<leftarrow> close_epilogues (epilogues self1) w1;
          let self2 = self1\<lparr>epilogues := []\<rparr>;
          w3 \<leftarrow> (case tf_order self2 of None \<Rightarrow> Some w2 | Some (p, _) \<Rightarrow> rave_free p w2);
          Some (self2, w3) }"

definition transform_create :: "world \<Rightarrow> ptr \<times> world" where
  "transform_create w = rave_malloc sizeof_transform w"

definition transform_destroy :: "ptr \<Rightarrow> world \<Rightarrow> world option" where
  "transform_destroy self w = (if self \<noteq> NULL then rave_free self w else Some w)"

definition transform_init ::
  "'i dr_api \<Rightarrow> 'i transform option \<Rightarrow> rave_errno \<times> 'i transform option" where
  "transform_init api self =
     (case self of
        None \<Rightarrow> (RAVE_EINVAL, None)
      | Some t \<Rightarrow>
          if \<not> dr_set_isa_mode api then (RAVE_ETRANSFORM, Some t)
          else (RAVE_SUCCESS, Some (t\<lparr>transformables := []\<rparr>)))"

fun close_transformables :: "'i transformable list \<Rightarrow> world \<Rightarrow> world option" where
  "close_transformables [] w = Some w"
| "close_transformables (tf # rest) w =
     do { (_, w1) \<leftarrow> transformable_close tf w; close_transformables rest w1 }"

definition transform_close ::
  "'i transform option \<Rightarrow> world \<Rightarrow> (rave_errno \<times> 'i transform option \<times> world) option" where
  "transform_close self w =
     (case self of
        None \<Rightarrow> Some (RAVE_EINVAL, None, w)
      | Some t \<Rightarrow>
          do { w1 \<leftarrow> close_transformables (transformables t) w;
               Some (RAVE_SUCCESS, Some (t\<lparr>transformables := []\<rparr>), w1) })"

section \<open>Finding instruction sets\<close>

definition test_instr_prologue :: "'i dr_api \<Rightarrow> 'i \<Rightarrow> bool" where
  "test_instr_prologue api i =
     (if dr_opcode api i \<noteq> OP_push api then False
      else if dr_src_reg api i = DR_REG_RBP api then False
      else True)"

definition test_instr_epilogue :: "'i dr_api \<Rightarrow> 'i \<Rightarrow> bool" where
  "test_instr_epilogue api i =
     (if dr_opcode api i \<noteq> OP_pop api then False
      else if dr_dst_reg api i = DR_REG_RBP api then False
      else True)"

text \<open>What a call of \<open>next_set\<close> hands back: status, \<open>*walk\<close>, \<open>*orig\<close> and the set.\<close>

type_synonym 'i scan = "rave_errno \<times> ptr \<times> uintptr \<times> 'i instr_set option"

definition next_set_done ::
  "ptr \<Rightarrow> uintptr \<Rightarrow> 'i instr_set \<Rightarrow> ptr \<Rightarrow> world \<Rightarrow> ('i scan \<times> world) option" where
  "next_set_done walk og is instr w =
     do { w1 \<leftarrow> instr_destroy instr w; Some ((RAVE_SUCCESS, walk, og, Some is), w1) }"

definition next_set_err ::
  "rave_errno \<Rightarrow> ptr \<Rightarrow> uintptr \<Rightarrow> 'i instr_set \<Rightarrow> ptr \<Rightarrow> world \<Rightarrow> ('i scan \<times> world) option" where
  "next_set_err ret walk og is instr w =
     do { w1 \<leftarrow> (if instr \<noteq> NULL then instr_destroy instr w else Some w);
          (is1, w2) \<leftarrow> instr_set_close (set_ptr is) (Some is) w1;
          Some ((ret, walk, og, is1), w2) }"

fun next_set_loop ::
  "nat \<Rightarrow> 'i dr_api \<Rightarrow> ('i \<Rightarrow> bool) option \<Rightarrow> ptr \<Rightarrow> ptr \<Rightarrow> uintptr \<Rightarrow> 'i instr_set \<Rightarrow> ptr \<Rightarrow> world \<Rightarrow>
     ('i scan \<times> world) option" where
  "next_set_loop 0 api test_instr limit walk og is instr w = None"
| "next_set_loop (Suc fuel) api test_instr limit walk og is instr w =
     (if walk < limit then
        let (walk1, i) = dr_decode api (mem w) walk og;
            instr_len = dr_length api i
        in if walk1 = NULL then next_set_err RAVE_ETRANSFORM walk1 og is instr w
        else
          let og1 = og + int_to_size instr_len
          in if (case test_instr of None \<Rightarrow> True | Some t \<Rightarrow> t i) then
            let is1 = is\<lparr>nr_instrs := nr_instrs is + 1, set_end := og1,
                           instrs := instrs is @ [(instr, i)]\<rparr>;
                (instr1, w1) = instr_create api w
            in if instr1 = NULL then next_set_err RAVE_ENOMEM walk1 og1 is1 NULL w1
            else next_set_loop fuel api test_instr limit walk1 og1 is1 instr1 w1
          else if nr_instrs is \<noteq> 0 then next_set_done walk1 og1 is instr w
          else next_set_loop fuel api test_instr limit walk1 og1
                 (is\<lparr>set_start := og1, set_end := og1\<rparr>) instr w
      else next_set_done walk og is instr w)"

definition next_set ::
  "nat \<Rightarrow> 'i dr_api \<Rightarrow> ptr \<Rightarrow> ptr \<Rightarrow> uintptr \<Rightarrow> ptr \<Rightarrow> 'i instr_set option \<Rightarrow> ('i \<Rightarrow> bool) option \<Rightarrow>
     world \<Rightarrow> ('i scan \<times> world) option" where
  "next_set fuel api walk limit og self contents test_instr w =
     (let (instr, w1) = instr_create api w
      in if instr = NULL then Some ((RAVE_ENOMEM, walk, og, contents), w1)
      else
        case instr_set_init self contents og of
          None \<Rightarrow> None
        | Some is \<Rightarrow> next_set_loop fuel api test_instr limit walk og is instr w1)"

text \<open>
  The register table of the prologue is read from its end while the chain of the candidate is
  followed from its start.
\<close>

fun regs_match :: "'i dr_api \<Rightarrow> reg_id list \<Rightarrow> int \<Rightarrow> (ptr \<times> 'i) list \<Rightarrow> bool" where
  "regs_match api regs k [] = True"
| "regs_match api regs k ((p, i) # rest) =
     (if arr_get regs k \<noteq> Some (dr_dst_reg api i) then False else regs_match api regs (k - 1) rest)"

definition is_epilogue :: "'i dr_api \<Rightarrow> 'i instr_set \<Rightarrow> 'i instr_set \<Rightarrow> bool" where
  "is_epilogue api pro epi =
     (if nr_instrs pro \<noteq> nr_instrs epi then False
      else
        let regs = map (\<lambda>(p, i). dr_src_reg api i) (instrs pro)
        in regs_match api regs (int (length regs) - 1) (instrs epi))"

section \<open>Adding a function\<close>

text \<open>
  The loop over the rest of the function. The set under construction is its address (\<open>NULL\<close> when
  there is none) and its contents (\<open>None\<close> before the first \<open>next_set\<close>). The line
  \<open>orig += set->end - set->start\<close> follows every call of \<open>next_set\<close>, as in the source.
\<close>

type_synonym 'i hunt = "rave_errno \<times> ptr \<times> 'i transformable \<times> ptr \<times> 'i instr_set option"

fun find_epilogues ::
  "nat \<Rightarrow> nat \<Rightarrow> 'i dr_api \<Rightarrow> ptr \<Rightarrow> ptr \<Rightarrow> uintptr \<Rightarrow> 'i transformable \<Rightarrow> ptr \<Rightarrow> 'i instr_set option \<Rightarrow>
     world \<Rightarrow> ('i hunt \<times> world) option" where
  "find_epilogues 0 inner api limit walk og tf is contents w = None"
| "find_epilogues (Suc fuel) inner api limit walk og tf is contents w =
     (if walk < limit then
        do { ((rc, walk1, og1, contents1), w1) \<leftarrow>
               next_set inner api walk limit og is contents (Some (test_instr_epilogue api)) w;
             if rc \<noteq> RAVE_SUCCESS then Some ((rc, walk1, tf, is, contents1), w1)
             else
               case contents1 of
                 None \<Rightarrow> None
               | Some s \<Rightarrow>
                   let og2 = og1 + (set_end s - set_start s)
                   in if is_epilogue api (prologue tf) s then
                     let tf1 = tf\<lparr>epilogues := epilogues tf @ [s]\<rparr>;
                         (is2, w2) = instr_set_create w1
                     in if is2 = NULL then Some ((RAVE_ENOMEM, walk1, tf1, NULL, None), w2)
                     else find_epilogues fuel inner api limit walk1 og2 tf1 is2 None w2
                   else
                     do { (contents2, w2) \<leftarrow> instr_set_close is (Some s) w1;
                          find_epilogues fuel inner api limit walk1 og2 tf is contents2 w2 } }
      else Some ((RAVE_SUCCESS, walk, tf, is, contents), w))"

text \<open>The cleanup at the label \<open>err\<close>.\<close>

definition add_function_err ::
  "rave_errno \<Rightarrow> 'i transformable \<Rightarrow> ptr \<Rightarrow> 'i instr_set option \<Rightarrow> 'i transform \<Rightarrow> world \<Rightarrow>
     (rave_errno \<times> 'i transform \<times> world) option" where
  "add_function_err ret tf is contents self w =
     do { (_, w1) \<leftarrow> instr_set_close is contents w;
          w2 \<leftarrow> instr_set_destroy is w1;
          (_, w3) \<leftarrow> transformable_close tf w2;
          w4 \<leftarrow> transformable_destroy (tf_ptr tf) w3;
          Some (ret, self, w4) }"

definition identity_order :: "size_t \<Rightarrow> c_int list" where
  "identity_order n = map (\<lambda>i. size_to_int (of_nat i)) [0..<unat n]"

definition transform_add_function ::
  "nat \<Rightarrow> 'i dr_api \<Rightarrow> 'i transform \<Rightarrow> func \<Rightarrow> ptr \<Rightarrow> world \<Rightarrow> (rave_errno \<times> 'i transform \<times> world) option" where
  "transform_add_function fuel api self rec bytes w =
     (let walk = bytes;
          limit = OFFSET walk (flen rec);
          og = faddr rec;
          (tp, w1) = transformable_create w
      in if tp = NULL then Some (RAVE_ENOMEM, self, w1)
      else
        let tf = transformable_init tp rec
        in do { ((rc, walk1, og1, pro), w2) \<leftarrow>
                  next_set fuel api walk limit og (set_ptr (prologue tf)) (Some (prologue tf))
                    (Some (test_instr_prologue api)) w1;
                if rc \<noteq> RAVE_SUCCESS then Some (rc, self, w2)
                else
                  case pro of
                    None \<Rightarrow> None
                  | Some p \<Rightarrow>
                      let tf1 = tf\<lparr>prologue := p\<rparr>
                      in if nr_instrs p < 2 then add_function_err RAVE_ETRANSFORM tf1 NULL None self w2
                      else
                        let (op, w3) = rave_malloc (unat (4 * nr_instrs p)) w2
                        in if op = NULL then add_function_err RAVE_ENOMEM tf1 NULL None self w3
                        else
                          let tf2 = tf1\<lparr>tf_order := Some (op, identity_order (nr_instrs p))\<rparr>;
                              (is, w4) = instr_set_create w3
                          in if is = NULL then add_function_err RAVE_ENOMEM tf2 NULL None self w4
                          else
                            do { ((rc2, walk2, tf3, is2, contents2), w5) \<leftarrow>
                                   find_epilogues fuel fuel api limit walk1 og1 tf2 is None w4;
                                 if rc2 \<noteq> RAVE_SUCCESS
                                 then add_function_err rc2 tf3 is2 contents2 self w5
                                 else
                                   do { w6 \<leftarrow> instr_set_destroy is2 w5;
                                        if walk2 \<noteq> limit
                                        then add_function_err RAVE_ETRANSFORM tf3 NULL None self w6
                                        else if epilogues tf3 = []
                                        then add_function_err RAVE_ETRANSFORM tf3 NULL None self w6
                                        else Some (RAVE_SUCCESS,
                                               self\<lparr>transformables := transformables self @ [tf3]\<rparr>,
                                               w6) } } })"

section \<open>Encoding\<close>

fun encode_chain ::
  "'i dr_api \<Rightarrow> uintptr \<Rightarrow> ptr \<Rightarrow> uintptr \<Rightarrow> (ptr \<times> 'i) list \<Rightarrow> world \<Rightarrow> (rave_errno \<times> world) option" where
  "encode_chain api set_limit walk og [] w = Some (RAVE_SUCCESS, w)"
| "encode_chain api set_limit walk og ((p, i) # rest) w =
     (case dr_encode api i og of
        None \<Rightarrow> Some (RAVE_ETRANSFORM, w)
      | Some bs \<Rightarrow>
          do { w1 \<leftarrow> store_bytes walk bs w;
               let walk1 = walk + of_nat (length bs);
               let og1 = og + (walk1 - walk);
               if og1 > set_limit then Some (RAVE_ETRANSFORM, w1)
               else encode_chain api set_limit walk1 og1 rest w1 })"

definition instr_set_encode ::
  "'i dr_api \<Rightarrow> 'i instr_set \<Rightarrow> ptr \<Rightarrow> world \<Rightarrow> (rave_errno \<times> world) option" where
  "instr_set_encode api is target w =
     encode_chain api (set_end is) target (set_start is) (instrs is) w"

text \<open>The local table of the intended order: \<open>None\<close> is a slot that nothing was stored to.\<close>

fun fill_slots ::
  "c_int list \<Rightarrow> nat \<Rightarrow> (ptr \<times> 'i) list \<Rightarrow> (ptr \<times> 'i) option list \<Rightarrow> (ptr \<times> 'i) option list option" where
  "fill_slots order i [] table = Some table"
| "fill_slots order i (x # rest) table =
     do { k \<leftarrow> arr_get order (int i);
          table1 \<leftarrow> arr_set table (sint k) (Some x);
          fill_slots order (Suc i) rest table1 }"

text \<open>
  The loop reads the table once more after its last entry, one past the end of the array; the
  value is not used.
\<close>

fun encode_slots ::
  "'i dr_api \<Rightarrow> nat \<Rightarrow> uintptr \<Rightarrow> ptr \<Rightarrow> uintptr \<Rightarrow> (ptr \<times> 'i) option list \<Rightarrow> world \<Rightarrow>
     (rave_errno \<times> world) option" where
  "encode_slots api n set_limit walk og [] w = Some (RAVE_SUCCESS, w)"
| "encode_slots api n set_limit walk og (None # rest) w = None"
| "encode_slots api n set_limit walk og (Some (p, i) # rest) w =
     (case dr_encode api i og of
        None \<Rightarrow> Some (RAVE_ETRANSFORM, w)
      | Some bs \<Rightarrow>
          do { w1 \<leftarrow> store_bytes walk bs w;
               let walk1 = walk + of_nat (length bs);
               let og1 = og + (walk1 - walk);
               if og1 > set_limit then Some (RAVE_ETRANSFORM, w1)
               else
                 encode_slots api n set_limit walk1 og1 rest
                   (if rest = [] then log_fault (Read_Past_End n) w1 else w1) })"

definition instr_set_encode_order ::
  "'i dr_api \<Rightarrow> 'i instr_set \<Rightarrow> ptr \<Rightarrow> c_int list \<Rightarrow> world \<Rightarrow> (rave_errno \<times> world) option" where
  "instr_set_encode_order api is target order w =
     (let n = unat (nr_instrs is)
      in do { table \<leftarrow> fill_slots order 0 (instrs is) (replicate n None);
              encode_slots api n (set_end is) target (set_start is) table
                (if n = 0 then log_fault (Read_Past_End 0) w else w) })"

section \<open>Permuting\<close>

definition epilogue_order :: "size_t \<Rightarrow> c_int list \<Rightarrow> c_int list option" where
  "epilogue_order nr_slots order =
     those (map (\<lambda>i. map_option (\<lambda>v. size_to_int ((nr_slots - 1) - int_to_size v))
                   (arr_get order (int (unat ((nr_slots - 1) - of_nat i)))))
             [0..<unat nr_slots])"

fun encode_epilogues ::
  "'i dr_api \<Rightarrow> window \<Rightarrow> c_int list \<Rightarrow> 'i instr_set list \<Rightarrow> world \<Rightarrow> (rave_errno \<times> world) option" where
  "encode_epilogues api fw eorder [] w = Some (RAVE_SUCCESS, w)"
| "encode_epilogues api fw eorder (s # rest) w =
     do { (rc, w1) \<leftarrow>
            instr_set_encode_order api s (fst (window_view (Some fw) (set_start s))) eorder w;
          if rc \<noteq> RAVE_SUCCESS then Some (rc, w1)
          else encode_epilogues api fw eorder rest w1 }"

definition permute ::
  "'i dr_api \<Rightarrow> 'i transformable \<Rightarrow> window \<Rightarrow> world \<Rightarrow> (rave_errno \<times> 'i transformable \<times> world) option" where
  "permute api tf fw w =
     (let nr_slots = nr_instrs (prologue tf)
      in case tf_order tf of
           None \<Rightarrow> None
         | Some (op, order) \<Rightarrow>
             do { (order1, w1) \<leftarrow> shuffle order nr_slots w;
                  let tf1 = tf\<lparr>tf_order := Some (op, order1)\<rparr>;
                  let is = prologue tf1;
                  (rc, w2) \<leftarrow>
                    instr_set_encode_order api is (fst (window_view (Some fw) (set_start is))) order1 w1;
                  if rc \<noteq> RAVE_SUCCESS then Some (rc, tf1, w2)
                  else
                    do { eorder \<leftarrow> epilogue_order nr_slots order1;
                         (rc2, w3) \<leftarrow> encode_epilogues api fw eorder (epilogues tf1) w2;
                         Some (rc2, tf1, w3) } })"

definition function_window :: "window \<Rightarrow> func \<Rightarrow> window" where
  "function_window text rec =
     \<lparr>orig = faddr rec, data = fst (window_view (Some text) (faddr rec)), wlength = flen rec\<rparr>"

fun permute_list ::
  "'i dr_api \<Rightarrow> window \<Rightarrow> 'i transformable list \<Rightarrow> world \<Rightarrow>
     (rave_errno \<times> 'i transformable list \<times> world) option" where
  "permute_list api text [] w = Some (RAVE_SUCCESS, [], w)"
| "permute_list api text (tf # rest) w =
     do { (rc, tf1, w1) \<leftarrow> permute api tf (function_window text (tf_record tf)) w;
          if rc \<noteq> RAVE_SUCCESS then Some (rc, tf1 # rest, w1)
          else
            do { (rc2, rest1, w2) \<leftarrow> permute_list api text rest w1;
                 Some (rc2, tf1 # rest1, w2) } }"

definition transform_permute_all ::
  "'i dr_api \<Rightarrow> 'i transform option \<Rightarrow> window option \<Rightarrow> world \<Rightarrow>
     (rave_errno \<times> 'i transform option \<times> world) option" where
  "transform_permute_all api self text w =
     (case (self, text) of
        (Some t, Some tw) \<Rightarrow>
          do { (rc, tfs, w1) \<leftarrow> permute_list api tw (transformables t) w;
               Some (rc, Some (t\<lparr>transformables := tfs\<rparr>), w1) }
      | _ \<Rightarrow> Some (RAVE_EINVAL, self, w))"

end
