(* ===== verification/Slot_Order.thy ===== *)
theory Slot_Order
  imports Transform
begin

text \<open>
  How the transformer's tables place instructions. \<open>arrange p xs\<close> puts element \<open>i\<close> of \<open>xs\<close> into
  slot \<open>p ! i\<close>, which is what the local table of \<open>instr_set_encode_order\<close> does with a slot
  table; \<open>mirror n p\<close> is the table \<open>permute\<close> derives for the epilogues. The central fact is
  \<open>arrange_mirror\<close>: arranging the reversed list by the mirrored table reverses the arrangement,
  so pops stay the mirror image of the pushes.
\<close>

section \<open>Arrangements\<close>

definition slot_index :: "nat list \<Rightarrow> nat \<Rightarrow> nat" where
  "slot_index p k = length (takeWhile (\<lambda>v. v \<noteq> k) p)"

definition arrange :: "nat list \<Rightarrow> 'a list \<Rightarrow> 'a list" where
  "arrange p xs = map (\<lambda>k. xs ! slot_index p k) [0..<length xs]"

definition mirror :: "nat \<Rightarrow> nat list \<Rightarrow> nat list" where
  "mirror n p = map (\<lambda>i. n - 1 - p ! (n - 1 - i)) [0..<n]"

definition slot_perm :: "nat \<Rightarrow> nat list \<Rightarrow> bool" where
  "slot_perm n p \<longleftrightarrow> length p = n \<and> distinct p \<and> set p = {..<n}"

lemma length_arrange [simp]: "length (arrange p xs) = length xs"
  by (simp add: arrange_def)

lemma length_mirror [simp]: "length (mirror n p) = n"
  by (simp add: mirror_def)

lemma slot_permD:
  assumes "slot_perm n p"
  shows "length p = n" "distinct p" "i < n \<Longrightarrow> p ! i < n" "k < n \<Longrightarrow> \<exists>i < n. p ! i = k"
proof -
  have p: "length p = n" "distinct p" "set p = {..<n}" using assms by (simp_all add: slot_perm_def)
  then show "length p = n" "distinct p" by blast+
  show "p ! i < n" if "i < n" using nth_mem [of i p] p that by simp
  show "\<exists>i < n. p ! i = k" if "k < n"
    using p that in_set_conv_nth [of k p] by auto
qed

lemma slot_index_nth:
  assumes "distinct p" "i < length p"
  shows "slot_index p (p ! i) = i"
proof -
  have "takeWhile (\<lambda>v. v \<noteq> p ! i) p = take i p"
  proof (rule takeWhile_eq_take_P_nth)
    show "p ! j \<noteq> p ! i" if "j < i" "j < length p" for j
      using assms that by (simp add: nth_eq_iff_index_eq)
  qed (use assms in simp)
  then show ?thesis using assms(2) by (simp add: slot_index_def)
qed

lemma arrange_nth:
  assumes "slot_perm (length xs) p" "i < length xs"
  shows "arrange p xs ! (p ! i) = xs ! i"
  using assms slot_permD [OF assms(1)] by (simp add: arrange_def slot_index_nth)

text \<open>A list that has every element in its slot is the arrangement.\<close>

lemma arrangeI:
  assumes "slot_perm (length xs) p" "length ys = length xs"
    and "\<And>i. i < length xs \<Longrightarrow> ys ! (p ! i) = xs ! i"
  shows "ys = arrange p xs"
proof (rule nth_equalityI)
  fix k
  assume "k < length ys"
  then obtain i where "i < length xs" "p ! i = k"
    using slot_permD(4) [OF assms(1), of k] assms(2) by auto
  then show "ys ! k = arrange p xs ! k"
    using assms arrange_nth by metis
qed (use assms in simp)

lemma mset_arrange:
  assumes "slot_perm (length xs) p"
  shows "mset (arrange p xs) = mset xs"
proof -
  let ?f = "\<lambda>k. xs ! slot_index p k"
  have "mset [0..<length xs] = mset p"
    using assms set_eq_iff_mset_eq_distinct [of "[0..<length xs]" p]
    by (simp add: slot_perm_def lessThan_atLeast0)
  then have "mset (arrange p xs) = mset (map ?f p)"
    unfolding arrange_def mset_map by simp
  also have "map ?f p = xs"
    using assms by (intro nth_equalityI) (simp_all add: slot_permD slot_index_nth)
  finally show ?thesis .
qed

lemma arrange_map: "slot_perm (length xs) p \<Longrightarrow> arrange p (map f xs) = map f (arrange p xs)"
  by (rule sym, rule arrangeI) (simp_all add: slot_permD arrange_nth)

section \<open>The epilogue's order\<close>

lemma flip_index_inj: "x < n \<Longrightarrow> y < n \<Longrightarrow> n - 1 - x = n - 1 - y \<Longrightarrow> x = (y :: nat)"
  by simp

lemma mirror_perm:
  assumes "slot_perm n p"
  shows "slot_perm n (mirror n p)"
proof -
  have inj: "inj_on (\<lambda>i. n - 1 - p ! (n - 1 - i)) {..<n}"
  proof (rule inj_onI)
    fix i j
    assume a: "i \<in> {..<n}" "j \<in> {..<n}" "n - 1 - p ! (n - 1 - i) = n - 1 - p ! (n - 1 - j)"
    have "p ! (n - 1 - i) < n" "p ! (n - 1 - j) < n"
      using a(1,2) by (simp_all add: slot_permD(3) [OF assms])
    with a(3) have "p ! (n - 1 - i) = p ! (n - 1 - j)" by (blast intro: flip_index_inj)
    moreover have "n - 1 - i < length p" "n - 1 - j < length p"
      using a(1,2) by (simp_all add: slot_permD(1) [OF assms])
    ultimately have "n - 1 - i = n - 1 - j"
      using nth_eq_iff_index_eq [OF slot_permD(2) [OF assms]] by blast
    then show "i = j" using a(1,2) unfolding lessThan_iff by (blast intro: flip_index_inj)
  qed
  then have d: "distinct (mirror n p)"
    unfolding mirror_def distinct_map by (simp add: lessThan_atLeast0)
  have "set (mirror n p) = {..<n}"
  proof (rule card_subset_eq)
    show "set (mirror n p) \<subseteq> {..<n}" by (auto simp: mirror_def)
  qed (use distinct_card [OF d] in simp_all)
  with d show ?thesis
    unfolding slot_perm_def by simp
qed

lemma arrange_mirror:
  assumes "slot_perm (length xs) p"
  shows "arrange (mirror (length xs) p) (rev xs) = rev (arrange p xs)"
proof (rule sym, rule arrangeI)
  let ?n = "length xs"
  fix i
  assume i: "i < length (rev xs)"
  let ?j = "?n - 1 - i"
  have j: "?j < ?n" "p ! ?j < ?n" using i slot_permD(3) [OF assms] by simp_all
  have "rev (arrange p xs) ! (mirror ?n p ! i) = rev (arrange p xs) ! (?n - 1 - p ! ?j)"
    using i by (simp add: mirror_def)
  also have "\<dots> = arrange p xs ! (p ! ?j)"
    using j by (simp add: rev_nth Suc_diff_Suc)
  also have "\<dots> = xs ! ?j" using j arrange_nth [OF assms] by blast
  also have "\<dots> = rev xs ! i" using i by (simp add: rev_nth)
  finally show "rev (arrange p xs) ! (mirror ?n p ! i) = rev xs ! i" .
qed (use mirror_perm [OF assms] in simp_all)

section \<open>The tables of the code\<close>

lemma slot_table_perm: "slot_table n t \<Longrightarrow> n \<le> 2 ^ 31 \<Longrightarrow> slot_perm n (slots t)"
  using slot_table_slots by (simp add: slot_perm_def)

lemma slot_table_nth:
  assumes "slot_table n t" "n \<le> 2 ^ 31" "i < n"
  shows "t ! i = of_nat (slots t ! i)" "sint (t ! i) = int (slots t ! i)" "slots t ! i < n"
proof -
  show lt: "slots t ! i < n"
    using slot_permD(3) [OF slot_table_perm] assms by blast
  show eq: "t ! i = of_nat (slots t ! i)"
    using slot_table_slots(3,4) [OF assms(1,2)] assms(3) by (metis nth_map)
  show "sint (t ! i) = int (slots t ! i)"
    unfolding eq using lt assms(2) by (intro sint_small_int) simp
qed

text \<open>The local table is filled with every instruction in its slot.\<close>

lemma fill_slots_eq:
  assumes "slot_table n t" "n \<le> 2 ^ 31" "i + length xs = n" "length table = n"
  shows "\<exists>table'. fill_slots t i xs table = Some table' \<and> length table' = n \<and>
    (\<forall>j < n. table' ! (slots t ! j) = (if i \<le> j then Some (xs ! (j - i)) else table ! (slots t ! j)))"
  using assms(3,4)
proof (induction xs arbitrary: i table)
  case Nil
  then show ?case by auto
next
  case (Cons x xs)
  have i: "i < n" using Cons.prems by simp
  note nth = slot_table_nth [OF assms(1,2)]
  let ?table = "table[slots t ! i := Some x]"
  obtain table' where IH: "fill_slots t (Suc i) xs ?table = Some table'" "length table' = n"
    "\<forall>j < n. table' ! (slots t ! j) = (if Suc i \<le> j then Some (xs ! (j - Suc i)) else ?table ! (slots t ! j))"
    using Cons.IH [of "Suc i" ?table] Cons.prems by auto
  have step: "fill_slots t i (x # xs) table = Some table'"
    using IH(1) nth [OF i] i Cons.prems(2) slot_table_length [OF assms(1)] by simp
  have "table' ! (slots t ! j) =
      (if i \<le> j then Some ((x # xs) ! (j - i)) else table ! (slots t ! j))" if j: "j < n" for j
  proof (cases "Suc i \<le> j")
    case True
    then have "j - i = Suc (j - Suc i)" by simp
    then show ?thesis using IH(3) j True by simp
  next
    case False
    have "slots t ! j = slots t ! i \<longleftrightarrow> j = i"
      using slot_permD(1,2) [OF slot_table_perm [OF assms(1,2)]] i j by (simp add: nth_eq_iff_index_eq)
    then show ?thesis
      using False IH(3) j nth(3) [OF i] Cons.prems(2) by auto
  qed
  then show ?case using step IH(2) by blast
qed

lemma fill_slots_arrange:
  assumes "slot_table (length xs) t" "length xs \<le> 2 ^ 31"
  shows "fill_slots t 0 xs (replicate (length xs) None) = Some (map Some (arrange (slots t) xs))"
proof -
  obtain table where t: "fill_slots t 0 xs (replicate (length xs) None) = Some table"
    "length table = length xs" "\<forall>j < length xs. table ! (slots t ! j) = Some (xs ! j)"
    using fill_slots_eq [OF assms, of 0 xs "replicate (length xs) None"] by auto
  have p: "slot_perm (length (map Some xs)) (slots t)"
    using slot_table_perm [OF assms] by simp
  have "table = arrange (slots t) (map Some xs)"
    using t(2,3) by (intro arrangeI [OF p]) simp_all
  then show ?thesis
    using t(1) arrange_map p by (metis length_map)
qed

lemma those_map_Some: "those (map (\<lambda>x. Some (f x)) xs) = Some (map f xs)"
  by (induction xs) simp_all

lemma epilogue_order_eq:
  assumes "slot_table n t" "0 < n" "n \<le> 2 ^ 31"
  shows "epilogue_order (of_nat n) t = Some (map of_nat (mirror n (slots t)))"
proof -
  have n: "unat (of_nat n :: size_t) = n" using assms(3) by (intro unat_of_nat64) simp
  have one: "(of_nat n - 1 :: size_t) = of_nat (n - 1)" using assms(2) by simp
  have entry: "map_option (\<lambda>v. size_to_int ((of_nat n - 1) - int_to_size v))
      (arr_get t (int (unat ((of_nat n - 1 :: size_t) - of_nat i)))) =
      Some (of_nat (n - 1 - slots t ! (n - 1 - i)))" if i: "i < n" for i
  proof -
    have j: "n - 1 - i < n" using assms(2) by simp
    have sub: "(of_nat n - 1 :: size_t) - of_nat i = of_nat (n - 1 - i)"
      unfolding one using i by simp
    have u: "unat (of_nat (n - 1 - i) :: size_t) = n - 1 - i"
      using assms(3) by (intro unat_of_nat64) simp
    note nth = slot_table_nth [OF assms(1,3) j]
    have "int_to_size (t ! (n - 1 - i)) = of_nat (slots t ! (n - 1 - i))"
      unfolding nth(1) using nth(3) assms(3) by (intro int_to_size_of_nat) simp
    then have "(of_nat n - 1) - int_to_size (t ! (n - 1 - i)) =
        (of_nat (n - 1 - slots t ! (n - 1 - i)) :: size_t)"
      unfolding one using nth(3) by (simp add: of_nat_diff)
    then show ?thesis
      unfolding sub u using j slot_table_length [OF assms(1)] by (simp del: of_nat_diff)
  qed
  have "epilogue_order (of_nat n) t =
      those (map (\<lambda>i. Some (of_nat (n - 1 - slots t ! (n - 1 - i)))) [0..<n])"
    unfolding epilogue_order_def n by (intro arg_cong [of _ _ those] map_cong refl entry) simp
  then show ?thesis
    unfolding those_map_Some by (simp add: mirror_def comp_def)
qed

text \<open>The derived table is a slot table too.\<close>

lemma slot_table_of_perm:
  assumes "slot_perm n p"
  shows "slot_table n (map of_nat p)"
proof -
  have "mset p = mset [0..<n]"
    using assms set_eq_iff_mset_eq_distinct [of p "[0..<n]"] by (simp add: slot_perm_def lessThan_atLeast0)
  then show ?thesis
    unfolding slot_table_def by (metis mset_map)
qed

lemma slots_of_perm: "slot_perm n p \<Longrightarrow> n \<le> 2 ^ 31 \<Longrightarrow> slots (map of_nat p) = p"
  by (intro slots_of_nat) (auto simp: slot_perm_def)

lemma mirrored_table:
  assumes "slot_table n t" "n \<le> 2 ^ 31"
  shows "slot_table n (map of_nat (mirror n (slots t)))"
    "slots (map of_nat (mirror n (slots t))) = mirror n (slots t)"
  using mirror_perm [OF slot_table_perm [OF assms]] assms(2)
  by (simp_all add: slot_table_of_perm slots_of_perm)

lemma identity_order_table:
  assumes "n < 2 ^ 64"
  shows "identity_order (of_nat n) = map of_nat [0..<n]"
  using assms by (simp add: identity_order_def unat_of_nat)

end
