(* ===== verification/Transform_Encode.thy ===== *)
theory Transform_Encode
  imports Slot_Order
begin

text \<open>
  The encoding loops of \<open>transform.c\<close>. \<open>enc_seq\<close> is the byte string a sequence of
  instructions encodes to at consecutive addresses; \<open>encode_slots\<close> and \<open>encode_chain\<close> store
  exactly that string, provided it fits between the set's recorded start and end and the target
  lies in a live block.
\<close>

fun enc_seq :: "'i dr_api \<Rightarrow> uintptr \<Rightarrow> 'i list \<Rightarrow> byte list option" where
  "enc_seq api og [] = Some []"
| "enc_seq api og (i # rest) =
     (case dr_encode api i og of
        None \<Rightarrow> None
      | Some bs \<Rightarrow> map_option ((@) bs) (enc_seq api (og + of_nat (length bs)) rest))"

text \<open>The length in bytes of an instruction, as the decoder reports it.\<close>

definition ilen :: "'i dr_api \<Rightarrow> 'i \<Rightarrow> nat" where
  "ilen api i = unat (int_to_size (dr_length api i))"

definition isize :: "'i dr_api \<Rightarrow> 'i list \<Rightarrow> nat" where
  "isize api xs = sum_list (map (ilen api) xs)"

lemma isize_simps [simp]:
  "isize api [] = 0" "isize api (x # xs) = ilen api x + isize api xs"
  "isize api (xs @ ys) = isize api xs + isize api ys"
  by (simp_all add: isize_def)

lemma isize_mset: "mset xs = mset ys \<Longrightarrow> isize api xs = isize api ys"
  unfolding isize_def by (metis mset_map sum_mset_sum_list)

text \<open>
  The encoder keeps lengths: an instruction that was decoded encodes again, to as many bytes.
\<close>

definition dr_keeps_length :: "'i dr_api \<Rightarrow> 'i set \<Rightarrow> bool" where
  "dr_keeps_length api I \<longleftrightarrow> (\<forall>i \<in> I. \<forall>og. \<exists>bs. dr_encode api i og = Some bs \<and> length bs = ilen api i)"

lemma enc_seq_total:
  assumes "dr_keeps_length api I" "set xs \<subseteq> I"
  shows "\<exists>bs. enc_seq api og xs = Some bs \<and> length bs = isize api xs"
  using assms(2)
proof (induction xs arbitrary: og)
  case (Cons x xs)
  then have x: "x \<in> I" "set xs \<subseteq> I" by simp_all
  obtain b where b: "dr_encode api x og = Some b" "length b = ilen api x"
    using assms(1) x(1) unfolding dr_keeps_length_def by blast
  obtain bs where "enc_seq api (og + of_nat (length b)) xs = Some bs" "length bs = isize api xs"
    using Cons.IH [OF x(2)] by blast
  with b show ?case by simp
qed simp

lemma enc_seq_Cons_SomeE:
  assumes "enc_seq api og (i # rest) = Some bs"
  obtains b cs where "dr_encode api i og = Some b"
    "enc_seq api (og + of_nat (length b)) rest = Some cs" "bs = b @ cs"
  using assms by (auto split: option.splits)

section \<open>Blocks\<close>

lemma block_ok_split:
  assumes "block_ok bl p (m + n)" "m < 2 ^ 64"
  shows "block_ok bl p m" "block_ok bl (p + of_nat m) n"
proof -
  obtain b s where b: "(b, s) \<in> set bl" "unat (p - b) + (m + n) \<le> s"
    using assms(1) unfolding block_ok_def by blast
  then show "block_ok bl p m"
    unfolding block_ok_def by (intro bexI [of _ "(b, s)"]) simp_all
  have "unat (p + of_nat m - b) = unat ((p - b) + of_nat m)" by (simp add: algebra_simps)
  also have "\<dots> \<le> unat (p - b) + m"
    using assms(2) by (simp add: unat_word_ariths unat_of_nat)
  finally have "unat (p + of_nat m - b) + n \<le> s" using b(2) by linarith
  then show "block_ok bl (p + of_nat m) n"
    using b unfolding block_ok_def by (intro bexI [of _ "(b, s)"]) simp_all
qed

section \<open>The loops store the encoded string\<close>

text \<open>One step of either loop: the store succeeds and the check against the set's end passes.\<close>

lemma encode_step:
  fixes og limit :: uintptr and walk :: ptr
  assumes "unat og + length (b @ cs) \<le> unat limit" "block_ok bl walk (length (b @ cs))"
    and "length (b @ cs) < 2 ^ 64"
  shows "block_ok bl walk (length b)" "block_ok bl (walk + of_nat (length b)) (length cs)"
    "unat (og + of_nat (length b)) + length cs \<le> unat limit"
    "\<not> limit < og + of_nat (length b)"
    "mem_put (walk + of_nat (length b)) cs (mem_put walk b m) = mem_put walk (b @ cs) m"
proof -
  have lt: "length b < 2 ^ 64" using assms(3) unfolding length_append by linarith
  show "block_ok bl walk (length b)" "block_ok bl (walk + of_nat (length b)) (length cs)"
    using block_ok_split [OF _ lt] assms(2) by simp_all
  have "unat og + length b < 2 ^ 64"
    using assms(1) unat_lt64 [of limit] unfolding length_append by linarith
  from unat_add_of_nat [OF this]
  have og: "unat (og + of_nat (length b)) = unat og + length b" .
  then show "unat (og + of_nat (length b)) + length cs \<le> unat limit"
    using assms(1) by simp
  then show "\<not> limit < og + of_nat (length b)"
    unfolding word_less_nat_alt by linarith
  show "mem_put (walk + of_nat (length b)) cs (mem_put walk b m) = mem_put walk (b @ cs) m"
    using mem_put_append [of b cs walk m] assms(3) lt by simp
qed

lemma encode_slots_eq:
  assumes "enc_seq api og (map snd ys) = Some bs" "unat og + length bs \<le> unat limit"
    and "block_ok (live w) walk (length bs)" "length bs < 2 ^ 64"
  shows "encode_slots api n limit walk og (map Some ys) w =
    Some (RAVE_SUCCESS, w\<lparr>mem := mem_put walk bs (mem w),
      faults := faults w @ (if ys = [] then [] else [Read_Past_End n])\<rparr>)"
  using assms
proof (induction ys arbitrary: og bs walk w)
  case Nil
  then show ?case by simp
next
  case (Cons y ys)
  obtain p i where y: "y = (p, i)" by fastforce
  have "enc_seq api og (i # map snd ys) = Some bs"
    using Cons.prems(1) unfolding y by (simp del: enc_seq.simps)
  then obtain b cs where b: "dr_encode api i og = Some b"
    "enc_seq api (og + of_nat (length b)) (map snd ys) = Some cs" and bs: "bs = b @ cs"
    by (rule enc_seq_Cons_SomeE)
  note st = encode_step [OF Cons.prems(2-4) [unfolded bs]]
  let ?w1 = "w\<lparr>mem := mem_put walk b (mem w)\<rparr>"
  let ?w2 = "if map Some ys = [] then log_fault (Read_Past_End n) ?w1 else ?w1"
  have lv: "live ?w2 = live w" "mem ?w2 = mem_put walk b (mem w)"
    by (simp_all add: log_fault_def)
  have cs: "length cs < 2 ^ 64" using Cons.prems(4) unfolding bs length_append by linarith
  note IH = Cons.IH [OF b(2) st(3), of ?w2, unfolded lv, OF st(2) cs]
  have "encode_slots api n limit walk og (map Some (y # ys)) w =
      encode_slots api n limit (walk + of_nat (length b)) (og + of_nat (length b)) (map Some ys) ?w2"
    using b(1) st(1,4) unfolding y by (simp add: store_bytes_ok)
  also note IH
  finally show ?case unfolding bs st(5) [symmetric] by (simp add: log_fault_def)
qed

lemma encode_chain_eq:
  assumes "enc_seq api og (map snd ys) = Some bs" "unat og + length bs \<le> unat limit"
    and "block_ok (live w) walk (length bs)" "length bs < 2 ^ 64"
  shows "encode_chain api limit walk og ys w = Some (RAVE_SUCCESS, w\<lparr>mem := mem_put walk bs (mem w)\<rparr>)"
  using assms
proof (induction ys arbitrary: og bs walk w)
  case Nil
  then show ?case by simp
next
  case (Cons y ys)
  obtain p i where y: "y = (p, i)" by fastforce
  have "enc_seq api og (i # map snd ys) = Some bs"
    using Cons.prems(1) unfolding y by (simp del: enc_seq.simps)
  then obtain b cs where b: "dr_encode api i og = Some b"
    "enc_seq api (og + of_nat (length b)) (map snd ys) = Some cs" and bs: "bs = b @ cs"
    by (rule enc_seq_Cons_SomeE)
  note st = encode_step [OF Cons.prems(2-4) [unfolded bs]]
  let ?w1 = "w\<lparr>mem := mem_put walk b (mem w)\<rparr>"
  have lv: "live ?w1 = live w" "mem ?w1 = mem_put walk b (mem w)" by simp_all
  have cs: "length cs < 2 ^ 64" using Cons.prems(4) unfolding bs length_append by linarith
  note IH = Cons.IH [OF b(2) st(3), of ?w1, unfolded lv, OF st(2) cs]
  have "encode_chain api limit walk og (y # ys) w =
      encode_chain api limit (walk + of_nat (length b)) (og + of_nat (length b)) ys ?w1"
    using b(1) st(1,4) unfolding y by (simp add: store_bytes_ok)
  also note IH
  finally show ?case unfolding bs st(5) [symmetric] by simp
qed

end
