(* ===== verification/Stack_Machine.thy ===== *)
theory Stack_Machine
  imports Slot_Order
begin

text \<open>
  What the transformer must not break: the registers a function saves in its prologue come back
  in each epilogue. The machine here is the part of x86-64 that \<open>push\<close> and \<open>pop\<close> of a register
  act on, the registers and the stack above the saved area; between prologue and epilogue an
  arbitrary body runs that leaves the saved area alone.
\<close>

record machine =
  regs :: "reg_id \<Rightarrow> 64 word"
  stack :: "64 word list"

definition exec_push :: "reg_id \<Rightarrow> machine \<Rightarrow> machine" where
  "exec_push r s = s\<lparr>stack := regs s r # stack s\<rparr>"

fun exec_pop :: "reg_id \<Rightarrow> machine \<Rightarrow> machine option" where
  "exec_pop r s =
     (case stack s of
        [] \<Rightarrow> None
      | v # rest \<Rightarrow> Some (s\<lparr>regs := (regs s)(r := v), stack := rest\<rparr>))"

definition save_regs :: "reg_id list \<Rightarrow> machine \<Rightarrow> machine" where
  "save_regs rs s = fold exec_push rs s"

definition restore_regs :: "reg_id list \<Rightarrow> machine \<Rightarrow> machine option" where
  "restore_regs rs s = fold_opt exec_pop rs s"

lemma save_regs_eq: "save_regs rs s = s\<lparr>stack := rev (map (regs s) rs) @ stack s\<rparr>"
  unfolding save_regs_def
  by (induction rs arbitrary: s) (simp_all add: exec_push_def)

definition updates :: "reg_id list \<Rightarrow> 64 word list \<Rightarrow> (reg_id \<Rightarrow> 64 word) \<Rightarrow> reg_id \<Rightarrow> 64 word" where
  "updates rs vs = fold (\<lambda>(r, v) f. f(r := v)) (zip rs vs)"

lemma restore_regs_eq:
  assumes "length vs = length rs" "stack s = vs @ st"
  shows "restore_regs rs s = Some (s\<lparr>regs := updates rs vs (regs s), stack := st\<rparr>)"
  using assms
proof (induction rs vs arbitrary: s rule: list_induct2')
  case (4 r rs v vs)
  then show ?case
    using "4.IH" [of "s\<lparr>regs := (regs s)(r := v), stack := vs @ st\<rparr>"]
    by (simp add: restore_regs_def updates_def)
qed (simp_all add: restore_regs_def updates_def)

lemma updates_same: "updates rs (map g rs) f = (\<lambda>r. if r \<in> set rs then g r else f r)"
  unfolding updates_def by (induction rs arbitrary: f) (auto simp: fun_eq_iff)

lemma updates_nth:
  assumes "distinct rs" "length vs = length rs" "j < length rs"
  shows "updates rs vs f (rs ! j) = vs ! j"
  using assms
proof (induction rs vs arbitrary: f j rule: list_induct2')
  case (4 r rs v vs)
  have skip: "r \<notin> set rs \<Longrightarrow> updates rs vs g r = g r" for g
    unfolding updates_def by (induction rs vs arbitrary: g rule: list_induct2') auto
  show ?case
    using 4 skip [of "f(r := v)"] by (cases j) (auto simp: updates_def)
qed (simp_all add: updates_def)

text \<open>
  Saving in any order and restoring in the reverse order gives every saved register its value
  back and leaves the stack as it was, whatever the body did to the registers.
\<close>

lemma save_restore:
  assumes "stack s' = stack (save_regs rs s)"
  shows "\<exists>f. restore_regs (rev rs) s' = Some f \<and> stack f = stack s \<and>
    (\<forall>r. regs f r = (if r \<in> set rs then regs s r else regs s' r))"
proof -
  have "stack s' = map (regs s) (rev rs) @ stack s"
    using assms by (simp add: save_regs_eq rev_map)
  from restore_regs_eq [OF _ this, of "rev rs"] show ?thesis
    by (simp add: updates_same)
qed

text \<open>The reverse order is also the only one that works in every state.\<close>

lemma restore_needs_reverse:
  assumes "distinct qs" "set qs = set rs" "length qs = length rs"
    and restores: "\<And>s. \<exists>f. restore_regs qs (save_regs rs s) = Some f \<and> (\<forall>r \<in> set rs. regs f r = regs s r)"
  shows "qs = rev rs"
proof (rule nth_equalityI)
  fix j
  assume j: "j < length qs"
  define s where "s = \<lparr>regs = (\<lambda>r. if r = qs ! j then 1 else 0), stack = []\<rparr>"
  have "restore_regs qs (save_regs rs s) =
      Some ((save_regs rs s)\<lparr>regs := updates qs (rev (map (regs s) rs)) (regs s), stack := []\<rparr>)"
    using assms(3) by (subst restore_regs_eq [where st = "[]" and vs = "rev (map (regs s) rs)"])
      (simp_all add: save_regs_eq s_def)
  with restores [of s] have "updates qs (rev (map (regs s) rs)) (regs s) (qs ! j) = 1"
    using j assms(2) nth_mem [OF j] by (auto simp: s_def)
  then have "rev (map (regs s) rs) ! j = 1"
    using updates_nth [OF assms(1) _ j] assms(3) by (metis length_map length_rev)
  then have "regs s (rev rs ! j) = 1"
    using j assms(3) by (simp add: rev_map)
  then show "qs ! j = rev rs ! j" by (simp add: s_def split: if_splits)
qed (use assms in simp)

end
