(* ===== verification/Transform_Permute.thy ===== *)
theory Transform_Permute
  imports Transform_Encode Stack_Machine
begin

text \<open>
  What \<open>permute\<close> does to a function that \<open>transform_add_function\<close> has accepted: the
  functional description of the memory it leaves, the bytes it does not touch, and the meaning
  of the new code, which still restores every register it saves.
\<close>

abbreviation insns :: "'i instr_set \<Rightarrow> 'i list" where
  "insns s \<equiv> map snd (instrs s)"

section \<open>Well-formed sets and functions\<close>

definition set_wf :: "'i dr_api \<Rightarrow> 'i instr_set \<Rightarrow> bool" where
  "set_wf api s \<longleftrightarrow>
     length (instrs s) \<le> 2 ^ 31 \<and> nr_instrs s = of_nat (length (instrs s)) \<and>
     unat (set_end s) = unat (set_start s) + isize api (insns s)"

text \<open>A set that pops what the prologue pushed, in the reverse order.\<close>

definition mirrors :: "'i dr_api \<Rightarrow> 'i instr_set \<Rightarrow> 'i instr_set \<Rightarrow> bool" where
  "mirrors api pro epi \<longleftrightarrow> map (dr_dst_reg api) (insns epi) = rev (map (dr_src_reg api) (insns pro))"

definition tf_sets :: "'i transformable \<Rightarrow> 'i instr_set list" where
  "tf_sets tf = prologue tf # epilogues tf"

definition tf_slots :: "'i transformable \<Rightarrow> nat" where
  "tf_slots tf = length (instrs (prologue tf))"

definition tf_wf :: "'i dr_api \<Rightarrow> 'i transformable \<Rightarrow> bool" where
  "tf_wf api tf \<longleftrightarrow>
     2 \<le> tf_slots tf \<and> (\<forall>s \<in> set (tf_sets tf). set_wf api s) \<and>
     (\<forall>e \<in> set (epilogues tf). mirrors api (prologue tf) e) \<and>
     (\<exists>op t. tf_order tf = Some (op, t) \<and> slot_table (tf_slots tf) t)"

definition tf_insns :: "'i transformable \<Rightarrow> 'i set" where
  "tf_insns tf = (\<Union>s \<in> set (tf_sets tf). set (insns s))"

text \<open>A set's bytes lie in a window, and the window's bytes in a live block.\<close>

definition set_within :: "'i dr_api \<Rightarrow> window \<Rightarrow> 'i instr_set \<Rightarrow> bool" where
  "set_within api fw s \<longleftrightarrow>
     0 < isize api (insns s) \<and> orig fw \<le> set_start s \<and>
     unat (set_start s - orig fw) + isize api (insns s) \<le> unat (wlength fw)"

definition set_at :: "window \<Rightarrow> 'i instr_set \<Rightarrow> ptr" where
  "set_at fw s = data fw + (set_start s - orig fw)"

definition set_bytes :: "'i dr_api \<Rightarrow> nat list \<Rightarrow> 'i instr_set \<Rightarrow> byte list" where
  "set_bytes api p s = the (enc_seq api (set_start s) (arrange p (insns s)))"

lemma mirrors_length: "mirrors api pro epi \<Longrightarrow> length (instrs epi) = length (instrs pro)"
  unfolding mirrors_def by (drule arg_cong [where f = length]) simp

lemma tf_wfD:
  assumes "tf_wf api tf"
  shows "2 \<le> tf_slots tf" "tf_slots tf \<le> 2 ^ 31" "set_wf api (prologue tf)"
    "nr_instrs (prologue tf) = of_nat (tf_slots tf)"
    "e \<in> set (epilogues tf) \<Longrightarrow> set_wf api e \<and> length (instrs e) = tf_slots tf"
proof -
  show "2 \<le> tf_slots tf" "tf_slots tf \<le> 2 ^ 31" "set_wf api (prologue tf)"
    "nr_instrs (prologue tf) = of_nat (tf_slots tf)"
    using assms by (simp_all add: tf_wf_def tf_sets_def set_wf_def tf_slots_def)
  show "set_wf api e \<and> length (instrs e) = tf_slots tf" if "e \<in> set (epilogues tf)"
    using assms that mirrors_length [of api "prologue tf" e]
    by (simp add: tf_wf_def tf_sets_def tf_slots_def)
qed

lemma set_bytes_enc:
  assumes "dr_keeps_length api (set (insns s))" "slot_perm (length (instrs s)) p"
  shows "enc_seq api (set_start s) (arrange p (insns s)) = Some (set_bytes api p s)"
    "length (set_bytes api p s) = isize api (insns s)"
proof -
  have "mset (arrange p (insns s)) = mset (insns s)"
    using assms(2) by (intro mset_arrange) simp
  then have "set (arrange p (insns s)) \<subseteq> set (insns s)"
    "isize api (arrange p (insns s)) = isize api (insns s)"
    by (metis subset_refl mset_eq_setD, metis isize_mset)
  with enc_seq_total [OF assms(1)] obtain bs where
    "enc_seq api (set_start s) (arrange p (insns s)) = Some bs" "length bs = isize api (insns s)"
    by metis
  then show "enc_seq api (set_start s) (arrange p (insns s)) = Some (set_bytes api p s)"
    "length (set_bytes api p s) = isize api (insns s)"
    by (simp_all add: set_bytes_def)
qed

lemma isize_lt: "set_wf api s \<Longrightarrow> isize api (insns s) < 2 ^ 64"
  using unat_lt64 [of "set_end s"] unfolding set_wf_def by linarith

section \<open>One set\<close>

lemma encode_order_eq:
  assumes "set_wf api s" "instrs s \<noteq> []" "slot_table (length (instrs s)) t"
    and "dr_keeps_length api (set (insns s))" "block_ok (live w) target (isize api (insns s))"
  shows "instr_set_encode_order api s target t w =
    Some (RAVE_SUCCESS, w\<lparr>mem := mem_put target (set_bytes api (slots t) s) (mem w),
      faults := faults w @ [Read_Past_End (length (instrs s))]\<rparr>)"
proof -
  let ?n = "length (instrs s)"
  let ?ys = "arrange (slots t) (instrs s)"
  have n: "?n \<le> 2 ^ 31" "unat (nr_instrs s) = ?n"
    using assms(1) by (simp_all add: set_wf_def unat_of_nat)
  have p: "slot_perm ?n (slots t)" using slot_table_perm [OF assms(3) n(1)] .
  have ys: "map snd ?ys = arrange (slots t) (insns s)" "?ys \<noteq> []"
    using arrange_map [OF p, of snd] assms(2) length_arrange [of "slots t" "instrs s"] by force+
  note enc = set_bytes_enc [OF assms(4) p]
  have "encode_slots api ?n (set_end s) target (set_start s) (map Some ?ys) w =
      Some (RAVE_SUCCESS, w\<lparr>mem := mem_put target (set_bytes api (slots t) s) (mem w),
        faults := faults w @ [Read_Past_End ?n]\<rparr>)"
    using encode_slots_eq [of api "set_start s" ?ys "set_bytes api (slots t) s" "set_end s" w target ?n]
      enc ys assms(1,5) isize_lt [OF assms(1)]
    by (simp add: set_wf_def)
  then show ?thesis
    using fill_slots_arrange [OF assms(3) n(1)] assms(2) n(2)
    by (simp add: instr_set_encode_order_def)
qed

lemma window_view_set:
  assumes "window_ok fw" "set_within api fw s"
  shows "fst (window_view (Some fw) (set_start s)) = set_at fw s"
proof -
  have "unat (set_start s - orig fw) < unat (wlength fw)"
    using assms(2) unfolding set_within_def by linarith
  from window_view_inside [OF assms(1) this] show ?thesis
    unfolding set_at_def by simp
qed

lemma block_ok_mono: "block_ok bl p (m + n) \<Longrightarrow> block_ok bl p m"
proof -
  assume "block_ok bl p (m + n)"
  then obtain b k where "(b, k) \<in> set bl" "unat (p - b) + (m + n) \<le> k"
    unfolding block_ok_def by blast
  then show "block_ok bl p m"
    unfolding block_ok_def by (intro bexI [of _ "(b, k)"]) simp_all
qed

lemma block_ok_set:
  assumes "block_ok bl (data fw) (unat (wlength fw))" "set_within api fw s"
  shows "block_ok bl (set_at fw s) (isize api (insns s))"
proof -
  let ?d = "unat (set_start s - orig fw)"
  obtain k where "unat (wlength fw) = ?d + isize api (insns s) + k"
    using assms(2) unfolding set_within_def using le_Suc_ex by metis
  then have "block_ok bl (data fw) (?d + isize api (insns s))"
    using assms(1) block_ok_mono by metis
  from block_ok_split(2) [OF this] show ?thesis unfolding set_at_def by simp
qed

section \<open>The whole function\<close>

definition put_set :: "'i dr_api \<Rightarrow> window \<Rightarrow> nat list \<Rightarrow> 'i instr_set \<Rightarrow> (ptr \<Rightarrow> byte) \<Rightarrow> ptr \<Rightarrow> byte" where
  "put_set api fw p s = mem_put (set_at fw s) (set_bytes api p s)"

text \<open>The memory after a permutation by the slot table \<open>p\<close>.\<close>

definition permuted_mem ::
  "'i dr_api \<Rightarrow> window \<Rightarrow> nat list \<Rightarrow> 'i transformable \<Rightarrow> (ptr \<Rightarrow> byte) \<Rightarrow> ptr \<Rightarrow> byte" where
  "permuted_mem api fw p tf m =
     fold (put_set api fw (mirror (tf_slots tf) p)) (epilogues tf)
       (put_set api fw p (prologue tf) m)"

definition tf_placed :: "'i dr_api \<Rightarrow> window \<Rightarrow> 'i transformable \<Rightarrow> world \<Rightarrow> bool" where
  "tf_placed api fw tf w \<longleftrightarrow>
     window_ok fw \<and> block_ok (live w) (data fw) (unat (wlength fw)) \<and>
     (\<forall>s \<in> set (tf_sets tf). set_within api fw s)"

lemma encode_epilogues_eq:
  assumes "\<forall>s \<in> set ss. set_wf api s \<and> length (instrs s) = n \<and> set_within api fw s \<and>
      dr_keeps_length api (set (insns s))"
    and "slot_table n t" "0 < n" "window_ok fw" "block_ok (live w) (data fw) (unat (wlength fw))"
  shows "encode_epilogues api fw t ss w =
    Some (RAVE_SUCCESS, w\<lparr>mem := fold (put_set api fw (slots t)) ss (mem w),
      faults := faults w @ replicate (length ss) (Read_Past_End n)\<rparr>)"
  using assms(1,5)
proof (induction ss arbitrary: w)
  case Nil
  then show ?case by simp
next
  case (Cons s ss)
  then have s: "set_wf api s" "length (instrs s) = n" "set_within api fw s"
    "dr_keeps_length api (set (insns s))" by simp_all
  let ?w1 = "w\<lparr>mem := put_set api fw (slots t) s (mem w), faults := faults w @ [Read_Past_End n]\<rparr>"
  have "instr_set_encode_order api s (set_at fw s) t w = Some (RAVE_SUCCESS, ?w1)"
    using encode_order_eq [OF s(1) _ _ s(4), of t w "set_at fw s"] s(2) assms(2,3)
      block_ok_set [OF Cons.prems(2) s(3)] by (auto simp: put_set_def)
  moreover have "encode_epilogues api fw t ss ?w1 =
    Some (RAVE_SUCCESS, ?w1\<lparr>mem := fold (put_set api fw (slots t)) ss (mem ?w1),
      faults := faults ?w1 @ replicate (length ss) (Read_Past_End n)\<rparr>)"
    using Cons.prems by (intro Cons.IH) simp_all
  ultimately show ?case
    using window_view_set [OF assms(4) s(3)] by simp
qed

lemma dr_keeps_length_mono: "dr_keeps_length api J \<Longrightarrow> I \<subseteq> J \<Longrightarrow> dr_keeps_length api I"
  unfolding dr_keeps_length_def by blast

lemma tf_insns_sub: "s \<in> set (tf_sets tf) \<Longrightarrow> set (insns s) \<subseteq> tf_insns tf"
  unfolding tf_insns_def by blast

text \<open>The new table, and the reads past the local tables: one for each set.\<close>

definition permuted_tf :: "'i transformable \<Rightarrow> c_int list \<Rightarrow> 'i transformable" where
  "permuted_tf tf t = tf\<lparr>tf_order := map_option (\<lambda>(op, _). (op, t)) (tf_order tf)\<rparr>"

definition one_past_reads :: "'i transformable \<Rightarrow> fault list" where
  "one_past_reads tf = replicate (length (tf_sets tf)) (Read_Past_End (tf_slots tf))"

lemma permute_eq:
  assumes "tf_wf api tf" "tf_placed api fw tf w" "dr_keeps_length api (tf_insns tf)"
  shows "\<exists>t' k.
    slot_table (tf_slots tf) t' \<and>
    permute api tf fw w =
      Some (RAVE_SUCCESS, permuted_tf tf t',
        w\<lparr>mem := permuted_mem api fw (slots t') tf (mem w), nrand := k,
          faults := faults w @ one_past_reads tf\<rparr>)"
proof -
  let ?n = "tf_slots tf"
  obtain op t where t: "tf_order tf = Some (op, t)" "slot_table ?n t"
    using assms(1) unfolding tf_wf_def by blast
  note wf = tf_wfD [OF assms(1)]
  have n: "0 < ?n" using wf(1) by linarith
  have len: "length (instrs (prologue tf)) = ?n" by (simp add: tf_slots_def)
  obtain t' k where t': "shuffle t (of_nat ?n) w = Some (t', w\<lparr>nrand := k\<rparr>)" "slot_table ?n t'"
    using fy.mix_slot_table [OF t(2) n wf(2)] by blast
  have keep: "dr_keeps_length api (set (insns s))" if "s \<in> set (tf_sets tf)" for s
    using dr_keeps_length_mono [OF assms(3) tf_insns_sub [OF that]] .
  have pl: "window_ok fw" "block_ok (live w) (data fw) (unat (wlength fw))"
    "s \<in> set (tf_sets tf) \<Longrightarrow> set_within api fw s" for s
    using assms(2) by (simp_all add: tf_placed_def)
  have pro: "prologue tf \<in> set (tf_sets tf)" by (simp add: tf_sets_def)
  let ?w1 = "w\<lparr>mem := put_set api fw (slots t') (prologue tf) (mem w), nrand := k,
    faults := faults w @ [Read_Past_End ?n]\<rparr>"
  have ne: "instrs (prologue tf) \<noteq> []" using n len by (metis list.size(3) less_irrefl)
  have "instr_set_encode_order api (prologue tf) (set_at fw (prologue tf)) t' (w\<lparr>nrand := k\<rparr>) =
      Some (RAVE_SUCCESS, ?w1)"
    using encode_order_eq [OF wf(3) ne _ keep [OF pro], of t' "w\<lparr>nrand := k\<rparr>" "set_at fw (prologue tf)"]
      t'(2) block_ok_set [OF pl(2) pl(3) [OF pro]] len
    by (simp add: put_set_def)
  moreover have "encode_epilogues api fw (map of_nat (mirror ?n (slots t'))) (epilogues tf) ?w1 =
      Some (RAVE_SUCCESS, ?w1\<lparr>mem := fold (put_set api fw (mirror ?n (slots t'))) (epilogues tf) (mem ?w1),
        faults := faults ?w1 @ replicate (length (epilogues tf)) (Read_Past_End ?n)\<rparr>)"
    using encode_epilogues_eq [OF _ mirrored_table(1) [OF t'(2) wf(2)] n pl(1), of "epilogues tf" api ?w1]
      mirrored_table(2) [OF t'(2) wf(2)] wf(5) pl keep
    by (simp add: tf_sets_def)
  ultimately have "permute api tf fw w =
      Some (RAVE_SUCCESS, permuted_tf tf t',
        w\<lparr>mem := permuted_mem api fw (slots t') tf (mem w), nrand := k,
          faults := faults w @ one_past_reads tf\<rparr>)"
    unfolding permute_def using t(1) t'(1) wf(4) window_view_set [OF pl(1) pl(3) [OF pro]]
      epilogue_order_eq [OF t'(2) n wf(2)]
    by (simp add: Let_def permuted_mem_def permuted_tf_def one_past_reads_def tf_sets_def)
  with t'(2) show ?thesis by blast
qed

section \<open>Reading the new code back\<close>

lemma mem_put_bounds:
  assumes "unat p + length bs < 2 ^ 64" "unat a < unat p \<or> unat p + length bs \<le> unat a"
  shows "mem_put p bs m a = m a"
proof -
  have "length bs \<le> unat (a - p)"
    using assms unat_lt64 [of a] by (auto simp: unat_sub_if_size word_size)
  then show ?thesis by (rule mem_put_outside)
qed

lemma mem_get_put_apart:
  assumes "unat p + length bs < 2 ^ 64" "unat q + n < 2 ^ 64"
    and "unat q + n \<le> unat p \<or> unat p + length bs \<le> unat q"
  shows "mem_get (mem_put p bs m) q n = mem_get m q n"
proof (rule nth_equalityI)
  fix i
  assume i: "i < length (mem_get (mem_put p bs m) q n)"
  then have "unat (q + of_nat i) = unat q + i"
    using assms(2) by (intro unat_add_of_nat) simp
  with i assms have "unat (q + of_nat i) < unat p \<or> unat p + length bs \<le> unat (q + of_nat i)"
    by auto
  from mem_put_bounds [OF assms(1) this] i
  show "mem_get (mem_put p bs m) q n ! i = mem_get m q n ! i"
    by (simp add: nth_mem_get)
qed simp

lemma set_at_bounds:
  assumes "window_ok fw" "set_within api fw s"
  shows "unat (set_at fw s) = unat (data fw) + (unat (set_start s) - unat (orig fw))"
    "unat (set_at fw s) + isize api (insns s) \<le> unat (data fw) + unat (wlength fw)"
    "unat (set_at fw s) + isize api (insns s) < 2 ^ 64"
proof -
  have d: "unat (set_start s - orig fw) = unat (set_start s) - unat (orig fw)"
    using assms(2) by (intro unat_minus_nowrap) (simp add: set_within_def)
  have le: "unat (set_start s - orig fw) + isize api (insns s) \<le> unat (wlength fw)"
    "unat (data fw) + unat (wlength fw) < 2 ^ 64"
    using assms unfolding set_within_def window_ok_def by blast+
  have "unat (set_at fw s) = unat (data fw) + unat (set_start s - orig fw)"
    unfolding set_at_def using le by (intro unat_plus_nowrap) linarith
  with d le show "unat (set_at fw s) = unat (data fw) + (unat (set_start s) - unat (orig fw))"
    "unat (set_at fw s) + isize api (insns s) \<le> unat (data fw) + unat (wlength fw)"
    "unat (set_at fw s) + isize api (insns s) < 2 ^ 64"
    by linarith+
qed

text \<open>Sets follow each other in the code.\<close>

definition tf_sorted :: "'i transformable \<Rightarrow> bool" where
  "tf_sorted tf \<longleftrightarrow> sorted_wrt (\<lambda>a b. set_end a \<le> set_start b) (tf_sets tf)"

definition apart :: "'i dr_api \<Rightarrow> window \<Rightarrow> 'i instr_set \<Rightarrow> 'i instr_set \<Rightarrow> bool" where
  "apart api fw a b \<longleftrightarrow>
     unat (set_at fw a) + isize api (insns a) \<le> unat (set_at fw b) \<or>
     unat (set_at fw b) + isize api (insns b) \<le> unat (set_at fw a)"

lemma apartI:
  assumes "window_ok fw" "set_within api fw a" "set_within api fw b" "set_wf api a"
    and "set_end a \<le> set_start b"
  shows "apart api fw a b" "apart api fw b a"
proof -
  have "unat (set_start a) + isize api (insns a) \<le> unat (set_start b)"
    using assms(4,5) by (simp add: set_wf_def word_le_nat_alt)
  moreover have "unat (orig fw) \<le> unat (set_start a)"
    using assms(2) by (simp add: set_within_def word_le_nat_alt)
  ultimately have "unat (set_at fw a) + isize api (insns a) \<le> unat (set_at fw b)"
    unfolding set_at_bounds(1) [OF assms(1,2)] set_at_bounds(1) [OF assms(1,3)] by linarith
  then show "apart api fw a b" "apart api fw b a"
    by (simp_all add: apart_def)
qed

lemma put_sets_apart:
  assumes "window_ok fw" "set_within api fw s"
    and "\<forall>a \<in> set ss. set_within api fw a \<and> apart api fw a s \<and>
      length (set_bytes api p a) = isize api (insns a)"
  shows "mem_get (fold (put_set api fw p) ss m) (set_at fw s) (isize api (insns s)) =
    mem_get m (set_at fw s) (isize api (insns s))"
  using assms(3)
proof (induction ss arbitrary: m)
  case (Cons a ss)
  have "mem_get (put_set api fw p a m) (set_at fw s) (isize api (insns s)) =
      mem_get m (set_at fw s) (isize api (insns s))"
    unfolding put_set_def using Cons.prems set_at_bounds(3) [OF assms(1)] assms(2)
    by (intro mem_get_put_apart) (auto simp: apart_def)
  with Cons show ?case by simp
qed simp

lemma put_set_back:
  assumes "length (set_bytes api p s) = isize api (insns s)" "set_wf api s"
  shows "mem_get (put_set api fw p s m) (set_at fw s) (isize api (insns s)) = set_bytes api p s"
  unfolding put_set_def assms(1) [symmetric]
  using isize_lt [OF assms(2)] assms(1) by (intro mem_get_put) simp

text \<open>In sets that follow each other, each one reads back as it was put.\<close>

lemma put_sets_back:
  assumes "window_ok fw" "sorted_wrt (\<lambda>a b. set_end a \<le> set_start b) ss" "s \<in> set ss"
    and "\<forall>a \<in> set ss. set_wf api a \<and> set_within api fw a \<and>
      length (set_bytes api p a) = isize api (insns a)"
  shows "mem_get (fold (put_set api fw p) ss m) (set_at fw s) (isize api (insns s)) = set_bytes api p s"
proof -
  obtain xs ys where ss: "ss = xs @ s # ys" using assms(3) split_list by metis
  have "set_end s \<le> set_start a" if "a \<in> set ys" for a
    using assms(2) that unfolding ss sorted_wrt_append by simp
  then have "\<forall>a \<in> set ys. set_within api fw a \<and> apart api fw a s \<and>
      length (set_bytes api p a) = isize api (insns a)"
    using assms(4) apartI(2) [OF assms(1), of api s] unfolding ss by simp
  from put_sets_apart [OF assms(1) _ this] show ?thesis
    using assms(4) unfolding ss by (simp add: put_set_back)
qed

lemma permuted_mem_back:
  assumes "tf_wf api tf" "tf_placed api fw tf w" "dr_keeps_length api (tf_insns tf)"
    and "tf_sorted tf" "slot_perm (tf_slots tf) p"
  shows "mem_get (permuted_mem api fw p tf m) (set_at fw (prologue tf)) (isize api (insns (prologue tf))) =
      set_bytes api p (prologue tf)"
    and "e \<in> set (epilogues tf) \<Longrightarrow>
      mem_get (permuted_mem api fw p tf m) (set_at fw e) (isize api (insns e)) =
      set_bytes api (mirror (tf_slots tf) p) e"
proof -
  note wf = tf_wfD [OF assms(1)]
  let ?q = "mirror (tf_slots tf) p"
  have pl: "window_ok fw" "s \<in> set (tf_sets tf) \<Longrightarrow> set_within api fw s" for s
    using assms(2) by (simp_all add: tf_placed_def)
  have len: "length (set_bytes api r s) = isize api (insns s)"
    if "s \<in> set (tf_sets tf)" "slot_perm (tf_slots tf) r" for s r
  proof (rule set_bytes_enc(2))
    show "dr_keeps_length api (set (insns s))"
      using dr_keeps_length_mono [OF assms(3) tf_insns_sub [OF that(1)]] .
    show "slot_perm (length (instrs s)) r"
      using that wf(5) by (auto simp: tf_sets_def tf_slots_def)
  qed
  have q: "slot_perm (tf_slots tf) ?q" using mirror_perm [OF assms(5)] .
  have epi: "\<forall>a \<in> set (epilogues tf). set_wf api a \<and> set_within api fw a \<and>
      length (set_bytes api ?q a) = isize api (insns a)"
    using wf(5) pl(2) len [OF _ q] by (simp add: tf_sets_def)
  have srt: "sorted_wrt (\<lambda>a b. set_end a \<le> set_start b) (epilogues tf)"
    "\<forall>e \<in> set (epilogues tf). set_end (prologue tf) \<le> set_start e"
    using assms(4) by (simp_all add: tf_sorted_def tf_sets_def)
  have pro: "prologue tf \<in> set (tf_sets tf)" by (simp add: tf_sets_def)
  have "\<forall>a \<in> set (epilogues tf). set_within api fw a \<and> apart api fw a (prologue tf) \<and>
      length (set_bytes api ?q a) = isize api (insns a)"
    using epi srt(2) apartI(2) [OF pl(1) pl(2) [OF pro] _ wf(3)] by blast
  from put_sets_apart [OF pl(1) pl(2) [OF pro] this]
  show "mem_get (permuted_mem api fw p tf m) (set_at fw (prologue tf)) (isize api (insns (prologue tf))) =
      set_bytes api p (prologue tf)"
    using put_set_back [OF len [OF pro assms(5)] wf(3)] by (simp add: permuted_mem_def)
  show "e \<in> set (epilogues tf) \<Longrightarrow>
      mem_get (permuted_mem api fw p tf m) (set_at fw e) (isize api (insns e)) = set_bytes api ?q e"
    unfolding permuted_mem_def using put_sets_back [OF pl(1) srt(1) _ epi] .
qed

text \<open>Bytes outside the sets stay.\<close>

lemma put_set_outside:
  assumes "length (set_bytes api p s) = isize api (insns s)"
    and "isize api (insns s) \<le> unat (a - set_at fw s)"
  shows "put_set api fw p s m a = m a"
  unfolding put_set_def using assms by (intro mem_put_outside) simp

lemma permuted_mem_outside:
  assumes "tf_wf api tf" "dr_keeps_length api (tf_insns tf)" "slot_perm (tf_slots tf) p"
    and "\<forall>s \<in> set (tf_sets tf). isize api (insns s) \<le> unat (a - set_at fw s)"
  shows "permuted_mem api fw p tf m a = m a"
proof -
  have put: "put_set api fw r s m' a = m' a"
    if "s \<in> set (tf_sets tf)" "slot_perm (tf_slots tf) r" for s r m'
  proof (rule put_set_outside [OF set_bytes_enc(2)])
    show "dr_keeps_length api (set (insns s))"
      using dr_keeps_length_mono [OF assms(2) tf_insns_sub [OF that(1)]] .
    show "slot_perm (length (instrs s)) r"
      using that tf_wfD(5) [OF assms(1)] by (auto simp: tf_sets_def tf_slots_def)
  qed (use that assms(4) in blast)
  have "fold (put_set api fw (mirror (tf_slots tf) p)) ss m' a = m' a"
    if "set ss \<subseteq> set (tf_sets tf)" for ss m'
    using that by (induction ss arbitrary: m') (simp_all add: put mirror_perm [OF assms(3)])
  from this [of "epilogues tf"] show ?thesis
    unfolding permuted_mem_def using put [OF _ assms(3), of "prologue tf"]
    by (simp add: tf_sets_def subset_insertI)
qed

end
