(* ===== verification/One_Byte_Decoder.thy ===== *)
theory One_Byte_Decoder
  imports Transform
begin

text \<open>
  A concrete decoder for the one-byte instructions of x86-64 that matter here: \<open>push\<close> and
  \<open>pop\<close> of the eight legacy registers, \<open>nop\<close> and \<open>ret\<close>. It instantiates the decoder
  parameter of the transformer, so that theorems with a law of the decoder as a hypothesis can
  be applied to a concrete run.
\<close>

definition one_byte_valid :: "byte \<Rightarrow> bool" where
  "one_byte_valid b \<longleftrightarrow> (0x50 \<le> b \<and> b \<le> 0x5f) \<or> b = 0x90 \<or> b = 0xc3"

definition one_byte_api :: "byte dr_api" where
  "one_byte_api =
     \<lparr>dr_set_isa_mode = True, dr_instr_size = 112,
      dr_decode = (\<lambda>m p og. if one_byte_valid (m p) then (p + 1, m p) else (0, m p)),
      dr_length = (\<lambda>i. 1),
      dr_opcode = (\<lambda>i. if 0x50 \<le> i \<and> i \<le> 0x57 then 18 else if 0x58 \<le> i \<and> i \<le> 0x5f then 20 else 0),
      dr_src_reg = (\<lambda>i. unat i mod 8), dr_dst_reg = (\<lambda>i. unat i mod 8),
      dr_encode = (\<lambda>i og. Some [i]),
      OP_push = 18, OP_pop = 20, DR_REG_RBP = 5\<rparr>"

definition demo_world :: "byte list \<Rightarrow> world" where
  "demo_world code =
     \<lparr>mem = mem_put 0x10000 code (\<lambda>_. 0), live = [(0x10000, 4096)],
      alloc = (\<lambda>k. 0x100000 + 0x100 * of_nat k), nalloc = 0,
      rands = (\<lambda>_. 1), nrand = 0, faults = [], libelf_initialized = True, mappings = []\<rparr>"

definition demo_transform :: "byte transform" where
  "demo_transform = \<lparr>tr_ptr = 0x90000, transformables = []\<rparr>"

definition demo_record :: "nat \<Rightarrow> func" where
  "demo_record n = \<lparr>faddr = 0x401000, flen = of_nat n\<rparr>"

end
