(* ===== verification/Transform_Semantics.thy ===== *)
theory Transform_Semantics
  imports Transform_Permute One_Byte_Decoder
begin

text \<open>
  What permuted code means. The bytes a permutation leaves are read back with the decoder; under
  the law that decoding an encoded instruction gives one with the same opcode, registers and
  length, the registers pushed by the new prologue are popped in reverse order by each new
  epilogue, so a call still restores them. The last section lifts \<open>permute\<close> to all functions
  of \<open>transform_permute_all\<close>.
\<close>

section \<open>Decoding what was encoded\<close>

fun decode_run :: "'i dr_api \<Rightarrow> (ptr \<Rightarrow> byte) \<Rightarrow> nat \<Rightarrow> ptr \<Rightarrow> uintptr \<Rightarrow> 'i list" where
  "decode_run api m 0 p og = []"
| "decode_run api m (Suc n) p og =
     (let (p1, i) = dr_decode api m p og
      in i # decode_run api m n p1 (og + int_to_size (dr_length api i)))"

definition same_insn :: "'i dr_api \<Rightarrow> 'i \<Rightarrow> 'i \<Rightarrow> bool" where
  "same_insn api i j \<longleftrightarrow>
     dr_opcode api i = dr_opcode api j \<and> dr_src_reg api i = dr_src_reg api j \<and>
     dr_dst_reg api i = dr_dst_reg api j \<and> dr_length api i = dr_length api j"

definition dr_roundtrip :: "'i dr_api \<Rightarrow> 'i set \<Rightarrow> bool" where
  "dr_roundtrip api I \<longleftrightarrow>
     (\<forall>i \<in> I. \<forall>og bs m p. dr_encode api i og = Some bs \<longrightarrow> mem_get m p (length bs) = bs \<longrightarrow>
        fst (dr_decode api m p og) = p + of_nat (length bs) \<and>
        same_insn api (snd (dr_decode api m p og)) i)"

lemma dr_roundtripD:
  assumes "dr_roundtrip api I" "i \<in> I" "dr_encode api i og = Some bs" "mem_get m p (length bs) = bs"
  shows "\<exists>j. dr_decode api m p og = (p + of_nat (length bs), j) \<and> same_insn api j i"
  using assms unfolding dr_roundtrip_def by (metis prod.collapse)

lemma mem_get_append:
  "mem_get m p (k + n) = mem_get m p k @ mem_get m (p + of_nat k) n"
proof (rule nth_equalityI)
  fix i
  assume "i < length (mem_get m p (k + n))"
  then show "mem_get m p (k + n) ! i = (mem_get m p k @ mem_get m (p + of_nat k) n) ! i"
    by (cases "i < k") (simp_all add: nth_mem_get nth_append of_nat_diff)
qed simp

lemma decode_enc_seq:
  assumes "enc_seq api og xs = Some bs" "mem_get m p (length bs) = bs"
    and "dr_roundtrip api I" "dr_keeps_length api I" "set xs \<subseteq> I"
  shows "list_all2 (same_insn api) (decode_run api m (length xs) p og) xs"
  using assms(1,2,5)
proof (induction xs arbitrary: og p bs)
  case Nil
  then show ?case by simp
next
  case (Cons x xs)
  obtain b cs where b: "dr_encode api x og = Some b"
    "enc_seq api (og + of_nat (length b)) xs = Some cs" "bs = b @ cs"
    using Cons.prems(1) by (rule enc_seq_Cons_SomeE)
  have m: "mem_get m p (length b) = b" "mem_get m (p + of_nat (length b)) (length cs) = cs"
    using Cons.prems(2) mem_get_append [of m p "length b" "length cs"] unfolding b(3) by simp_all
  have x: "x \<in> I" "set xs \<subseteq> I" using Cons.prems(3) by simp_all
  obtain j where j: "dr_decode api m p og = (p + of_nat (length b), j)" "same_insn api j x"
    using dr_roundtripD [OF assms(3) x(1) b(1) m(1)] by blast
  have "length b = ilen api x"
    using assms(4) x(1) b(1) unfolding dr_keeps_length_def by (metis option.inject)
  then have "int_to_size (dr_length api j) = of_nat (length b)"
    using j(2) by (simp add: same_insn_def ilen_def)
  with j Cons.IH [OF b(2) m(2) x(2)] show ?case by simp
qed

lemma same_insn_regs:
  assumes "list_all2 (same_insn api) ys xs"
  shows "map (dr_src_reg api) ys = map (dr_src_reg api) xs"
    "map (dr_dst_reg api) ys = map (dr_dst_reg api) xs"
  using assms by (induction rule: list_all2_induct) (simp_all add: same_insn_def)

section \<open>The permuted function\<close>

text \<open>The instructions a machine finds where a set is encoded.\<close>

definition set_code :: "'i dr_api \<Rightarrow> window \<Rightarrow> (ptr \<Rightarrow> byte) \<Rightarrow> 'i instr_set \<Rightarrow> 'i list" where
  "set_code api fw m s = decode_run api m (length (instrs s)) (set_at fw s) (set_start s)"

lemma set_code_regs:
  assumes "mem_get m (set_at fw s) (isize api (insns s)) = set_bytes api p s"
    and "slot_perm (length (instrs s)) p" "dr_roundtrip api I" "dr_keeps_length api I"
    and "set (insns s) \<subseteq> I"
  shows "map (dr_src_reg api) (set_code api fw m s) = arrange p (map (dr_src_reg api) (insns s))"
    "map (dr_dst_reg api) (set_code api fw m s) = arrange p (map (dr_dst_reg api) (insns s))"
proof -
  have p: "slot_perm (length (insns s)) p" using assms(2) by simp
  have sub: "set (arrange p (insns s)) \<subseteq> I"
    using mset_arrange [OF p] assms(5) by (metis mset_eq_setD)
  note enc = set_bytes_enc [OF dr_keeps_length_mono [OF assms(4,5)] assms(2)]
  have "list_all2 (same_insn api) (set_code api fw m s) (arrange p (insns s))"
    using decode_enc_seq [OF enc(1) _ assms(3,4) sub, of m "set_at fw s"] assms(1)
    by (simp add: set_code_def enc(2))
  from same_insn_regs [OF this]
  show "map (dr_src_reg api) (set_code api fw m s) = arrange p (map (dr_src_reg api) (insns s))"
    "map (dr_dst_reg api) (set_code api fw m s) = arrange p (map (dr_dst_reg api) (insns s))"
    by (simp_all add: arrange_map [OF p] del: map_map)
qed

text \<open>A memory in which the sets of a function hold its permuted code.\<close>

definition code_permuted ::
  "'i dr_api \<Rightarrow> window \<Rightarrow> nat list \<Rightarrow> 'i transformable \<Rightarrow> (ptr \<Rightarrow> byte) \<Rightarrow> bool" where
  "code_permuted api fw p tf m \<longleftrightarrow>
     mem_get m (set_at fw (prologue tf)) (isize api (insns (prologue tf))) = set_bytes api p (prologue tf) \<and>
     (\<forall>e \<in> set (epilogues tf).
        mem_get m (set_at fw e) (isize api (insns e)) = set_bytes api (mirror (tf_slots tf) p) e)"

lemma permuted_mem_code:
  assumes "tf_wf api tf" "tf_placed api fw tf w" "dr_keeps_length api (tf_insns tf)"
    and "tf_sorted tf" "slot_perm (tf_slots tf) p"
  shows "code_permuted api fw p tf (permuted_mem api fw p tf m)"
  unfolding code_permuted_def using permuted_mem_back [OF assms] by blast

lemma permuted_regs:
  fixes m :: "ptr \<Rightarrow> byte"
  assumes "tf_wf api tf" "dr_keeps_length api (tf_insns tf)" "dr_roundtrip api (tf_insns tf)"
    and "slot_perm (tf_slots tf) p" "code_permuted api fw p tf m" "e \<in> set (epilogues tf)"
  defines "saved \<equiv> map (dr_src_reg api) (set_code api fw m (prologue tf))"
  shows "mset saved = mset (map (dr_src_reg api) (insns (prologue tf)))"
    "map (dr_dst_reg api) (set_code api fw m e) = rev saved"
proof -
  let ?rs = "map (dr_src_reg api) (insns (prologue tf))"
  have e: "e \<in> set (tf_sets tf)" and pro: "prologue tf \<in> set (tf_sets tf)"
    using assms(6) by (simp_all add: tf_sets_def)
  have stored: "mem_get m (set_at fw (prologue tf)) (isize api (insns (prologue tf))) =
      set_bytes api p (prologue tf)"
    "mem_get m (set_at fw e) (isize api (insns e)) = set_bytes api (mirror (tf_slots tf) p) e"
    using assms(5,6) by (simp_all add: code_permuted_def)
  have p: "slot_perm (length ?rs) p" using assms(4) by (simp add: tf_slots_def)
  have len: "length (instrs e) = tf_slots tf" using tf_wfD(5) [OF assms(1,6)] by blast
  have saved: "saved = arrange p ?rs"
    unfolding saved_def
    using set_code_regs(1) [OF stored(1) _ assms(3,2) tf_insns_sub [OF pro]] assms(4)
    by (simp add: tf_slots_def)
  then show "mset saved = mset ?rs" using mset_arrange [OF p] by simp
  have "map (dr_dst_reg api) (set_code api fw m e) =
      arrange (mirror (tf_slots tf) p) (map (dr_dst_reg api) (insns e))"
    using set_code_regs(2) [OF stored(2) _ assms(3,2) tf_insns_sub [OF e]]
      mirror_perm [OF assms(4)] len by simp
  also have "map (dr_dst_reg api) (insns e) = rev ?rs"
    using assms(1,6) by (simp add: tf_wf_def mirrors_def)
  also have "arrange (mirror (tf_slots tf) p) (rev ?rs) = rev (arrange p ?rs)"
    using arrange_mirror [OF p] by (simp add: tf_slots_def)
  finally show "map (dr_dst_reg api) (set_code api fw m e) = rev saved"
    unfolding saved .
qed

text \<open>
  The effect of one \<open>permute\<close>, as the bundle of facts the properties are read from: a run of the
  new prologue, any body that leaves the saved area alone, and a run of any new epilogue gives
  every register of the original prologue its value back.
\<close>

definition restores_regs ::
  "'i dr_api \<Rightarrow> window \<Rightarrow> (ptr \<Rightarrow> byte) \<Rightarrow> 'i transformable \<Rightarrow> 'i instr_set \<Rightarrow> bool" where
  "restores_regs api fw m tf e \<longleftrightarrow>
     (\<forall>s s'. stack s' = stack (save_regs (map (dr_src_reg api) (set_code api fw m (prologue tf))) s) \<longrightarrow>
        (\<exists>f. restore_regs (map (dr_dst_reg api) (set_code api fw m e)) s' = Some f \<and>
          stack f = stack s \<and>
          (\<forall>r. regs f r =
            (if r \<in> set (map (dr_src_reg api) (insns (prologue tf))) then regs s r else regs s' r))))"

lemma code_restores:
  assumes "tf_wf api tf" "dr_keeps_length api (tf_insns tf)" "dr_roundtrip api (tf_insns tf)"
    and "slot_perm (tf_slots tf) p" "code_permuted api fw p tf m" "e \<in> set (epilogues tf)"
  shows "restores_regs api fw m tf e"
proof -
  note regs = permuted_regs [OF assms]
  show ?thesis
    unfolding restores_regs_def regs(2) mset_eq_setD [OF regs(1), symmetric]
    using save_restore by blast
qed

lemma permuted_restores:
  assumes "tf_wf api tf" "tf_placed api fw tf w" "dr_keeps_length api (tf_insns tf)"
    and "dr_roundtrip api (tf_insns tf)" "tf_sorted tf" "slot_perm (tf_slots tf) p"
    and "e \<in> set (epilogues tf)"
  shows "restores_regs api fw (permuted_mem api fw p tf m) tf e"
  using code_restores [OF assms(1,3,4,6) permuted_mem_code [OF assms(1-3,5,6)] assms(7)] .

section \<open>All functions\<close>

text \<open>A function's code lies in the window of the text; its own window is laid over it.\<close>

definition func_within :: "window \<Rightarrow> func \<Rightarrow> bool" where
  "func_within text rec \<longleftrightarrow>
     0 < flen rec \<and> orig text \<le> faddr rec \<and>
     unat (faddr rec - orig text) + unat (flen rec) \<le> unat (wlength text)"

lemma function_window_ok:
  assumes "window_ok text" "func_within text rec"
  shows "window_ok (function_window text rec)"
    "data (function_window text rec) = data text + (faddr rec - orig text)"
proof -
  let ?d = "unat (faddr rec - orig text)"
  have d: "?d + unat (flen rec) \<le> unat (wlength text)" "0 < unat (flen rec)"
    using assms(2) unfolding func_within_def word_less_nat_alt by simp_all
  then have "?d < unat (wlength text)" by linarith
  from window_view_inside [OF assms(1) this]
  show dt: "data (function_window text rec) = data text + (faddr rec - orig text)"
    by (simp add: function_window_def)
  have b: "unat (data text) + unat (wlength text) < 2 ^ 64"
    "unat (orig text) + unat (wlength text) < 2 ^ 64" "data text \<noteq> NULL"
    using assms(1) unfolding window_ok_def by blast+
  have u: "unat (data text + (faddr rec - orig text)) = unat (data text) + ?d"
    using b(1) d by (intro unat_plus_nowrap) linarith
  have f: "unat (faddr rec) = unat (orig text) + ?d"
    using assms(2) unat_minus_nowrap [of "orig text" "faddr rec"]
    by (simp add: func_within_def word_le_nat_alt)
  have z: "data text + (faddr rec - orig text) \<noteq> NULL"
  proof
    assume "data text + (faddr rec - orig text) = NULL"
    then have "unat (data text) + ?d = 0" using u by (metis unat_0)
    then show False using b(3) by (simp add: unat_eq_0)
  qed
  have "unat (faddr rec) + unat (flen rec) < 2 ^ 64"
    "unat (data text + (faddr rec - orig text)) + unat (flen rec) < 2 ^ 64"
    unfolding u f using b(1,2) d(1) by linarith+
  then show "window_ok (function_window text rec)"
    unfolding window_ok_def dt using z by (simp add: function_window_def)
qed

definition tf_ready :: "'i dr_api \<Rightarrow> window \<Rightarrow> world \<Rightarrow> 'i transformable \<Rightarrow> bool" where
  "tf_ready api text w tf \<longleftrightarrow>
     tf_wf api tf \<and> tf_placed api (function_window text (tf_record tf)) tf w \<and>
     dr_keeps_length api (tf_insns tf)"

text \<open>The memory after all functions are permuted by the tables \<open>ts\<close>, in order.\<close>

fun permuted_all ::
  "'i dr_api \<Rightarrow> window \<Rightarrow> 'i transformable list \<Rightarrow> c_int list list \<Rightarrow> (ptr \<Rightarrow> byte) \<Rightarrow> ptr \<Rightarrow> byte" where
  "permuted_all api text (tf # tfs) (t # ts) m =
     permuted_all api text tfs ts (permuted_mem api (function_window text (tf_record tf)) (slots t) tf m)"
| "permuted_all api text _ _ m = m"

lemma tf_ready_world: "live w' = live w \<Longrightarrow> tf_ready api text w' tf \<longleftrightarrow> tf_ready api text w tf"
  by (simp add: tf_ready_def tf_placed_def)

lemma permute_list_eq:
  assumes "\<forall>tf \<in> set tfs. tf_ready api text w tf"
  shows "\<exists>ts k. list_all2 (\<lambda>tf t. slot_table (tf_slots tf) t) tfs ts \<and>
    permute_list api text tfs w =
      Some (RAVE_SUCCESS, map2 permuted_tf tfs ts,
        w\<lparr>mem := permuted_all api text tfs ts (mem w), nrand := k,
          faults := faults w @ concat (map one_past_reads tfs)\<rparr>)"
  using assms
proof (induction tfs arbitrary: w)
  case Nil
  have "w = w\<lparr>mem := mem w, nrand := nrand w, faults := faults w\<rparr>" by simp
  then show ?case by (intro exI [of _ "[]"] exI [of _ "nrand w"]) simp
next
  case (Cons tf tfs)
  let ?fw = "function_window text (tf_record tf)"
  obtain t k where t: "slot_table (tf_slots tf) t"
    and p: "permute api tf ?fw w = Some (RAVE_SUCCESS, permuted_tf tf t,
        w\<lparr>mem := permuted_mem api ?fw (slots t) tf (mem w), nrand := k,
          faults := faults w @ one_past_reads tf\<rparr>)" (is "_ = Some (_, _, ?w1)")
    using permute_eq [of api tf ?fw w] Cons.prems unfolding tf_ready_def by auto
  have "\<forall>tf \<in> set tfs. tf_ready api text ?w1 tf"
    using Cons.prems by (simp add: tf_ready_world [of ?w1 w])
  then obtain ts k' where
    "list_all2 (\<lambda>tf t. slot_table (tf_slots tf) t) tfs ts"
    "permute_list api text tfs ?w1 = Some (RAVE_SUCCESS, map2 permuted_tf tfs ts,
        ?w1\<lparr>mem := permuted_all api text tfs ts (mem ?w1), nrand := k',
          faults := faults ?w1 @ concat (map one_past_reads tfs)\<rparr>)" using Cons.IH by blast
  with t p show ?case
    by (intro exI [of _ "t # ts"] exI [of _ k']) simp
qed

text \<open>A permuted function keeps its shape, so it can be permuted again.\<close>

lemma permuted_tf_wf:
  assumes "tf_wf api tf" "slot_table (tf_slots tf) t"
  shows "tf_wf api (permuted_tf tf t)"
proof -
  obtain op t0 where "tf_order tf = Some (op, t0)" using assms(1) unfolding tf_wf_def by blast
  then show ?thesis
    using assms unfolding tf_wf_def by (simp add: permuted_tf_def tf_slots_def tf_sets_def)
qed

lemma permuted_tf_ready:
  assumes "tf_ready api text w tf" "slot_table (tf_slots tf) t"
  shows "tf_ready api text w (permuted_tf tf t)"
  using assms permuted_tf_wf [of api tf t]
  by (simp add: tf_ready_def tf_placed_def permuted_tf_def tf_insns_def tf_sets_def)

lemma permuted_tf_sets [simp]: "tf_sets (permuted_tf tf t) = tf_sets tf"
  by (simp add: permuted_tf_def tf_sets_def)

lemma permuted_all_outside:
  assumes "\<forall>tf \<in> set tfs. tf_ready api text w tf"
    and "list_all2 (\<lambda>tf t. slot_table (tf_slots tf) t) tfs ts"
    and "\<forall>tf \<in> set tfs. \<forall>s \<in> set (tf_sets tf).
      isize api (insns s) \<le> unat (a - set_at (function_window text (tf_record tf)) s)"
  shows "permuted_all api text tfs ts m a = m a"
  using assms(2,1,3)
proof (induction arbitrary: m rule: list_all2_induct)
  case (Cons tf tfs t ts)
  have "permuted_mem api (function_window text (tf_record tf)) (slots t) tf m a = m a"
    using Cons.prems Cons.hyps(1) tf_wfD(2)
    by (intro permuted_mem_outside slot_table_perm) (auto simp: tf_ready_def)
  with Cons show ?case by simp
qed simp

end
