(* ===== verification/Transform_Scan.thy ===== *)
theory Transform_Scan
  imports Transform_Semantics
begin

text \<open>
  What \<open>next_set\<close> finds: the first run of instructions that pass the test. The decoded
  instructions between the start and the place where it stops split into a skipped part, the
  run, and the single instruction that ended it. The second half follows the heap: which
  objects are live afterwards, and that the scan comes to an end.
\<close>

section \<open>Decoded code\<close>

definition code_len :: "'i dr_api \<Rightarrow> 'i list \<Rightarrow> size_t" where
  "code_len api xs = sum_list (map (\<lambda>i. int_to_size (dr_length api i)) xs)"

lemma code_len_simps [simp]:
  "code_len api [] = 0"
  "code_len api (x # xs) = int_to_size (dr_length api x) + code_len api xs"
  "code_len api (xs @ ys) = code_len api xs + code_len api ys"
  by (simp_all add: code_len_def)

text \<open>The decoder reads exactly the instructions \<open>xs\<close> from \<open>walk\<close>, each one starting below the limit.\<close>

fun code_at ::
  "'i dr_api \<Rightarrow> (ptr \<Rightarrow> byte) \<Rightarrow> ptr \<Rightarrow> ptr \<Rightarrow> uintptr \<Rightarrow> 'i list \<Rightarrow> ptr \<Rightarrow> bool" where
  "code_at api m limit walk og [] walk' \<longleftrightarrow> walk' = walk"
| "code_at api m limit walk og (i # rest) walk' \<longleftrightarrow>
     walk < limit \<and>
     (case dr_decode api m walk og of (walk1, j) \<Rightarrow>
        j = i \<and> walk1 \<noteq> NULL \<and>
        code_at api m limit walk1 (og + int_to_size (dr_length api i)) rest walk')"

lemma code_at_append:
  "code_at api m limit walk og (xs @ ys) walk' \<longleftrightarrow>
     (\<exists>p. code_at api m limit walk og xs p \<and> code_at api m limit p (og + code_len api xs) ys walk')"
  by (induction xs arbitrary: walk og) (auto simp: add.assoc split: prod.splits)

text \<open>The laws of the decoder: the next address lies one instruction length further on.\<close>

definition dr_advances :: "'i dr_api \<Rightarrow> bool" where
  "dr_advances api \<longleftrightarrow>
     (\<forall>m p og. fst (dr_decode api m p og) \<noteq> NULL \<longrightarrow>
        0 < ilen api (snd (dr_decode api m p og)) \<and>
        unat (fst (dr_decode api m p og)) = unat p + ilen api (snd (dr_decode api m p og)))"

lemma dr_advancesD:
  assumes "dr_advances api" "dr_decode api m p og = (p1, i)" "p1 \<noteq> NULL"
  shows "0 < ilen api i" "unat p1 = unat p + ilen api i"
proof -
  have "fst (dr_decode api m p og) = p1" "snd (dr_decode api m p og) = i"
    using assms(2) by simp_all
  then show "0 < ilen api i" "unat p1 = unat p + ilen api i"
    using assms(1,3) unfolding dr_advances_def by metis+
qed

lemma code_at_length:
  assumes "dr_advances api" "code_at api m limit walk og xs walk'"
  shows "unat walk' = unat walk + isize api xs \<and> length xs \<le> isize api xs"
  using assms(2)
proof (induction xs arbitrary: walk og)
  case (Cons x xs)
  then obtain p where p: "dr_decode api m walk og = (p, x)" "p \<noteq> NULL"
    "code_at api m limit p (og + int_to_size (dr_length api x)) xs walk'"
    by (auto split: prod.splits)
  from Cons.IH [OF p(3)] dr_advancesD [OF assms(1) p(1,2)] show ?case by simp
qed simp

lemma code_at_count:
  assumes "dr_advances api" "code_at api m limit walk og xs walk'"
  shows "length xs \<le> unat limit - unat walk"
  using assms(2)
proof (induction xs arbitrary: walk og)
  case (Cons x xs)
  then obtain p where p: "walk < limit" "dr_decode api m walk og = (p, x)" "p \<noteq> NULL"
    "code_at api m limit p (og + int_to_size (dr_length api x)) xs walk'"
    by (auto split: prod.splits)
  from Cons.IH [OF p(4)] dr_advancesD [OF assms(1) p(2,3)] p(1) show ?case
    unfolding word_less_nat_alt by simp
qed simp

text \<open>What stopped the scan: the limit, or one instruction that fails the test.\<close>

definition scan_stop :: "('i \<Rightarrow> bool) \<Rightarrow> ptr \<Rightarrow> ptr \<Rightarrow> 'i list \<Rightarrow> bool" where
  "scan_stop test limit walk' stop \<longleftrightarrow>
     (case stop of [] \<Rightarrow> \<not> walk' < limit | [i] \<Rightarrow> \<not> test i | _ \<Rightarrow> False)"

text \<open>
  The result of a scan: the skipped part, the run of instructions that pass the test, and what
  stopped it. A scan that finds nothing only stops at the limit.
\<close>

definition scan_found ::
  "'i dr_api \<Rightarrow> ('i \<Rightarrow> bool) \<Rightarrow> (ptr \<Rightarrow> byte) \<Rightarrow> ptr \<Rightarrow> ptr \<Rightarrow> uintptr \<Rightarrow> 'i list \<Rightarrow> 'i list \<Rightarrow> 'i list \<Rightarrow>
     ptr \<Rightarrow> uintptr \<Rightarrow> bool" where
  "scan_found api test m limit walk og skip run stop walk' og' \<longleftrightarrow>
     code_at api m limit walk og (skip @ run @ stop) walk' \<and>
     og' = og + code_len api (skip @ run @ stop) \<and>
     list_all (\<lambda>i. \<not> test i) skip \<and> list_all test run \<and> scan_stop test limit walk' stop"

section \<open>Ownership\<close>

definition live_set :: "world \<Rightarrow> ptr set" where
  "live_set w = fst ` set (live w)"

lemma mem_live_set: "p \<in> live_set w \<longleftrightarrow> is_live w p"
  by (simp add: live_set_def is_live_def)

lemma live_set_malloc:
  assumes "rave_malloc n w = (p, w')" "p \<noteq> NULL"
  shows "p \<notin> live_set w" "live_set w' = insert p (live_set w)"
  using malloc_not_live [OF assms] is_live_malloc [OF assms(1)] assms(2)
  by (simp_all add: set_eq_iff mem_live_set disj_commute)

lemma live_set_malloc_NULL: "rave_malloc n w = (NULL, w') \<Longrightarrow> live_set w' = live_set w"
  using is_live_malloc [of n w NULL w'] by (simp add: set_eq_iff mem_live_set)

lemma live_set_free:
  assumes "rave_free p w = Some w'" "p \<noteq> NULL"
  shows "p \<in> live_set w" "live_set w' = live_set w - {p}"
  using is_live_free [OF assms] heap.release_SomeD(1) [OF assms]
  by (simp_all add: set_eq_iff mem_live_set)

lemma malloc_keeps: "rave_malloc n w = (p, w') \<Longrightarrow> set (live w) \<subseteq> set (live w')"
  by (auto simp: rave_malloc_def Let_def split: if_splits)

lemma free_keeps: "rave_free p w = Some w' \<Longrightarrow> b \<in> set (live w) \<Longrightarrow> fst b \<noteq> p \<Longrightarrow> b \<in> set (live w')"
  by (auto simp: rave_free_def split: if_splits)

lemma free_live: "p \<in> live_set w \<Longrightarrow> \<exists>w'. rave_free p w = Some w'"
  unfolding mem_live_set using heap.release_owned rave_free_NULL by metis

text \<open>Distinct pointers other than \<open>NULL\<close> are fewer than \<open>2 ^ 64\<close>, so the counter never wraps.\<close>

lemma distinct_ptrs_count:
  fixes ps :: "ptr list"
  assumes "distinct ps" "NULL \<notin> set ps"
  shows "length ps < 2 ^ 64"
proof -
  have "card (set ps) < card (UNIV :: ptr set)"
    using assms(2) by (intro psubset_card_mono) auto
  then show ?thesis
    using distinct_card [OF assms(1)] by (simp add: card_word)
qed

text \<open>
  The pointers a scan holds: its chain of objects beside \<open>L\<close>, what was live before. The blocks \<open>B\<close>
  among the latter are still there, with their sizes.
\<close>

type_synonym blocks = "(ptr \<times> nat) set"

definition owns :: "blocks \<Rightarrow> ptr set \<Rightarrow> ptr list \<Rightarrow> world \<Rightarrow> bool" where
  "owns B L ps w \<longleftrightarrow>
     B \<subseteq> set (live w) \<and> fst ` B \<subseteq> L \<and>
     live_set w = L \<union> set ps \<and> distinct ps \<and> NULL \<notin> set ps \<and> L \<inter> set ps = {}"

lemma owns_malloc:
  assumes "owns B L ps w" "rave_malloc n w = (p, w')" "p \<noteq> NULL"
  shows "owns B L (p # ps) w'"
  using assms live_set_malloc [OF assms(2,3)] malloc_keeps [OF assms(2)] unfolding owns_def by auto

lemma owns_malloc_NULL: "owns B L ps w \<Longrightarrow> rave_malloc n w = (NULL, w') \<Longrightarrow> owns B L ps w'"
  by (auto simp: owns_def live_set_malloc_NULL dest: malloc_keeps)

lemma owns_free:
  assumes "owns B L ps w" "p \<in> set ps"
  shows "\<exists>w'. rave_free p w = Some w' \<and> owns B L (remove1 p ps) w'"
proof -
  obtain w' where w': "rave_free p w = Some w'"
    using assms free_live [of p w] unfolding owns_def by blast
  moreover have "p \<noteq> NULL" using assms unfolding owns_def by blast
  ultimately show ?thesis
    using assms live_set_free [OF w'] free_keeps [OF w'] unfolding owns_def by force
qed

lemma owns_perm: "mset ps = mset qs \<Longrightarrow> owns B L ps w \<longleftrightarrow> owns B L qs w"
  unfolding owns_def by (metis mset_eq_setD mset_eq_imp_distinct_iff)

lemma owns_world: "live w' = live w \<Longrightarrow> owns B L ps w' \<longleftrightarrow> owns B L ps w"
  by (simp add: owns_def live_set_def)

text \<open>A step that touches the heap only, and one that may also log reads of released objects.\<close>

definition heap_only :: "world \<Rightarrow> world \<Rightarrow> bool" where
  "heap_only w w' \<longleftrightarrow>
     mem w' = mem w \<and> faults w' = faults w \<and> rands w' = rands w \<and> nrand w' = nrand w \<and>
     alloc w' = alloc w \<and> libelf_initialized w' = libelf_initialized w"

lemma heap_only_refl [simp]: "heap_only w w"
  by (simp add: heap_only_def)

lemma heap_only_trans: "heap_only w1 w2 \<Longrightarrow> heap_only w2 w3 \<Longrightarrow> heap_only w1 w3"
  by (simp add: heap_only_def)

lemma heap_only_malloc: "rave_malloc n w = (p, w') \<Longrightarrow> heap_only w w'"
  by (auto simp: rave_malloc_def Let_def heap_only_def split: if_splits)

lemma heap_only_free: "rave_free p w = Some w' \<Longrightarrow> heap_only w w'"
  by (auto simp: rave_free_def heap_only_def split: if_splits)

lemma heap_onlyD: "heap_only w w' \<Longrightarrow> mem w' = mem w \<and> faults w' = faults w"
  by (simp add: heap_only_def)

text \<open>
  Closing a chain gives back every object of it, and reads each one after it was released:
  \<open>instr_set_close\<close> follows the link of an object it has just destroyed.
\<close>

definition chain_reads :: "(ptr \<times> 'i) list \<Rightarrow> fault list" where
  "chain_reads ch = map (\<lambda>(p, i). Use_After_Free p) ch"

lemma close_chain_owned:
  assumes "owns B L (map fst ch @ ps) w"
  shows "\<exists>w'. close_chain ch w = Some w' \<and> owns B L ps w' \<and> mem w' = mem w \<and>
    faults w' = faults w @ chain_reads ch"
  using assms
proof (induction ch arbitrary: w)
  case Nil
  then show ?case by (simp add: chain_reads_def)
next
  case (Cons x ch)
  obtain p i where x: "x = (p, i)" by fastforce
  obtain w1 where w1: "rave_free p w = Some w1" "owns B L (map fst ch @ ps) w1"
    using owns_free [OF Cons.prems, of p] x by auto
  have "p \<noteq> NULL" using Cons.prems x by (simp add: owns_def)
  then have "\<not> is_live w1 p" using is_live_free [OF w1(1)] by simp
  then have t: "instr_touch p w1 = log_fault (Use_After_Free p) w1"
    by (simp add: instr_touch_def)
  have "owns B L (map fst ch @ ps) (instr_touch p w1)"
    using w1(2) owns_world [of "instr_touch p w1" w1] by (simp add: t log_fault_def)
  from Cons.IH [OF this] show ?case
    using x w1(1) rave_free_frame [OF w1(1)]
    by (auto simp: instr_destroy_def t log_fault_def chain_reads_def)
qed

section \<open>One scan\<close>

definition scan_inv :: "blocks \<Rightarrow> ptr set \<Rightarrow> 'i instr_set \<Rightarrow> uintptr \<Rightarrow> ptr \<Rightarrow> world \<Rightarrow> bool" where
  "scan_inv B L is og instr w \<longleftrightarrow>
     set_ptr is \<noteq> NULL \<and> nr_instrs is = of_nat (length (instrs is)) \<and>
     set_end is = og \<and> (instrs is = [] \<longrightarrow> set_start is = og) \<and>
     owns B L (instr # map fst (instrs is)) w"

lemma scan_inv_nr: "scan_inv B L is og instr w \<Longrightarrow> nr_instrs is = 0 \<longleftrightarrow> instrs is = []"
  using distinct_ptrs_count [of "map fst (instrs is)"]
  by (auto simp: scan_inv_def owns_def word_of_nat_eq_0_iff dest: dvd_imp_le)

lemma scan_inv_take:
  assumes "scan_inv B L is og instr w" "instr_create api w = (instr1, w1)" "instr1 \<noteq> NULL"
  shows "scan_inv B L (is\<lparr>nr_instrs := nr_instrs is + 1, set_end := og1,
    instrs := instrs is @ [(instr, i)]\<rparr>) og1 instr1 w1"
proof -
  have "owns B L (instr1 # instr # map fst (instrs is)) w1"
    using assms owns_malloc [of B L "instr # map fst (instrs is)" w] unfolding instr_create_def scan_inv_def by blast
  then have "owns B L (instr1 # map fst (instrs is) @ [instr]) w1"
    by (subst (asm) owns_perm) simp_all
  with assms(1) show ?thesis by (simp add: scan_inv_def)
qed

lemma scan_inv_skip:
  "scan_inv B L is og instr w \<Longrightarrow> instrs is = [] \<Longrightarrow>
     scan_inv B L (is\<lparr>set_start := og1, set_end := og1\<rparr>) og1 instr w"
  by (simp add: scan_inv_def)

lemma next_set_done_owned:
  assumes "scan_inv B L is og instr w"
  shows "\<exists>w'. next_set_done walk og' is instr w = Some ((RAVE_SUCCESS, walk, og', Some is), w') \<and>
    owns B L (map fst (instrs is)) w' \<and> heap_only w w'"
  using assms owns_free [of B L "instr # map fst (instrs is)" w instr] heap_only_free
  unfolding scan_inv_def next_set_done_def instr_destroy_def by auto

lemma next_set_err_owned:
  assumes "set_ptr is \<noteq> NULL"
    and "owns B L ((if instr = NULL then [] else [instr]) @ map fst (instrs is)) w"
  shows "\<exists>w'. next_set_err rc walk og is instr w =
      Some ((rc, walk, og, Some (is\<lparr>instrs := []\<rparr>)), w') \<and>
    owns B L [] w' \<and> mem w' = mem w \<and> faults w' = faults w @ chain_reads (instrs is)"
proof -
  obtain w1 where w1: "(if instr \<noteq> NULL then instr_destroy instr w else Some w) = Some w1"
    "owns B L (map fst (instrs is)) w1" "mem w1 = mem w" "faults w1 = faults w"
    using assms(2) owns_free [of B L "instr # map fst (instrs is)" w instr] heap_onlyD heap_only_free
    by (cases "instr = NULL") (auto simp: instr_destroy_def)
  obtain w2 where "close_chain (instrs is) w1 = Some w2" "owns B L [] w2" "mem w2 = mem w1"
    "faults w2 = faults w1 @ chain_reads (instrs is)"
    using close_chain_owned [of B L "instrs is" "[]" w1] w1(2) by auto
  with w1 assms(1) show ?thesis
    by (simp add: next_set_err_def instr_set_close_def)
qed

text \<open>What the loop has done when it returns, from a set that may already hold instructions.\<close>

definition loop_found ::
  "blocks \<Rightarrow> ptr set \<Rightarrow> 'i dr_api \<Rightarrow> ('i \<Rightarrow> bool) \<Rightarrow> ptr \<Rightarrow> ptr \<Rightarrow> uintptr \<Rightarrow> 'i instr_set \<Rightarrow> world \<Rightarrow>
     ptr \<Rightarrow> uintptr \<Rightarrow> 'i instr_set \<Rightarrow> world \<Rightarrow> bool" where
  "loop_found B L api test limit walk og is w walk' og' s w' \<longleftrightarrow>
     (\<exists>skip run stop.
        scan_found api test (mem w) limit walk og skip run stop walk' og' \<and>
        (instrs is \<noteq> [] \<longrightarrow> skip = []) \<and> (insns s = [] \<longrightarrow> stop = []) \<and>
        insns s = insns is @ run \<and>
        set_start s = (if instrs is = [] then og + code_len api skip else set_start is) \<and>
        set_end s = og + code_len api (skip @ run)) \<and>
     set_ptr s = set_ptr is \<and> nr_instrs s = of_nat (length (instrs s)) \<and>
     owns B L (map fst (instrs s)) w' \<and> heap_only w w'"

definition loop_failed ::
  "blocks \<Rightarrow> ptr set \<Rightarrow> 'i instr_set \<Rightarrow> world \<Rightarrow> rave_errno \<Rightarrow> 'i instr_set \<Rightarrow> world \<Rightarrow> bool" where
  "loop_failed B L is w rc s w' \<longleftrightarrow>
     rc \<in> {RAVE_ETRANSFORM, RAVE_ENOMEM} \<and> instrs s = [] \<and> set_ptr s = set_ptr is \<and>
     owns B L [] w' \<and> mem w' = mem w"

lemma loop_found_done:
  assumes "scan_inv B L is og instr w" "owns B L (map fst (instrs is)) w'" "heap_only w w'"
    and "\<not> walk < limit"
  shows "loop_found B L api test limit walk og is w walk og is w'"
  unfolding loop_found_def
  using assms by (auto simp: scan_inv_def scan_found_def scan_stop_def intro!: exI [of _ "[]"])

lemma loop_found_stop:
  assumes "scan_inv B L is og instr w" "owns B L (map fst (instrs is)) w'" "heap_only w w'"
    and "walk < limit" "dr_decode api (mem w) walk og = (p, i)" "p \<noteq> NULL" "\<not> test i" "instrs is \<noteq> []"
  shows "loop_found B L api test limit walk og is w p (og + int_to_size (dr_length api i)) is w'"
  unfolding loop_found_def
  using assms by (auto simp: scan_inv_def scan_found_def scan_stop_def intro!: exI [of _ "[]"] exI [of _ "[i]"])

lemma loop_found_skip:
  assumes "loop_found B L api test limit p (og + int_to_size (dr_length api i))
      (is\<lparr>set_start := og1, set_end := og1\<rparr>) w walk' og' s w'"
    and "og1 = og + int_to_size (dr_length api i)"
    and "walk < limit" "dr_decode api (mem w) walk og = (p, i)" "p \<noteq> NULL" "\<not> test i" "instrs is = []"
  shows "loop_found B L api test limit walk og is w walk' og' s w'"
proof -
  obtain skip run stop where f: "scan_found api test (mem w) limit p og1 skip run stop walk' og'"
    "insns s = [] \<longrightarrow> stop = []" "insns s = run" "set_start s = og1 + code_len api skip"
    "set_end s = og1 + code_len api (skip @ run)"
    using assms(1,2,7) unfolding loop_found_def by auto
  have "scan_found api test (mem w) limit walk og (i # skip) run stop walk' og'"
    using f(1) assms(2-6) by (simp add: scan_found_def add.assoc)
  then show ?thesis
    using f(2-5) assms(1,2,7) unfolding loop_found_def
    by (intro conjI exI [of _ "i # skip"] exI [of _ run] exI [of _ stop]) (simp_all add: add.assoc)
qed

lemma loop_found_take:
  assumes "loop_found B L api test limit p og1
      (is\<lparr>nr_instrs := n, set_end := og1, instrs := instrs is @ [(instr, i)]\<rparr>) w1 walk' og' s w'"
    and "og1 = og + int_to_size (dr_length api i)" "heap_only w w1" "set_end is = og"
    and "instrs is = [] \<Longrightarrow> set_start is = og"
    and "walk < limit" "dr_decode api (mem w) walk og = (p, i)" "p \<noteq> NULL" "test i"
  shows "loop_found B L api test limit walk og is w walk' og' s w'"
proof -
  obtain run stop where f: "scan_found api test (mem w1) limit p og1 [] run stop walk' og'"
    "insns s = insns is @ i # run" "set_start s = set_start is"
    "set_end s = og1 + code_len api run"
    using assms(1) unfolding loop_found_def by auto
  have "scan_found api test (mem w) limit walk og [] (i # run) stop walk' og'"
    using f(1) assms(2,6-9) heap_onlyD [OF assms(3)] by (simp add: scan_found_def add.assoc)
  moreover have "heap_only w w'"
    using assms(1,3) heap_only_trans unfolding loop_found_def by blast
  ultimately show ?thesis
    using f(2-4) assms(1,2,5) unfolding loop_found_def
    by (intro conjI exI [of _ "[]"] exI [of _ "i # run"] exI [of _ stop]) (simp_all add: add.assoc)
qed

lemma loop_failed_err:
  assumes "scan_inv B L is og instr w" "next_set_err rc walk og' is instr w = Some (res, w')"
    "rc \<in> {RAVE_ETRANSFORM, RAVE_ENOMEM}"
  shows "\<exists>s. res = (rc, walk, og', Some s) \<and> loop_failed B L is w rc s w'"
proof -
  have "set_ptr is \<noteq> NULL" "instr \<noteq> NULL" "owns B L ([instr] @ map fst (instrs is)) w"
    using assms(1) by (auto simp: scan_inv_def owns_def)
  with next_set_err_owned [of "is" B L instr w rc walk og'] assms(2,3) show ?thesis
    by (auto simp: loop_failed_def)
qed

lemma loop_failed_nomem:
  assumes "scan_inv B L is og instr w" "instr_create api w = (NULL, w1)"
    and "next_set_err RAVE_ENOMEM walk og' (is\<lparr>nr_instrs := n, set_end := e,
      instrs := instrs is @ [(instr, i)]\<rparr>) NULL w1 = Some (res, w')"
  shows "\<exists>s. res = (RAVE_ENOMEM, walk, og', Some s) \<and> loop_failed B L is w RAVE_ENOMEM s w'"
proof -
  let ?is = "is\<lparr>nr_instrs := n, set_end := e, instrs := instrs is @ [(instr, i)]\<rparr>"
  have "owns B L (instr # map fst (instrs is)) w1"
    using assms(1,2) owns_malloc_NULL unfolding scan_inv_def instr_create_def by blast
  then have "owns B L (map fst (instrs ?is)) w1"
    by (subst (asm) owns_perm [of _ "map fst (instrs ?is)"]) simp_all
  moreover have "set_ptr ?is \<noteq> NULL" using assms(1) by (simp add: scan_inv_def)
  moreover have "mem w1 = mem w"
    using assms(2) heap_onlyD heap_only_malloc unfolding instr_create_def by blast
  ultimately show ?thesis
    using next_set_err_owned [of ?is B L NULL w1 RAVE_ENOMEM walk og'] assms(3)
    by (auto simp: loop_failed_def)
qed

lemma next_set_loop_spec:
  assumes "next_set_loop fuel api (Some test) limit walk og is instr w = Some ((rc, walk', og', r), w')"
    and "scan_inv B L is og instr w"
  shows "\<exists>s. r = Some s \<and>
    (rc = RAVE_SUCCESS \<and> loop_found B L api test limit walk og is w walk' og' s w' \<or>
     loop_failed B L is w rc s w')"
  using assms
proof (induction fuel arbitrary: walk og "is" instr w)
  case 0
  then show ?case by simp
next
  case (Suc fuel)
  note inv = Suc.prems(2)
  obtain p i where d: "dr_decode api (mem w) walk og = (p, i)" by fastforce
  let ?og = "og + int_to_size (dr_length api i)"
  let ?is = "is\<lparr>nr_instrs := nr_instrs is + 1, set_end := ?og, instrs := instrs is @ [(instr, i)]\<rparr>"
  obtain instr1 w1 where c: "instr_create api w = (instr1, w1)" by fastforce
  have w1: "heap_only w w1" using c heap_only_malloc by (simp add: instr_create_def)
  note fin = next_set_done_owned [OF inv]
  consider
      (limit) "\<not> walk < limit"
    | (invalid) "walk < limit" "p = NULL"
    | (nomem) "walk < limit" "p \<noteq> NULL" "test i" "instr1 = NULL"
    | (take) "walk < limit" "p \<noteq> NULL" "test i" "instr1 \<noteq> NULL"
    | (stop) "walk < limit" "p \<noteq> NULL" "\<not> test i" "instrs is \<noteq> []"
    | (skip) "walk < limit" "p \<noteq> NULL" "\<not> test i" "instrs is = []"
    by blast
  then show ?case
  proof cases
    case limit
    with Suc.prems(1) fin [of walk og] loop_found_done [OF inv] show ?thesis by auto
  next
    case invalid
    with Suc.prems(1) d loop_failed_err [OF inv, of RAVE_ETRANSFORM NULL og] show ?thesis by auto
  next
    case nomem
    with Suc.prems(1) d c loop_failed_nomem [OF inv, of api w1] show ?thesis
      by (fastforce simp: Let_def)
  next
    case take
    have "scan_inv B L ?is ?og instr1 w1" using scan_inv_take [OF inv c] take by blast
    moreover have "next_set_loop fuel api (Some test) limit p ?og ?is instr1 w1 =
        Some ((rc, walk', og', r), w')"
      using Suc.prems(1) take d c by (simp add: Let_def)
    ultimately obtain s where s: "r = Some s"
      "rc = RAVE_SUCCESS \<and> loop_found B L api test limit p ?og ?is w1 walk' og' s w' \<or>
       loop_failed B L ?is w1 rc s w'"
      using Suc.IH by blast
    have e: "set_end is = og" "instrs is = [] \<longrightarrow> set_start is = og"
      using inv by (simp_all add: scan_inv_def)
    have "loop_found B L api test limit p ?og ?is w1 walk' og' s w' \<Longrightarrow>
        loop_found B L api test limit walk og is w walk' og' s w'"
      by (rule loop_found_take [where instr = instr]) (use w1 e take(1-3) d in auto)
    moreover have "loop_failed B L ?is w1 rc s w' \<Longrightarrow> loop_failed B L is w rc s w'"
      using heap_onlyD [OF w1] by (simp add: loop_failed_def)
    ultimately show ?thesis using s by blast
  next
    case stop
    obtain w2 where w2: "next_set_done p ?og is instr w = Some ((RAVE_SUCCESS, p, ?og, Some is), w2)"
      "owns B L (map fst (instrs is)) w2" "heap_only w w2" using fin [of p ?og] by blast
    have "rc = RAVE_SUCCESS \<and> walk' = p \<and> og' = ?og \<and> r = Some is \<and> w' = w2"
      using Suc.prems(1) stop d scan_inv_nr [OF inv] w2(1) by simp
    moreover have "loop_found B L api test limit walk og is w p ?og is w2"
      by (rule loop_found_stop [OF inv w2(2,3)]) (use stop d in auto)
    ultimately show ?thesis by blast
  next
    case skip
    let ?is = "is\<lparr>set_start := ?og, set_end := ?og\<rparr>"
    have "next_set_loop fuel api (Some test) limit p ?og ?is instr w = Some ((rc, walk', og', r), w')"
      using Suc.prems(1) skip d scan_inv_nr [OF inv] by (simp add: Let_def)
    with Suc.IH [OF _ scan_inv_skip [OF inv skip(4)]] obtain s where s: "r = Some s"
      "rc = RAVE_SUCCESS \<and> loop_found B L api test limit p ?og ?is w walk' og' s w' \<or>
       loop_failed B L ?is w rc s w'" by blast
    have "loop_found B L api test limit p ?og ?is w walk' og' s w' \<Longrightarrow>
        loop_found B L api test limit walk og is w walk' og' s w'"
      by (rule loop_found_skip) (use skip d in auto)
    moreover have "loop_failed B L ?is w rc s w' \<Longrightarrow> loop_failed B L is w rc s w'"
      by (simp add: loop_failed_def)
    ultimately show ?thesis using s by blast
  qed
qed

text \<open>The scan ends: as much fuel as there are bytes, and one more, is enough.\<close>

lemma next_set_loop_total:
  assumes "dr_advances api" "scan_inv B L is og instr w" "unat limit - unat walk < fuel"
  shows "\<exists>res. next_set_loop fuel api (Some test) limit walk og is instr w = Some res"
  using assms(2,3)
proof (induction fuel arbitrary: walk og "is" instr w)
  case 0
  then show ?case by simp
next
  case (Suc fuel)
  note inv = Suc.prems(1)
  obtain p i where d: "dr_decode api (mem w) walk og = (p, i)" by fastforce
  let ?og = "og + int_to_size (dr_length api i)"
  let ?is = "is\<lparr>nr_instrs := nr_instrs is + 1, set_end := ?og, instrs := instrs is @ [(instr, i)]\<rparr>"
  obtain instr1 w1 where c: "instr_create api w = (instr1, w1)" by fastforce
  have own: "set_ptr is \<noteq> NULL" "instr \<noteq> NULL" "owns B L ([instr] @ map fst (instrs is)) w"
    using inv by (auto simp: scan_inv_def owns_def)
  have err: "\<exists>res. next_set_err rc walk1 og1 is instr w = Some res" for rc walk1 og1
    using next_set_err_owned [of "is" B L instr w] own by fastforce
  have fin: "\<exists>res. next_set_done walk1 og1 is instr w = Some res" for walk1 og1
    using next_set_done_owned [OF inv] by blast
  show ?case
  proof (cases "walk < limit \<and> p \<noteq> NULL")
    case False
    then show ?thesis using err fin d by auto
  next
    case True
    have less: "unat limit - unat p < fuel"
      using Suc.prems(2) True dr_advancesD [OF assms(1) d] by (auto simp: word_less_nat_alt)
    show ?thesis
    proof (cases "test i")
      case t: True
      show ?thesis
      proof (cases "instr1 = NULL")
        case N: True
        have "owns B L (instr # map fst (instrs is)) w1"
          using own(3) c N owns_malloc_NULL unfolding instr_create_def by fastforce
        then have "owns B L (map fst (instrs ?is)) w1"
          by (subst (asm) owns_perm [of _ "map fst (instrs ?is)"]) simp_all
        then show ?thesis
          using next_set_err_owned [of ?is B L NULL w1 RAVE_ENOMEM p ?og] own(1) True t N d c
          by (auto simp: Let_def)
      next
        case N: False
        with Suc.IH [OF scan_inv_take [OF inv c N] less] True t d c show ?thesis
          by (simp add: Let_def)
      qed
    next
      case t: False
      show ?thesis
      proof (cases "instrs is = []")
        case E: True
        with Suc.IH [OF scan_inv_skip [OF inv E] less] True t d scan_inv_nr [OF inv]
        show ?thesis by (simp add: Let_def)
      next
        case False
        with True t d scan_inv_nr [OF inv] fin show ?thesis by simp
      qed
    qed
  qed
qed

section \<open>The operation\<close>

text \<open>A set as \<open>next_set\<close> leaves it: a run of the code, with its addresses.\<close>

definition set_found ::
  "'i dr_api \<Rightarrow> ('i \<Rightarrow> bool) \<Rightarrow> (ptr \<Rightarrow> byte) \<Rightarrow> ptr \<Rightarrow> ptr \<Rightarrow> uintptr \<Rightarrow> 'i list \<Rightarrow> 'i instr_set \<Rightarrow> 'i list \<Rightarrow>
     ptr \<Rightarrow> uintptr \<Rightarrow> bool" where
  "set_found api test m limit walk og skip s stop walk' og' \<longleftrightarrow>
     scan_found api test m limit walk og skip (insns s) stop walk' og' \<and>
     (instrs s = [] \<longrightarrow> stop = []) \<and> set_start s = og + code_len api skip \<and>
     set_end s = og + code_len api (skip @ insns s) \<and> nr_instrs s = of_nat (length (instrs s))"

lemma next_set_spec:
  assumes "next_set fuel api walk limit og self contents (Some test) w = Some ((rc, walk', og', r), w')"
    and "self \<noteq> NULL" "owns B L [] w"
  shows "rc = RAVE_SUCCESS \<and>
      (\<exists>s skip stop. r = Some s \<and> set_ptr s = self \<and>
         set_found api test (mem w) limit walk og skip s stop walk' og' \<and>
         owns B L (map fst (instrs s)) w' \<and> heap_only w w') \<or>
    rc \<in> {RAVE_ETRANSFORM, RAVE_ENOMEM} \<and> owns B L [] w' \<and> mem w' = mem w \<and>
      (r = contents \<or> (\<exists>s. r = Some s \<and> instrs s = [] \<and> set_ptr s = self))"
proof -
  obtain instr w1 where c: "instr_create api w = (instr, w1)" by fastforce
  have w1: "heap_only w w1" using c heap_only_malloc by (simp add: instr_create_def)
  show ?thesis
  proof (cases "instr = NULL")
    case True
    have "owns B L [] w1"
      using assms(3) c True owns_malloc_NULL unfolding instr_create_def by blast
    with assms(1) c True heap_onlyD [OF w1] show ?thesis by (auto simp: next_set_def)
  next
    case False
    let ?is = "fresh_instr_set self og"
    have inv: "scan_inv B L ?is og instr w1"
      using assms(2) owns_malloc [OF assms(3) c [unfolded instr_create_def] False]
      by (simp add: scan_inv_def fresh_instr_set_def)
    have "next_set_loop fuel api (Some test) limit walk og ?is instr w1 = Some ((rc, walk', og', r), w')"
      using assms(1,2) c False by (simp add: next_set_def instr_set_init_def)
    from next_set_loop_spec [OF this inv] obtain s where s: "r = Some s"
      "rc = RAVE_SUCCESS \<and> loop_found B L api test limit walk og ?is w1 walk' og' s w' \<or>
       loop_failed B L ?is w1 rc s w'" by blast
    have m: "mem w1 = mem w" using heap_onlyD [OF w1] by blast
    from s(2) show ?thesis
    proof
      assume f: "rc = RAVE_SUCCESS \<and> loop_found B L api test limit walk og ?is w1 walk' og' s w'"
      then have "heap_only w w'"
        using w1 heap_only_trans unfolding loop_found_def by blast
      moreover obtain skip stop where "set_found api test (mem w) limit walk og skip s stop walk' og'"
        using f m unfolding loop_found_def set_found_def by (auto simp: fresh_instr_set_def)
      ultimately show ?thesis
        using f s(1) unfolding loop_found_def by (auto simp: fresh_instr_set_def)
    next
      assume "loop_failed B L ?is w1 rc s w'"
      then show ?thesis
        using s(1) m by (auto simp: loop_failed_def fresh_instr_set_def)
    qed
  qed
qed

lemma next_set_total:
  assumes "dr_advances api" "self \<noteq> NULL" "owns B L [] w" "unat limit - unat walk < fuel"
  shows "\<exists>res. next_set fuel api walk limit og self contents (Some test) w = Some res"
proof -
  obtain instr w1 where c: "instr_create api w = (instr, w1)" by fastforce
  show ?thesis
  proof (cases "instr = NULL")
    case False
    have "scan_inv B L (fresh_instr_set self og) og instr w1"
      using assms(2) owns_malloc [OF assms(3) c [unfolded instr_create_def] False]
      by (simp add: scan_inv_def fresh_instr_set_def)
    from next_set_loop_total [OF assms(1) this assms(4)] show ?thesis
      using assms(2) c False by (simp add: next_set_def instr_set_init_def)
  qed (use c in \<open>simp add: next_set_def\<close>)
qed

end
