(* ===== verification/Transform_Add.thy ===== *)
theory Transform_Add
  imports Transform_Scan
begin

text \<open>
  \<open>transform_add_function\<close> as a whole: when a candidate set is accepted as an epilogue, what the
  transformable it adds looks like, and which blocks are live after each way it can end.
\<close>

section \<open>Recognising an epilogue\<close>

lemma regs_match_iff:
  assumes "length epi \<le> k" "k \<le> length rs"
  shows "regs_match api rs (int k - 1) epi \<longleftrightarrow>
    map (\<lambda>(p, i). dr_dst_reg api i) epi = take (length epi) (rev (take k rs))"
  using assms
proof (induction epi arbitrary: k)
  case (Cons x epi)
  obtain p i where x: "x = (p, i)" by fastforce
  obtain j where k: "k = Suc j" using Cons.prems(1) by (cases k) simp_all
  have "rev (take k rs) = rs ! j # rev (take j rs)"
    using Cons.prems(2) by (simp add: k take_Suc_conv_app_nth)
  moreover have "regs_match api rs (int k - 1) (x # epi) \<longleftrightarrow>
      rs ! j = dr_dst_reg api i \<and> regs_match api rs (int j - 1) epi"
    using Cons.prems(2) by (simp add: x k)
  ultimately show ?case
    using Cons.IH [of j] Cons.prems k x by auto
qed simp

lemma is_epilogue_iff:
  assumes "nr_instrs pro = of_nat (length (instrs pro))" "nr_instrs epi = of_nat (length (instrs epi))"
    and "length (instrs pro) < 2 ^ 64" "length (instrs epi) < 2 ^ 64"
  shows "is_epilogue api pro epi \<longleftrightarrow> mirrors api pro epi"
proof -
  let ?rs = "map (\<lambda>(p, i). dr_src_reg api i) (instrs pro)"
  have nr: "nr_instrs pro = nr_instrs epi \<longleftrightarrow> length (instrs pro) = length (instrs epi)"
    using assms by (metis unat_of_nat64)
  have eq: "?rs = map (dr_src_reg api) (insns pro)"
    "map (\<lambda>(p, i). dr_dst_reg api i) (instrs epi) = map (dr_dst_reg api) (insns epi)"
    by (simp_all add: case_prod_beta)
  show ?thesis
  proof (cases "length (instrs pro) = length (instrs epi)")
    case True
    then have "regs_match api ?rs (int (length ?rs) - 1) (instrs epi) \<longleftrightarrow>
        map (dr_dst_reg api) (insns epi) = rev (map (dr_src_reg api) (insns pro))"
      using regs_match_iff [of "instrs epi" "length ?rs" ?rs api] unfolding eq by simp
    with True nr show ?thesis
      unfolding is_epilogue_def mirrors_def Let_def by simp
  next
    case False
    with nr mirrors_length show ?thesis
      unfolding is_epilogue_def by metis
  qed
qed

section \<open>What a transformable holds\<close>

definition set_hold :: "'i instr_set \<Rightarrow> ptr list" where
  "set_hold s = set_ptr s # map fst (instrs s)"

definition order_hold :: "(ptr \<times> c_int list) option \<Rightarrow> ptr list" where
  "order_hold t = (case t of None \<Rightarrow> [] | Some (p, _) \<Rightarrow> [p])"

definition tf_hold :: "'i transformable \<Rightarrow> ptr list" where
  "tf_hold tf = tf_ptr tf # map fst (instrs (prologue tf)) @ concat (map set_hold (epilogues tf)) @
     order_hold (tf_order tf)"

lemma owns_append:
  "owns B L (xs @ ys) w \<longleftrightarrow>
     owns B (L \<union> set ys) xs w \<and> distinct ys \<and> NULL \<notin> set ys \<and> L \<inter> set ys = {} \<and>
     fst ` B \<subseteq> L"
  unfolding owns_def by auto

lemma live_blocks: "fst ` set (live w) \<subseteq> live_set w"
  by (simp add: live_set_def)

lemma owns_self: "NULL \<notin> live_set w \<Longrightarrow> owns (set (live w)) (live_set w) [] w"
  by (simp add: owns_def live_set_def)

lemma owns_head: "owns B L (p # ps) w \<Longrightarrow> p \<noteq> NULL"
  by (auto simp: owns_def)

lemma owns_free_head:
  assumes "owns B L (p # ps) w"
  shows "\<exists>w'. rave_free p w = Some w' \<and> owns B L ps w' \<and> mem w' = mem w"
  using owns_free [OF assms, of p] heap_onlyD heap_only_free by auto

lemma close_epilogues_owned:
  assumes "owns B L (concat (map set_hold ss) @ ps) w"
  shows "\<exists>w'. close_epilogues ss w = Some w' \<and> owns B L ps w' \<and> mem w' = mem w"
  using assms
proof (induction ss arbitrary: w)
  case (Cons s ss)
  let ?rest = "concat (map set_hold ss) @ ps"
  have "owns B L (map fst (instrs s) @ set_ptr s # ?rest) w"
    using Cons.prems by (subst (asm) owns_perm) (simp_all add: set_hold_def)
  then obtain w1 where w1: "close_chain (instrs s) w = Some w1" "owns B L (set_ptr s # ?rest) w1" "mem w1 = mem w"
    using close_chain_owned by blast
  obtain w2 where w2: "rave_free (set_ptr s) w1 = Some w2" "owns B L ?rest w2" "mem w2 = mem w1"
    using owns_free_head [OF w1(2)] by blast
  have "set_ptr s \<noteq> NULL" using owns_head [OF w1(2)] .
  with w1 w2 Cons.IH [OF w2(2)] show ?case
    by (simp add: instr_set_close_def instr_set_destroy_def)
qed simp

lemma transformable_close_owned:
  assumes "owns B L (tf_hold tf @ ps) w"
  shows "\<exists>w'. transformable_close tf w =
      Some (tf\<lparr>prologue := (prologue tf)\<lparr>instrs := []\<rparr>, epilogues := []\<rparr>, w') \<and>
    owns B L (tf_ptr tf # ps) w' \<and> mem w' = mem w"
proof -
  let ?epi = "concat (map set_hold (epilogues tf))"
  have "owns B L (map fst (instrs (prologue tf)) @ ?epi @ order_hold (tf_order tf) @ tf_ptr tf # ps) w"
    using assms by (subst (asm) owns_perm) (simp_all add: tf_hold_def)
  then obtain w1 where w1: "close_chain (instrs (prologue tf)) w = Some w1" "mem w1 = mem w"
    "owns B L (?epi @ order_hold (tf_order tf) @ tf_ptr tf # ps) w1"
    using close_chain_owned by blast
  obtain w2 where w2: "close_epilogues (epilogues tf) w1 = Some w2" "mem w2 = mem w1"
    "owns B L (order_hold (tf_order tf) @ tf_ptr tf # ps) w2"
    using close_epilogues_owned [OF w1(3)] by blast
  show ?thesis
  proof (cases "tf_order tf")
    case None
    with w1 w2 show ?thesis by (simp add: transformable_close_def order_hold_def)
  next
    case (Some t)
    obtain op ord where t: "t = (op, ord)" by fastforce
    have "owns B L (op # tf_ptr tf # ps) w2" using w2(3) by (simp add: order_hold_def Some t)
    then obtain w3 where "rave_free op w2 = Some w3" "owns B L (tf_ptr tf # ps) w3" "mem w3 = mem w2"
      using owns_free_head by blast
    with w1 w2 Some t show ?thesis by (simp add: transformable_close_def)
  qed
qed

section \<open>The hunt for epilogues\<close>

text \<open>
  The candidates the loop sees, each with the instructions skipped before it and the one that
  ended it. After each candidate the address counter \<open>og\<close> is moved by the size of the set, on
  top of where \<open>next_set\<close> has left it.
\<close>

type_synonym 'i candidate = "'i list \<times> 'i instr_set \<times> 'i list"

definition cand_set :: "'i candidate \<Rightarrow> 'i instr_set" where
  "cand_set c = fst (snd c)"

fun hunted ::
  "'i dr_api \<Rightarrow> (ptr \<Rightarrow> byte) \<Rightarrow> ptr \<Rightarrow> ptr \<Rightarrow> uintptr \<Rightarrow> 'i candidate list \<Rightarrow> ptr \<Rightarrow> bool" where
  "hunted api m limit walk og [] walk' \<longleftrightarrow> \<not> walk < limit \<and> walk' = walk"
| "hunted api m limit walk og ((skip, s, stop) # cs) walk' \<longleftrightarrow>
     walk < limit \<and>
     (\<exists>walk1 og1.
        set_found api (test_instr_epilogue api) m limit walk og skip s stop walk1 og1 \<and>
        hunted api m limit walk1 (og1 + (set_end s - set_start s)) cs walk')"

definition maybe_ptr :: "ptr \<Rightarrow> ptr list" where
  "maybe_ptr p = (if p = NULL then [] else [p])"

definition hunt_failed ::
  "blocks \<Rightarrow> ptr set \<Rightarrow> 'i transformable \<Rightarrow> 'i transformable \<Rightarrow> ptr \<Rightarrow> 'i instr_set option \<Rightarrow> world \<Rightarrow> bool" where
  "hunt_failed B L tf tf' is' contents' w' \<longleftrightarrow>
     (\<exists>es. tf' = tf\<lparr>epilogues := es\<rparr>) \<and> owns B L (maybe_ptr is' @ tf_hold tf') w' \<and>
     (\<forall>s. contents' = Some s \<longrightarrow> instrs s = [])"

definition hunt_done ::
  "blocks \<Rightarrow> ptr set \<Rightarrow> 'i dr_api \<Rightarrow> ptr \<Rightarrow> ptr \<Rightarrow> uintptr \<Rightarrow> (ptr \<Rightarrow> byte) \<Rightarrow> 'i transformable \<Rightarrow> 'i transformable \<Rightarrow>
     ptr \<Rightarrow> ptr \<Rightarrow> world \<Rightarrow> bool" where
  "hunt_done B L api limit walk og m tf tf' walk' is' w' \<longleftrightarrow>
     (\<exists>cs. hunted api m limit walk og cs walk' \<and>
        tf' = tf\<lparr>epilogues := epilogues tf @ filter (mirrors api (prologue tf)) (map cand_set cs)\<rparr>) \<and>
     owns B L (is' # tf_hold tf') w'"

lemma tf_hold_add:
  assumes "owns B L (map fst (instrs s) @ set_ptr s # tf_hold tf) w"
  shows "owns B L (tf_hold (tf\<lparr>epilogues := epilogues tf @ [s]\<rparr>)) w"
  using assms by (subst owns_perm [of _ "map fst (instrs s) @ set_ptr s # tf_hold tf"])
    (simp_all add: tf_hold_def set_hold_def)

lemma next_set_held:
  assumes "next_set fuel api walk limit og is contents (Some test) w = Some ((rc, walk', og', r), w')"
    and "owns B L (is # ps) w"
  shows "mem w' = mem w \<and>
    (rc = RAVE_SUCCESS \<and>
      (\<exists>s skip stop. r = Some s \<and> set_ptr s = is \<and>
         set_found api test (mem w) limit walk og skip s stop walk' og' \<and>
         owns B L (map fst (instrs s) @ set_ptr s # ps) w') \<or>
     rc \<in> {RAVE_ETRANSFORM, RAVE_ENOMEM} \<and> owns B L (is # ps) w' \<and>
      (r = contents \<or> (\<exists>s. r = Some s \<and> instrs s = [] \<and> set_ptr s = is)))"
proof -
  have own: "owns B (L \<union> set (is # ps)) [] w" and ps: "distinct (is # ps)" "NULL \<notin> set (is # ps)"
    "L \<inter> set (is # ps) = {}" "fst ` B \<subseteq> L"
    using assms(2) owns_append [of B L "[]" "is # ps" w] unfolding append_Nil by blast+
  have all: "owns B (L \<union> set (is # ps)) xs w' \<Longrightarrow> owns B L (xs @ is # ps) w'" for xs
    using ps owns_append [of B L xs "is # ps" w'] by blast
  show ?thesis
    using next_set_spec [OF assms(1) owns_head [OF assms(2)] own] all all [of "[]"] heap_onlyD
    by fastforce
qed

lemma find_epilogues_spec:
  assumes "find_epilogues fuel inner api limit walk og tf is contents w =
      Some ((rc, walk', tf', is', contents'), w')"
    and "owns B L (is # tf_hold tf) w" "\<forall>s. contents = Some s \<longrightarrow> instrs s = []"
    and "nr_instrs (prologue tf) = of_nat (length (instrs (prologue tf)))"
  shows "mem w' = mem w \<and>
    (rc = RAVE_SUCCESS \<and> hunt_done B L api limit walk og (mem w) tf tf' walk' is' w' \<or>
     rc \<in> {RAVE_ETRANSFORM, RAVE_ENOMEM} \<and> hunt_failed B L tf tf' is' contents' w')"
  using assms
proof (induction fuel arbitrary: walk og tf "is" contents w)
  case 0
  then show ?case by simp
next
  case (Suc fuel)
  show ?case
  proof (cases "walk < limit")
    case False
    have "hunt_done B L api limit walk og (mem w) tf tf walk is w"
      unfolding hunt_done_def using Suc.prems(2) False by (intro conjI exI [of _ "[]"]) simp_all
    then show ?thesis using Suc.prems(1) False by simp
  next
    case True
    obtain rc1 walk1 og1 r w1 where n:
      "next_set inner api walk limit og is contents (Some (test_instr_epilogue api)) w =
        Some ((rc1, walk1, og1, r), w1)"
      using Suc.prems(1) True by (auto simp: bind_eq_Some_conv split: prod.splits)
    note held = next_set_held [OF n Suc.prems(2)]
    have "is": "is \<noteq> NULL" using owns_head [OF Suc.prems(2)] .
    show ?thesis
    proof (cases "rc1 = RAVE_SUCCESS")
      case False
      then have "hunt_failed B L tf tf is r w1"
        unfolding hunt_failed_def using held Suc.prems(3) "is"
        by (auto simp: maybe_ptr_def intro: exI [of _ "epilogues tf"])
      then show ?thesis using Suc.prems(1) True n False held by simp
    next
      case ok: True
      obtain s skip stop where s: "r = Some s" "set_ptr s = is"
        "set_found api (test_instr_epilogue api) (mem w) limit walk og skip s stop walk1 og1"
        "owns B L (map fst (instrs s) @ set_ptr s # tf_hold tf) w1" "mem w1 = mem w"
        using held ok by auto
      have nr: "nr_instrs s = of_nat (length (instrs s))"
        using s(3) by (simp add: set_found_def)
      have "length (instrs s) < 2 ^ 64" "length (instrs (prologue tf)) < 2 ^ 64"
        using s(4) distinct_ptrs_count [of "map fst (instrs s)"]
          distinct_ptrs_count [of "map fst (instrs (prologue tf))"]
        by (simp_all add: owns_def tf_hold_def)
      from is_epilogue_iff [OF Suc.prems(4) nr this(2,1)]
      have epi: "is_epilogue api (prologue tf) s \<longleftrightarrow> mirrors api (prologue tf) s" .
      let ?og2 = "og1 + (set_end s - set_start s)"
      have hunted: "hunted api (mem w) limit walk og ((skip, s, stop) # cs) walk'"
        if "hunted api (mem w) limit walk1 ?og2 cs walk'" for cs
        using that True s(3) by auto
      show ?thesis
      proof (cases "mirrors api (prologue tf) s")
        case m: True
        let ?tf = "tf\<lparr>epilogues := epilogues tf @ [s]\<rparr>"
        obtain is2 w2 where c: "instr_set_create w1 = (is2, w2)" by fastforce
        have w2: "mem w2 = mem w"
          using c s(5) heap_only_malloc heap_onlyD unfolding instr_set_create_def by metis
        have own: "owns B L (tf_hold ?tf) w1" using tf_hold_add [OF s(4)] .
        show ?thesis
        proof (cases "is2 = NULL")
          case N: True
          have "owns B L (tf_hold ?tf) w2"
            using own c N owns_malloc_NULL unfolding instr_set_create_def by blast
          then have "hunt_failed B L tf ?tf NULL None w2"
            by (auto simp: hunt_failed_def maybe_ptr_def)
          then show ?thesis using Suc.prems(1) True n ok s epi m c N w2 by (simp add: Let_def)
        next
          case N: False
          have "find_epilogues fuel inner api limit walk1 ?og2 ?tf is2 None w2 =
              Some ((rc, walk', tf', is', contents'), w')"
            using Suc.prems(1) True n ok s epi m c N by (simp add: Let_def)
          moreover have "owns B L (is2 # tf_hold ?tf) w2"
            using owns_malloc [OF own c [unfolded instr_set_create_def] N] .
          ultimately have IH: "mem w' = mem w2 \<and>
              (rc = RAVE_SUCCESS \<and> hunt_done B L api limit walk1 ?og2 (mem w2) ?tf tf' walk' is' w' \<or>
               rc \<in> {RAVE_ETRANSFORM, RAVE_ENOMEM} \<and> hunt_failed B L ?tf tf' is' contents' w')"
            using Suc.prems(4) by (intro Suc.IH) auto
          have "hunt_done B L api limit walk og (mem w) tf tf' walk' is' w'"
            if d: "hunt_done B L api limit walk1 ?og2 (mem w) ?tf tf' walk' is' w'"
          proof -
            obtain cs where "hunted api (mem w) limit walk1 ?og2 cs walk'"
              "tf' = ?tf\<lparr>epilogues := epilogues ?tf @ filter (mirrors api (prologue ?tf)) (map cand_set cs)\<rparr>"
              using d unfolding hunt_done_def by blast
            with d m hunted show ?thesis
              unfolding hunt_done_def by (intro conjI exI [of _ "(skip, s, stop) # cs"]) (simp_all add: cand_set_def)
          qed
          moreover have "hunt_failed B L ?tf tf' is' contents' w' \<Longrightarrow> hunt_failed B L tf tf' is' contents' w'"
            unfolding hunt_failed_def by auto
          ultimately show ?thesis using IH w2 by auto
        qed
      next
        case m: False
        obtain w2 where w2: "close_chain (instrs s) w1 = Some w2" "owns B L (set_ptr s # tf_hold tf) w2"
          "mem w2 = mem w1"
          using close_chain_owned [OF s(4)] by blast
        have "find_epilogues fuel inner api limit walk1 ?og2 tf is (Some (s\<lparr>instrs := []\<rparr>)) w2 =
            Some ((rc, walk', tf', is', contents'), w')"
          using Suc.prems(1) True n ok s(1) epi m w2(1) "is" by (simp add: Let_def instr_set_close_def)
        then have IH: "mem w' = mem w2 \<and>
            (rc = RAVE_SUCCESS \<and> hunt_done B L api limit walk1 ?og2 (mem w2) tf tf' walk' is' w' \<or>
             rc \<in> {RAVE_ETRANSFORM, RAVE_ENOMEM} \<and> hunt_failed B L tf tf' is' contents' w')"
          using Suc.prems(4) w2(2) s(2) by (intro Suc.IH) auto
        have "hunt_done B L api limit walk og (mem w) tf tf' walk' is' w'"
          if d: "hunt_done B L api limit walk1 ?og2 (mem w) tf tf' walk' is' w'"
        proof -
          obtain cs where "hunted api (mem w) limit walk1 ?og2 cs walk'"
            "tf' = tf\<lparr>epilogues := epilogues tf @ filter (mirrors api (prologue tf)) (map cand_set cs)\<rparr>"
            using d unfolding hunt_done_def by blast
          with d m hunted show ?thesis
            unfolding hunt_done_def by (intro conjI exI [of _ "(skip, s, stop) # cs"]) (simp_all add: cand_set_def)
        qed
        then show ?thesis using IH w2(3) s(5) by auto
      qed
    qed
  qed
qed

section \<open>The whole operation\<close>

lemma add_function_err_owned:
  assumes "add_function_err ret tf is contents self w = Some (rc, self', w')"
    and "owns B L (maybe_ptr is @ tf_hold tf) w" "\<forall>s. contents = Some s \<longrightarrow> instrs s = []"
  shows "rc = ret \<and> self' = self \<and> owns B L [] w' \<and> mem w' = mem w"
proof -
  obtain c w1 where w1: "instr_set_close is contents w = Some (c, w1)"
    using assms(1) unfolding add_function_err_def by (auto simp: bind_eq_Some_conv)
  then have "w1 = w"
    using assms(3) by (auto simp: instr_set_close_def bind_eq_Some_conv split: if_splits option.splits)
  obtain w2 where w2: "instr_set_destroy is w1 = Some w2" "owns B L (tf_hold tf @ []) w2" "mem w2 = mem w"
    using assms(2) \<open>w1 = w\<close> owns_free_head [of B L "is" "tf_hold tf" w]
    by (cases "is = NULL") (auto simp: instr_set_destroy_def maybe_ptr_def)
  obtain tf3 w3 where w3: "transformable_close tf w2 = Some (tf3, w3)" "owns B L [tf_ptr tf] w3" "mem w3 = mem w2"
    using transformable_close_owned [OF w2(2)] by blast
  obtain w4 where w4: "rave_free (tf_ptr tf) w3 = Some w4" "owns B L [] w4" "mem w4 = mem w3"
    using owns_free_head [OF w3(2)] by blast
  have "tf_ptr tf \<noteq> NULL" using owns_head [OF w3(2)] .
  with assms(1) w1 w2 w3 w4 show ?thesis
    by (simp add: add_function_err_def transformable_destroy_def)
qed

text \<open>What a successful call has found in the function's code.\<close>

definition function_found ::
  "'i dr_api \<Rightarrow> (ptr \<Rightarrow> byte) \<Rightarrow> ptr \<Rightarrow> func \<Rightarrow> 'i transformable \<Rightarrow> 'i list \<Rightarrow> 'i list \<Rightarrow> 'i candidate list \<Rightarrow> bool" where
  "function_found api m bytes rec tf skip stop cs \<longleftrightarrow>
     (\<exists>walk og.
        set_found api (test_instr_prologue api) m (OFFSET bytes (flen rec)) bytes (faddr rec)
          skip (prologue tf) stop walk og \<and>
        hunted api m (OFFSET bytes (flen rec)) walk og cs (OFFSET bytes (flen rec))) \<and>
     2 \<le> tf_slots tf \<and> epilogues tf = filter (mirrors api (prologue tf)) (map cand_set cs) \<and>
     epilogues tf \<noteq> [] \<and> tf_record tf = rec \<and>
     (\<exists>op. tf_order tf = Some (op, map of_nat [0..<tf_slots tf]))"

lemma transformable_create_ptr:
  assumes "transformable_create w = (tp, w1)" "tp \<noteq> NULL"
  shows "tp + offset_prologue \<noteq> NULL"
proof -
  have "unat tp + 104 < 2 ^ 64"
    using malloc_fresh [OF assms [unfolded transformable_create_def]]
    by (simp add: fresh_block_iff sizeof_transformable_def)
  then have "unat (tp + offset_prologue) = unat tp + 32"
    using unat_plus_nowrap [of tp 32] by (simp add: offset_prologue_def)
  then show ?thesis by (metis add_is_0 unat_0 zero_neq_numeral)
qed

definition add_post ::
  "'i dr_api \<Rightarrow> 'i transform \<Rightarrow> func \<Rightarrow> ptr \<Rightarrow> world \<Rightarrow> rave_errno \<Rightarrow> 'i transform \<Rightarrow> world \<Rightarrow> bool" where
  "add_post api self rec bytes w rc self' w' \<longleftrightarrow>
     mem w' = mem w \<and>
     (if rc = RAVE_SUCCESS then
        \<exists>tf skip stop cs.
          self' = self\<lparr>transformables := transformables self @ [tf]\<rparr> \<and>
          function_found api (mem w) bytes rec tf skip stop cs \<and> owns (set (live w)) (live_set w) (tf_hold tf) w'
      else rc \<in> {RAVE_ETRANSFORM, RAVE_ENOMEM} \<and> self' = self \<and>
        owns (set (live w)) (live_set w) [] w')"

text \<open>The part after the prologue was found: it either adds the function or gives everything back.\<close>

lemma add_function_tail:
  fixes tp :: ptr and rec :: func and bytes :: ptr and api :: "'a dr_api"
  assumes eq: "transform_add_function fuel api self rec bytes w = Some (rc, self', w')"
    and create: "transformable_create w = (tp, w1)" "tp \<noteq> NULL"
    and scan: "next_set fuel api bytes (OFFSET bytes (flen rec)) (faddr rec) (tp + offset_prologue)
        (Some (fresh_instr_set (tp + offset_prologue) (faddr rec))) (Some (test_instr_prologue api)) w1 =
        Some ((RAVE_SUCCESS, walk1, og1, Some p), w2)"
    and found: "set_found api (test_instr_prologue api) (mem w) (OFFSET bytes (flen rec)) bytes (faddr rec)
        skip p stop walk1 og1"
    and own: "owns (set (live w)) (live_set w) (map fst (instrs p) @ [tp]) w2" and m2: "mem w2 = mem w"
  shows "add_post api self rec bytes w rc self' w'"
proof -
  let ?B = "set (live w)" and ?L = "live_set w" and ?limit = "OFFSET bytes (flen rec)"
  let ?tf1 = "(transformable_init tp rec)\<lparr>prologue := p\<rparr>"
  have pro: "prologue (transformable_init tp rec) = fresh_instr_set (tp + offset_prologue) (faddr rec)"
    "set_ptr (fresh_instr_set (tp + offset_prologue) (faddr rec) :: 'a instr_set) = tp + offset_prologue"
    by (simp_all add: transformable_init_def fresh_instr_set_def)
  have h1: "tf_hold ?tf1 = tp # map fst (instrs p)"
    by (simp add: tf_hold_def order_hold_def transformable_init_def)
  have own1: "owns ?B ?L (maybe_ptr NULL @ tf_hold ?tf1) w2"
    using own by (subst (asm) owns_perm) (simp_all add: h1 maybe_ptr_def)
  have nr: "nr_instrs p = of_nat (length (instrs p))" using found by (simp add: set_found_def)
  have len: "length (instrs p) < 2 ^ 64"
    using own distinct_ptrs_count [of "map fst (instrs p)"] by (simp add: owns_def)
  then have nr2: "nr_instrs p < 2 \<longleftrightarrow> length (instrs p) < 2"
    by (simp add: nr word_less_nat_alt unat_of_nat64)
  have err: "add_post api self rec bytes w rc self' w'"
    if "add_function_err e tf is contents self v = Some (rc, self', w')" "e \<in> {RAVE_ETRANSFORM, RAVE_ENOMEM}"
      "owns ?B ?L (maybe_ptr is @ tf_hold tf) v" "\<forall>s. contents = Some s \<longrightarrow> instrs s = []" "mem v = mem w"
    for e tf "is" contents v
    using add_function_err_owned [OF that(1,3,4)] that(2,5) by (auto simp: add_post_def)
  note eq = eq [unfolded transform_add_function_def Let_def create(1) prod.case pro scan]
  show ?thesis
  proof (cases "nr_instrs p < 2")
    case True
    with eq create(2) have "add_function_err RAVE_ETRANSFORM ?tf1 NULL None self w2 = Some (rc, self', w')"
      by simp
    from err [OF this _ own1] m2 show ?thesis by simp
  next
    case ge: False
    obtain op w3 where op: "rave_malloc (unat (4 * nr_instrs p)) w2 = (op, w3)" by fastforce
    have m3: "mem w3 = mem w" using op heap_only_malloc heap_onlyD m2 by metis
    show ?thesis
    proof (cases "op = NULL")
      case True
      with eq create(2) ge op have
        "add_function_err RAVE_ENOMEM ?tf1 NULL None self w3 = Some (rc, self', w')" by simp
      from err [OF this _ owns_malloc_NULL [OF own1 op [unfolded True]]] m3 show ?thesis by simp
    next
      case opN: False
      let ?tf2 = "?tf1\<lparr>tf_order := Some (op, identity_order (nr_instrs p))\<rparr>"
      have "owns ?B ?L (op # tp # map fst (instrs p)) w3"
        using owns_malloc [OF own1 op opN] by (simp add: h1 maybe_ptr_def)
      then have own3: "owns ?B ?L (maybe_ptr NULL @ tf_hold ?tf2) w3"
        by (subst (asm) owns_perm)
          (simp_all add: tf_hold_def order_hold_def maybe_ptr_def transformable_init_def)
      obtain "is" w4 where c: "instr_set_create w3 = (is, w4)" by fastforce
      have m4: "mem w4 = mem w"
        using c heap_only_malloc heap_onlyD m3 unfolding instr_set_create_def by metis
      show ?thesis
      proof (cases "is = NULL")
        case True
        with eq create(2) ge op opN c have
          "add_function_err RAVE_ENOMEM ?tf2 NULL None self w4 = Some (rc, self', w')" by simp
        from err [OF this _ owns_malloc_NULL [OF own3 c [unfolded True instr_set_create_def]]] m4
        show ?thesis by simp
      next
        case isN: False
        have own4: "owns ?B ?L (is # tf_hold ?tf2) w4"
          using owns_malloc [OF own3 c [unfolded instr_set_create_def] isN] by (simp add: maybe_ptr_def)
        obtain rc2 walk2 tf3 is2 contents2 w5 where f:
          "find_epilogues fuel fuel api ?limit walk1 og1 ?tf2 is None w4 =
            Some ((rc2, walk2, tf3, is2, contents2), w5)"
          using eq create(2) ge op opN c isN by (auto simp: bind_eq_Some_conv split: prod.splits)
        have "mem w5 = mem w4 \<and>
            (rc2 = RAVE_SUCCESS \<and> hunt_done ?B ?L api ?limit walk1 og1 (mem w4) ?tf2 tf3 walk2 is2 w5 \<or>
             rc2 \<in> {RAVE_ETRANSFORM, RAVE_ENOMEM} \<and> hunt_failed ?B ?L ?tf2 tf3 is2 contents2 w5)"
          by (rule find_epilogues_spec [OF f own4]) (simp_all add: nr)
        then have m5: "mem w5 = mem w" and cases:
          "rc2 = RAVE_SUCCESS \<and> hunt_done ?B ?L api ?limit walk1 og1 (mem w) ?tf2 tf3 walk2 is2 w5 \<or>
           rc2 \<in> {RAVE_ETRANSFORM, RAVE_ENOMEM} \<and> hunt_failed ?B ?L ?tf2 tf3 is2 contents2 w5"
          using m4 by auto
        show ?thesis
        proof (cases "rc2 = RAVE_SUCCESS")
          case False
          with eq create(2) ge op opN c isN f have
            "add_function_err rc2 tf3 is2 contents2 self w5 = Some (rc, self', w')" by simp
          from err [OF this] cases False m5 show ?thesis by (simp add: hunt_failed_def)
        next
          case True
          then obtain cs where cs: "hunted api (mem w) ?limit walk1 og1 cs walk2"
            "tf3 = ?tf2\<lparr>epilogues := epilogues ?tf2 @ filter (mirrors api (prologue ?tf2)) (map cand_set cs)\<rparr>"
            "owns ?B ?L (is2 # tf_hold tf3) w5"
            using cases by (auto simp: hunt_done_def)
          obtain w6 where w6: "rave_free is2 w5 = Some w6" "owns ?B ?L (tf_hold tf3) w6" "mem w6 = mem w5"
            using owns_free_head [OF cs(3)] by blast
          have "is2 \<noteq> NULL" using owns_head [OF cs(3)] .
          with eq create(2) ge op opN c isN f True w6(1) have rest:
            "(if walk2 \<noteq> ?limit then add_function_err RAVE_ETRANSFORM tf3 NULL None self w6
              else if epilogues tf3 = [] then add_function_err RAVE_ETRANSFORM tf3 NULL None self w6
              else Some (RAVE_SUCCESS, self\<lparr>transformables := transformables self @ [tf3]\<rparr>, w6)) =
             Some (rc, self', w')"
            by (simp add: instr_set_destroy_def)
          show ?thesis
          proof (cases "walk2 = ?limit \<and> epilogues tf3 \<noteq> []")
            case False
            with rest have "add_function_err RAVE_ETRANSFORM tf3 NULL None self w6 = Some (rc, self', w')"
              by (auto split: if_splits)
            from err [OF this] w6 m5 show ?thesis by (simp add: maybe_ptr_def)
          next
            case ok: True
            have "unat (nr_instrs p) = length (instrs p)"
              unfolding nr by (rule unat_of_nat64 [OF len])
            then have "identity_order (nr_instrs p) = map of_nat [0..<length (instrs p)]"
              by (simp add: identity_order_def)
            then have "function_found api (mem w) bytes rec tf3 skip stop cs"
              unfolding function_found_def using found cs(1,2) ok ge nr2
              by (auto simp: tf_slots_def transformable_init_def)
            with ok rest w6 m5 show ?thesis by (auto simp: add_post_def)
          qed
        qed
      qed
    qed
  qed
qed

lemma add_function_spec:
  fixes api :: "'a dr_api"
  assumes eq: "transform_add_function fuel api self rec bytes w = Some (rc, self', w')"
    and "NULL \<notin> live_set w"
  shows "add_post api self rec bytes w rc self' w' \<or>
    (\<exists>tp. rc \<in> {RAVE_ETRANSFORM, RAVE_ENOMEM} \<and> self' = self \<and> mem w' = mem w \<and>
       owns (set (live w)) (live_set w) [tp] w')"
proof -
  let ?limit = "OFFSET bytes (flen rec)"
  obtain tp w1 where c: "transformable_create w = (tp, w1)" by fastforce
  have m1: "mem w1 = mem w"
    using c heap_only_malloc heap_onlyD unfolding transformable_create_def by metis
  show ?thesis
  proof (cases "tp = NULL")
    case True
    then have "owns (set (live w)) (live_set w) [] w1"
      using owns_malloc_NULL [OF owns_self [OF assms(2)]] c unfolding transformable_create_def by blast
    with eq c True m1 show ?thesis
      by (auto simp: transform_add_function_def add_post_def)
  next
    case False
    have own: "owns (set (live w)) (live_set w) [tp] w1"
      using owns_malloc [OF owns_self [OF assms(2)] c [unfolded transformable_create_def] False] .
    let ?is = "tp + offset_prologue"
    let ?contents = "Some (fresh_instr_set ?is (faddr rec))"
    have pro: "prologue (transformable_init tp rec) = fresh_instr_set ?is (faddr rec)"
      "set_ptr (fresh_instr_set ?is (faddr rec) :: 'a instr_set) = ?is"
      by (simp_all add: transformable_init_def fresh_instr_set_def)
    note eq' = eq [unfolded transform_add_function_def Let_def c prod.case pro]
    obtain rc1 walk1 og1 r w2 where n: "next_set fuel api bytes ?limit (faddr rec) ?is ?contents
        (Some (test_instr_prologue api)) w1 = Some ((rc1, walk1, og1, r), w2)"
      using eq' False pro(2) by (auto simp: bind_eq_Some_conv)
    have own': "owns (set (live w)) (live_set w \<union> {tp}) [] w1" "tp \<notin> live_set w" "tp \<noteq> NULL"
      using own owns_append [of "set (live w)" "live_set w" "[]" "[tp]" w1] by auto
    note sp = next_set_spec [OF n transformable_create_ptr [OF c False] own'(1)]
    show ?thesis
    proof (cases "rc1 = RAVE_SUCCESS")
      case True
      then obtain p skip stop where p: "r = Some p" "owns (set (live w)) (live_set w \<union> {tp}) (map fst (instrs p)) w2"
        "set_found api (test_instr_prologue api) (mem w) ?limit bytes (faddr rec) skip p stop walk1 og1"
        "heap_only w1 w2"
        using sp m1 by auto
      have "owns (set (live w)) (live_set w) (map fst (instrs p) @ [tp]) w2"
        using p(2) own' live_blocks owns_append [of "set (live w)" "live_set w" "map fst (instrs p)" "[tp]" w2] by simp
      with add_function_tail [OF eq c False _ p(3)] n True p(1) heap_onlyD [OF p(4)] m1
      show ?thesis by simp
    next
      case False
      then have "owns (set (live w)) (live_set w) [tp] w2" "mem w2 = mem w" "rc1 \<in> {RAVE_ETRANSFORM, RAVE_ENOMEM}"
        using sp own' m1 live_blocks owns_append [of "set (live w)" "live_set w" "[]" "[tp]" w2] by auto
      with eq' \<open>tp \<noteq> NULL\<close> n pro(2) False show ?thesis by auto
    qed
  qed
qed

section \<open>The hunt ends\<close>

lemma found_advances:
  assumes "dr_advances api" "set_found api test m limit walk og skip s stop walk' og'" "walk < limit"
  shows "unat walk < unat walk'"
proof -
  have c: "code_at api m limit walk og (skip @ insns s @ stop) walk'"
    using assms(2) unfolding set_found_def scan_found_def by blast
  have "skip @ insns s @ stop \<noteq> []"
  proof
    assume e: "skip @ insns s @ stop = []"
    then have "walk' = walk" using c by simp
    with e assms(2,3) show False
      unfolding set_found_def scan_found_def scan_stop_def by auto
  qed
  with code_at_length [OF assms(1) c] show ?thesis by (cases "skip @ insns s @ stop") auto
qed

lemma find_epilogues_total:
  assumes "dr_advances api" "unat limit - unat walk < fuel" "unat limit - unat walk < inner"
    and "owns B L (is # tf_hold tf) w" "\<forall>s. contents = Some s \<longrightarrow> instrs s = []"
  shows "\<exists>res. find_epilogues fuel inner api limit walk og tf is contents w = Some res"
  using assms(2-5)
proof (induction fuel arbitrary: walk og tf "is" contents w)
  case 0
  then show ?case by simp
next
  case (Suc fuel)
  show ?case
  proof (cases "walk < limit")
    case False
    then show ?thesis by simp
  next
    case True
    have "is": "is \<noteq> NULL" using owns_head [OF Suc.prems(3)] .
    have "owns B (L \<union> set (is # tf_hold tf)) [] w"
      using Suc.prems(3) owns_append [of B L "[]" "is # tf_hold tf" w] unfolding append_Nil by blast
    from next_set_total [OF assms(1) "is" this Suc.prems(2)]
    obtain rc1 walk1 og1 r w1 where n:
      "next_set inner api walk limit og is contents (Some (test_instr_epilogue api)) w =
        Some ((rc1, walk1, og1, r), w1)" by (metis prod.collapse)
    note held = next_set_held [OF n Suc.prems(3)]
    show ?thesis
    proof (cases "rc1 = RAVE_SUCCESS")
      case False
      then show ?thesis using True n by simp
    next
      case ok: True
      obtain s skip stop where s: "r = Some s" "set_ptr s = is"
        "set_found api (test_instr_epilogue api) (mem w) limit walk og skip s stop walk1 og1"
        "owns B L (map fst (instrs s) @ set_ptr s # tf_hold tf) w1"
        using held ok by auto
      have less: "unat limit - unat walk1 < fuel" "unat limit - unat walk1 < inner"
        using found_advances [OF assms(1) s(3) True] Suc.prems(1,2) True
        by (auto simp: word_less_nat_alt)
      let ?og2 = "og1 + (set_end s - set_start s)"
      let ?tf = "tf\<lparr>epilogues := epilogues tf @ [s]\<rparr>"
      obtain is2 w2 where c: "instr_set_create w1 = (is2, w2)" by fastforce
      have "\<exists>res. find_epilogues fuel inner api limit walk1 ?og2 ?tf is2 None w2 = Some res"
        if "is2 \<noteq> NULL"
        using owns_malloc [OF tf_hold_add [OF s(4)] c [unfolded instr_set_create_def] that]
        by (intro Suc.IH [OF less]) auto
      moreover obtain w3 where w3: "close_chain (instrs s) w1 = Some w3" "owns B L (set_ptr s # tf_hold tf) w3"
        using close_chain_owned [OF s(4)] by blast
      have "\<exists>res. find_epilogues fuel inner api limit walk1 ?og2 tf is (Some (s\<lparr>instrs := []\<rparr>)) w3 = Some res"
        using w3(2) s(2) by (intro Suc.IH [OF less]) auto
      ultimately show ?thesis
        using True n ok s(1,2) c w3(1) "is"
        by (auto simp: Let_def instr_set_close_def)
    qed
  qed
qed

text \<open>The cleanup returns unless it is given a set that was never initialised.\<close>

lemma add_function_err_total:
  assumes "owns B L (maybe_ptr is @ tf_hold tf) w" "is = NULL \<or> contents \<noteq> None"
    and "\<forall>s. contents = Some s \<longrightarrow> instrs s = []"
  shows "\<exists>res. add_function_err ret tf is contents self w = Some res"
proof -
  have c: "\<exists>c. instr_set_close is contents w = Some (c, w)"
    using assms(2,3) by (cases contents) (auto simp: instr_set_close_def)
  obtain w2 where w2: "instr_set_destroy is w = Some w2" "owns B L (tf_hold tf @ []) w2"
    using assms(1) owns_free_head [of B L "is" "tf_hold tf" w]
    by (cases "is = NULL") (auto simp: instr_set_destroy_def maybe_ptr_def)
  obtain tf3 w3 where w3: "transformable_close tf w2 = Some (tf3, w3)" "owns B L [tf_ptr tf] w3"
    using transformable_close_owned [OF w2(2)] by blast
  obtain w4 where "rave_free (tf_ptr tf) w3 = Some w4"
    using owns_free_head [OF w3(2)] by blast
  moreover have "tf_ptr tf \<noteq> NULL" using owns_head [OF w3(2)] .
  ultimately show ?thesis
    using c w2(1) w3(1) by (auto simp: add_function_err_def transformable_destroy_def)
qed

section \<open>Closing the transformer\<close>

text \<open>
  Closing gives back what every transformable holds except the transformable itself: the blocks
  of \<open>transformable_create\<close> stay live.
\<close>

lemma close_transformables_owned:
  assumes "owns B L (concat (map tf_hold tfs) @ ps) w"
  shows "\<exists>w'. close_transformables tfs w = Some w' \<and> owns B L (map tf_ptr tfs @ ps) w' \<and> mem w' = mem w"
  using assms
proof (induction tfs arbitrary: ps w)
  case (Cons tf tfs)
  have "owns B L (tf_hold tf @ concat (map tf_hold tfs) @ ps) w" using Cons.prems by simp
  from transformable_close_owned [OF this] obtain tf1 w1 where w1:
    "transformable_close tf w = Some (tf1, w1)" "mem w1 = mem w"
    "owns B L (tf_ptr tf # concat (map tf_hold tfs) @ ps) w1" by blast
  have "owns B L (concat (map tf_hold tfs) @ tf_ptr tf # ps) w1"
    using w1(3) by (subst (asm) owns_perm) simp_all
  from Cons.IH [OF this] obtain w2 where w2: "close_transformables tfs w1 = Some w2"
    "owns B L (map tf_ptr tfs @ tf_ptr tf # ps) w2" "mem w2 = mem w1" by blast
  have "owns B L (map tf_ptr (tf # tfs) @ ps) w2"
    using w2(2) by (subst (asm) owns_perm) simp_all
  with w1(1,2) w2(1,3) show ?case by simp
qed simp

end
