(* ===== verification/Transform_Layout.thy ===== *)
theory Transform_Layout
  imports Transform_Add
begin

text \<open>
  Where the sets of an added function lie. \<open>layout\<close> gives the offset of each candidate in the
  function and the amount by which its recorded address is ahead of its true one: the sum of
  the sizes of the candidates before it. With a single candidate nothing is ahead, and
  everything \<open>permute\<close> needs follows; the last section composes the two operations.
\<close>

lemma code_len_isize: "code_len api xs = of_nat (isize api xs)"
  by (induction xs) (simp_all add: ilen_def)

text \<open>\<open>pos\<close> is the offset reached, \<open>d\<close> how far the address counter is ahead.\<close>

fun layout :: "'i dr_api \<Rightarrow> nat \<Rightarrow> nat \<Rightarrow> nat \<Rightarrow> nat \<Rightarrow> 'i candidate list \<Rightarrow> bool" where
  "layout api base len pos d [] \<longleftrightarrow> pos \<le> len"
| "layout api base len pos d ((skip, s, stop) # cs) \<longleftrightarrow>
     (let off = pos + isize api skip; n = isize api (insns s)
      in unat (set_start s) = base + off + d \<and> unat (set_end s) = base + off + d + n \<and>
         nr_instrs s = of_nat (length (instrs s)) \<and> length (instrs s) \<le> n \<and>
         off + n \<le> len \<and> layout api base len (off + n + isize api stop) (d + n) cs)"

lemma layout_pos: "layout api base len pos d cs \<Longrightarrow> pos \<le> len"
  by (induction cs arbitrary: pos d) (auto simp: Let_def)

lemma found_layout:
  assumes "dr_advances api" "set_found api test m limit walk og skip s stop walk' og'"
    and "og = of_nat a" "a + isize api skip + isize api (insns s) < 2 ^ 64"
  shows "unat walk' = unat walk + isize api skip + isize api (insns s) + isize api stop"
    "unat (set_start s) = a + isize api skip"
    "unat (set_end s) = a + isize api skip + isize api (insns s)"
    "length (instrs s) \<le> isize api (insns s)"
    "og' = of_nat (a + isize api skip + isize api (insns s) + isize api stop)"
    "nr_instrs s = of_nat (length (instrs s))"
    "set_end s - set_start s = of_nat (isize api (insns s))"
proof -
  have c: "code_at api m limit walk og (skip @ insns s @ stop) walk'"
    "og' = og + code_len api (skip @ insns s @ stop)"
    "set_start s = og + code_len api skip" "set_end s = og + code_len api (skip @ insns s)"
    using assms(2) unfolding set_found_def scan_found_def by blast+
  have st: "set_start s = of_nat (a + isize api skip)"
    and en: "set_end s = of_nat (a + isize api skip + isize api (insns s))"
    unfolding c(3,4) assms(3) by (simp_all add: code_len_isize)
  show "unat (set_start s) = a + isize api skip"
    unfolding st using assms(4) by (intro unat_of_nat64) linarith
  show "unat (set_end s) = a + isize api skip + isize api (insns s)"
    unfolding en using assms(4) by (intro unat_of_nat64)
  show "set_end s - set_start s = of_nat (isize api (insns s))"
    unfolding st en by simp
  show "og' = of_nat (a + isize api skip + isize api (insns s) + isize api stop)"
    unfolding c(2) assms(3) by (simp add: code_len_isize)
  show "unat walk' = unat walk + isize api skip + isize api (insns s) + isize api stop"
    using code_at_length [OF assms(1) c(1)] by simp
  show "nr_instrs s = of_nat (length (instrs s))" using assms(2) by (simp add: set_found_def)
  obtain p q where "code_at api m limit p (og + code_len api skip) (insns s) q"
    using c(1) by (auto simp: code_at_append)
  from code_at_length [OF assms(1) this] show "length (instrs s) \<le> isize api (insns s)" by simp
qed

lemma hunted_mono: "dr_advances api \<Longrightarrow> hunted api m limit walk og cs walk' \<Longrightarrow> unat walk \<le> unat walk'"
proof (induction cs arbitrary: walk og)
  case (Cons c cs)
  obtain skip s stop where "c = (skip, s, stop)" by (cases c)
  with Cons found_advances show ?case by fastforce
qed simp

lemma hunted_layout:
  assumes "dr_advances api" "base + 2 * len < 2 ^ 64"
    and "unat limit = unat bytes + len" "unat walk = unat bytes + pos" "d \<le> pos"
    and "og = of_nat (base + pos + d)" "hunted api m limit walk og cs limit"
  shows "layout api base len pos d cs"
  using assms(4-)
proof (induction cs arbitrary: walk og pos d)
  case Nil
  then show ?case using assms(3) by simp
next
  case (Cons c cs)
  obtain skip s stop where c: "c = (skip, s, stop)" by (cases c)
  obtain walk1 og1 where f: "walk < limit"
    "set_found api (test_instr_epilogue api) m limit walk og skip s stop walk1 og1"
    "hunted api m limit walk1 (og1 + (set_end s - set_start s)) cs limit"
    using Cons.prems(4) c by auto
  let ?n = "isize api (insns s)" and ?off = "pos + isize api skip"
  have w1: "unat walk1 = unat walk + isize api skip + ?n + isize api stop"
  proof -
    have "code_at api m limit walk og (skip @ insns s @ stop) walk1"
      using f(2) unfolding set_found_def scan_found_def by blast
    from code_at_length [OF assms(1) this] show ?thesis by simp
  qed
  have fit: "?off + ?n + isize api stop \<le> len"
    using hunted_mono [OF assms(1) f(3)] w1 assms(3) Cons.prems(1) by linarith
  have "base + pos + d + isize api skip + ?n < 2 ^ 64"
    using fit Cons.prems(2) assms(2) by linarith
  note l = found_layout [OF assms(1) f(2) Cons.prems(3) this]
  have "layout api base len (?off + ?n + isize api stop) (d + ?n) cs"
  proof (rule Cons.IH [OF _ _ _ f(3)])
    show "unat walk1 = unat bytes + (?off + ?n + isize api stop)" using w1 Cons.prems(1) by simp
    show "d + ?n \<le> ?off + ?n + isize api stop" using Cons.prems(2) by simp
    show "og1 + (set_end s - set_start s) = of_nat (base + (?off + ?n + isize api stop) + (d + ?n))"
      unfolding l(5,7) by (simp add: algebra_simps)
  qed
  then show ?case using c l(2,3,4,6) fit by (simp add: Let_def algebra_simps)
qed

text \<open>
  The same by index: the true offset of a candidate is what was decoded before it, and its
  recorded address is ahead of it by the total size of the earlier candidates.
\<close>

definition cand_offset :: "'i dr_api \<Rightarrow> nat \<Rightarrow> 'i candidate list \<Rightarrow> nat \<Rightarrow> nat" where
  "cand_offset api pos cs k =
     pos + sum_list (map (\<lambda>(skip, s, stop). isize api (skip @ insns s @ stop)) (take k cs)) +
     isize api (fst (cs ! k))"

definition cand_drift :: "'i dr_api \<Rightarrow> 'i candidate list \<Rightarrow> nat \<Rightarrow> nat" where
  "cand_drift api cs k = sum_list (map (\<lambda>c. isize api (insns (cand_set c))) (take k cs))"

lemma layout_nth:
  assumes "layout api base len pos d cs" "k < length cs"
  shows "unat (set_start (cand_set (cs ! k))) =
      base + cand_offset api pos cs k + d + cand_drift api cs k \<and>
    cand_offset api pos cs k + isize api (insns (cand_set (cs ! k))) \<le> len"
  using assms
proof (induction cs arbitrary: pos d k)
  case (Cons c cs)
  obtain skip t stop where c: "c = (skip, t, stop)" by (cases c)
  show ?case
  proof (cases k)
    case 0
    then show ?thesis
      using Cons.prems c by (simp add: Let_def cand_offset_def cand_drift_def cand_set_def)
  next
    case (Suc j)
    have "layout api base len (pos + isize api skip + isize api (insns t) + isize api stop)
        (d + isize api (insns t)) cs"
      using Cons.prems(1) c by (simp add: Let_def)
    from Cons.IH [OF this, of j] show ?thesis
      using Cons.prems(2) c Suc by (simp add: cand_offset_def cand_drift_def cand_set_def)
  qed
qed simp

text \<open>What a layout says of the single sets, and of their order.\<close>

lemma layout_set_wf:
  assumes "layout api base len pos d cs" "len \<le> 2 ^ 31" "s \<in> set (map cand_set cs)"
  shows "set_wf api s"
  using assms(1,3)
proof (induction cs arbitrary: pos d)
  case (Cons c cs)
  obtain skip t stop where "c = (skip, t, stop)" by (cases c)
  with Cons assms(2) show ?case
    by (auto simp: Let_def cand_set_def set_wf_def)
qed simp

lemma layout_bounds:
  assumes "layout api base len pos d cs" "s \<in> set (map cand_set cs)"
  shows "base + pos + d \<le> unat (set_start s)"
  using assms
proof (induction cs arbitrary: pos d)
  case (Cons c cs)
  obtain skip t stop where c: "c = (skip, t, stop)" by (cases c)
  show ?case
  proof (cases "s = t")
    case False
    with Cons c have "base + (pos + isize api skip + isize api (insns t) + isize api stop) +
        (d + isize api (insns t)) \<le> unat (set_start s)"
      by (intro Cons.IH) (auto simp: Let_def cand_set_def)
    then show ?thesis by linarith
  qed (use Cons.prems c in \<open>auto simp: Let_def\<close>)
qed simp

lemma layout_sorted:
  assumes "layout api base len pos d cs"
  shows "sorted_wrt (\<lambda>a b. set_end a \<le> set_start b) (map cand_set cs)"
  using assms
proof (induction cs arbitrary: pos d)
  case (Cons c cs)
  obtain skip t stop where c: "c = (skip, t, stop)" by (cases c)
  let ?pos = "pos + isize api skip + isize api (insns t) + isize api stop"
  have l: "layout api base len ?pos (d + isize api (insns t)) cs"
    "unat (set_end t) = base + (pos + isize api skip) + d + isize api (insns t)"
    using Cons.prems c by (simp_all add: Let_def)
  have "set_end t \<le> set_start s" if "s \<in> set (map cand_set cs)" for s
    using layout_bounds [OF l(1) that] l(2) unfolding word_le_nat_alt by linarith
  with Cons.IH [OF l(1)] c show ?case by (simp add: cand_set_def)
qed simp

section \<open>The added function\<close>

text \<open>Bounds on a function: neither its code nor its addresses, even when ahead, wrap around.\<close>

definition func_bounds :: "func \<Rightarrow> ptr \<Rightarrow> bool" where
  "func_bounds rec bytes \<longleftrightarrow>
     unat (flen rec) \<le> 2 ^ 31 \<and> unat (faddr rec) + 2 * unat (flen rec) < 2 ^ 64 \<and>
     unat bytes + unat (flen rec) < 2 ^ 64"

lemma function_found_layout:
  assumes "dr_advances api" "function_found api m bytes rec tf skip stop cs" "func_bounds rec bytes"
  shows "layout api (unat (faddr rec)) (unat (flen rec)) 0 0 [(skip, prologue tf, [])]"
    "layout api (unat (faddr rec)) (unat (flen rec))
       (isize api skip + isize api (insns (prologue tf)) + isize api stop) 0 cs"
proof -
  let ?base = "unat (faddr rec)" and ?len = "unat (flen rec)" and ?limit = "OFFSET bytes (flen rec)"
  let ?n = "isize api (insns (prologue tf))"
  have b: "?len \<le> 2 ^ 31" "?base + 2 * ?len < 2 ^ 64" "unat bytes + ?len < 2 ^ 64"
    using assms(3) unfolding func_bounds_def by blast+
  have lim: "unat ?limit = unat bytes + ?len"
    unfolding OFFSET_def using b(3) by (rule unat_plus_nowrap)
  obtain walk og where f:
    "set_found api (test_instr_prologue api) m ?limit bytes (faddr rec) skip (prologue tf) stop walk og"
    "hunted api m ?limit walk og cs ?limit"
    using assms(2) unfolding function_found_def by blast
  have w: "unat walk = unat bytes + (isize api skip + ?n + isize api stop)"
  proof -
    have "code_at api m ?limit bytes (faddr rec) (skip @ insns (prologue tf) @ stop) walk"
      using f(1) unfolding set_found_def scan_found_def by blast
    from code_at_length [OF assms(1) this] show ?thesis by simp
  qed
  have fit: "isize api skip + ?n + isize api stop \<le> ?len"
    using hunted_mono [OF assms(1) f(2)] w lim by linarith
  have "?base + isize api skip + ?n < 2 ^ 64" using fit b(2) by linarith
  note l = found_layout [OF assms(1) f(1) _ this]
  show "layout api ?base ?len 0 0 ((skip, prologue tf, []) # [])"
    using l(2,3,4,6) fit by (simp add: Let_def)
  show "layout api ?base ?len (isize api skip + ?n + isize api stop) 0 cs"
  proof (rule hunted_layout [OF assms(1) b(2) lim w _ _ f(2)])
    show "og = of_nat (?base + (isize api skip + ?n + isize api stop) + 0)"
      using l(5) by (simp add: algebra_simps)
  qed simp
qed

lemma function_found_wf:
  assumes "dr_advances api" "function_found api m bytes rec tf skip stop cs" "func_bounds rec bytes"
  shows "tf_wf api tf" "tf_sorted tf"
proof -
  note l = function_found_layout [OF assms]
  let ?ss = "filter (mirrors api (prologue tf)) (map cand_set cs)"
  have b: "unat (flen rec) \<le> 2 ^ 31" using assms(3) unfolding func_bounds_def by blast
  have ff: "2 \<le> tf_slots tf" "epilogues tf = ?ss"
    "\<exists>op. tf_order tf = Some (op, map of_nat [0..<tf_slots tf])"
    using assms(2) unfolding function_found_def by blast+
  have "set_wf api (prologue tf)"
    by (rule layout_set_wf [OF l(1) b]) (simp add: cand_set_def)
  then show "tf_wf api tf"
    using ff layout_set_wf [OF l(2) b] slot_table_identity
    unfolding tf_wf_def tf_sets_def by fastforce
  have "set_end (prologue tf) \<le> set_start s" if "s \<in> set ?ss" for s
    using l(1) layout_bounds [OF l(2), of s] that unfolding word_le_nat_alt by (simp add: Let_def)
  then show "tf_sorted tf"
    unfolding tf_sorted_def tf_sets_def ff(2) using layout_sorted [OF l(2)]
    by (simp add: sorted_wrt_filter)
qed

text \<open>A function whose only candidate is its epilogue: nothing is ahead.\<close>

definition local_window :: "func \<Rightarrow> ptr \<Rightarrow> window" where
  "local_window rec bytes = \<lparr>orig = faddr rec, data = bytes, wlength = flen rec\<rparr>"

lemma set_withinI:
  assumes "unat (set_start s) = unat (orig fw) + off" "off + isize api (insns s) \<le> unat (wlength fw)"
    and "0 < isize api (insns s)"
  shows "set_within api fw s"
proof -
  have "orig fw \<le> set_start s" using assms(1) by (simp add: word_le_nat_alt)
  moreover from unat_minus_nowrap [OF this] have "unat (set_start s - orig fw) = off"
    using assms(1) by simp
  ultimately show ?thesis using assms(2,3) by (simp add: set_within_def)
qed

lemma single_candidate_within:
  assumes "dr_advances api" "function_found api m bytes rec tf skip stop [c]" "func_bounds rec bytes"
    and "s \<in> set (tf_sets tf)"
  shows "set_within api (local_window rec bytes) s"
proof -
  note l = function_found_layout [OF assms(1-3)]
  obtain skip1 t stop1 where c: "c = (skip1, t, stop1)" by (cases c)
  note wf = function_found_wf(1) [OF assms(1-3)]
  have len: "tf_slots tf = length (instrs s)"
    using assms(4) tf_wfD(5) [OF wf] by (auto simp: tf_sets_def tf_slots_def)
  have "s = prologue tf \<or> s = t"
    using assms(2,4) c by (auto simp: function_found_def tf_sets_def cand_set_def split: if_splits)
  then obtain off where off: "unat (set_start s) = unat (faddr rec) + off"
    "off + isize api (insns s) \<le> unat (flen rec)" "length (instrs s) \<le> isize api (insns s)"
    using l c by (auto simp: Let_def)
  have "0 < isize api (insns s)" using off(3) len tf_wfD(1) [OF wf] by linarith
  with off(1,2) show ?thesis by (intro set_withinI) (simp_all add: local_window_def)
qed

end
