(* ===== verification/Platform_Properties.thy ===== *)
theory Platform_Properties
  imports Transform_Layout
begin

text \<open>
  The contracts of the small components everything else stands on: page rounding, address
  windows, the heap, and the shuffle.
\<close>

text \<open>
  C30. \<open>PAGE_DOWN\<close> and \<open>PAGE_UP\<close> give the page boundaries around an address, each less than a page
  away, unless rounding up would leave the address space: then \<open>PAGE_UP\<close> wraps to 0.
\<close>

theorem page_rounding:
  "unat (PAGE_DOWN a) \<le> unat a \<and> unat a < unat (PAGE_DOWN a) + 4096 \<and>
   unat (PAGE_DOWN a) mod 4096 = 0 \<and> unat (PAGE_UP a) mod 4096 = 0 \<and>
   (if unat a + 4095 < 2 ^ 64 then unat a \<le> unat (PAGE_UP a) \<and> unat (PAGE_UP a) < unat a + 4096
    else PAGE_UP a = 0)"
proof (cases "unat a + 4095 < 2 ^ 64")
  case True
  then show ?thesis
    using PAGE_DOWN_le [of a] PAGE_DOWN_near [of a] PAGE_DOWN_aligned [of a] PAGE_UP_bounds [OF True]
      PAGE_UP_aligned [of a] by (simp add: word_le_nat_alt)
next
  case False
  then show ?thesis
    using PAGE_DOWN_le [of a] PAGE_DOWN_near [of a] PAGE_DOWN_aligned [of a] PAGE_UP_wraps [of a]
      PAGE_UP_aligned [of a] by (simp add: word_le_nat_alt)
qed

text \<open>
  C31. \<open>window_view\<close> maps exactly the addresses of the window, each to the local byte at the same
  offset together with the number of bytes left, different addresses to different bytes, and
  every other address to \<open>NULL\<close>.
\<close>

theorem window_views:
  assumes "window_ok s"
  shows "(window_contains (Some s) a \<longrightarrow>
      (\<exists>k < unat (wlength s). a = orig s + of_nat k \<and>
         window_view (Some s) a = (data s + of_nat k, Some (wlength s - of_nat k)))) \<and>
    (\<not> window_contains (Some s) a \<longrightarrow> window_view (Some s) a = (NULL, None)) \<and>
    (fst (window_view (Some s) a) = NULL \<longleftrightarrow> \<not> window_contains (Some s) a) \<and>
    (window_contains (Some s) a \<and> window_contains (Some s) b \<and>
      fst (window_view (Some s) a) = fst (window_view (Some s) b) \<longrightarrow> a = b)"
proof (intro conjI)
  show "window_contains (Some s) a \<longrightarrow>
      (\<exists>k < unat (wlength s). a = orig s + of_nat k \<and>
         window_view (Some s) a = (data s + of_nat k, Some (wlength s - of_nat k)))"
  proof
    assume "window_contains (Some s) a"
    then obtain k where "k < unat (wlength s)" "a = orig s + of_nat k"
      using window_contains_offset [OF assms] by blast
    with window_view_inside [OF assms] show "\<exists>k < unat (wlength s). a = orig s + of_nat k \<and>
        window_view (Some s) a = (data s + of_nat k, Some (wlength s - of_nat k))" by blast
  qed
  show "\<not> window_contains (Some s) a \<longrightarrow> window_view (Some s) a = (NULL, None)"
    by (simp add: window_view_outside)
  show "fst (window_view (Some s) a) = NULL \<longleftrightarrow> \<not> window_contains (Some s) a"
    using assms by (rule wv.view_NULL_iff)
  show "window_contains (Some s) a \<and> window_contains (Some s) b \<and>
      fst (window_view (Some s) a) = fst (window_view (Some s) b) \<longrightarrow> a = b"
    using wv.view_inj [OF assms] by blast
qed

theorem window_views_witness:
  "fst (window_view (Some \<lparr>orig = 0x401000, data = 0x10000, wlength = 64\<rparr>) 0x401000) \<noteq> NULL"
  using window_views [of "\<lparr>orig = 0x401000, data = 0x10000, wlength = 64\<rparr>" "0x401000"]
  by (simp add: window_ok_def window_contains_def CONTAINS_def OFFSET_def)

text \<open>
  The window that \<open>transform_permute_all\<close> lays over a function shows, at every address of the
  function, the byte that the window of the whole text shows there.
\<close>

theorem function_window_nested:
  assumes "window_ok text" "func_within text rec" "window_contains (Some (function_window text rec)) a"
  shows "window_contains (Some text) a \<and>
    fst (window_view (Some (function_window text rec)) a) = fst (window_view (Some text) a)"
proof -
  note fw = function_window_ok [OF assms(1,2)]
  let ?d = "unat (faddr rec - orig text)"
  have "?d + unat (flen rec) \<le> unat (wlength text)"
    using assms(2) by (simp add: func_within_def)
  then show ?thesis
    using wv.nested_view [OF assms(1) fw(1), of ?d a] fw(2) assms(3) by (simp add: function_window_def)
qed

theorem function_window_nested_witness:
  "window_contains (Some \<lparr>orig = 0x400000, data = 0x10000, wlength = 0x2000\<rparr>) 0x401005"
  using function_window_nested [of "\<lparr>orig = 0x400000, data = 0x10000, wlength = 0x2000\<rparr>"
      "\<lparr>faddr = 0x401000, flen = 0x10\<rparr>" "0x401005"]
  by (simp add: window_ok_def func_within_def function_window_def window_contains_def CONTAINS_def
      OFFSET_def window_view_def)

text \<open>
  A block handed out by \<open>rave_malloc\<close> was not live, overlaps no live block and can be freed
  once: freeing it restores the live blocks exactly, and freeing it again is an error.
\<close>

theorem heap_discipline:
  assumes "heap_ok (live w)" "rave_malloc n w = (p, w1)" "p \<noteq> NULL"
  shows "heap_ok (live w1) \<and> \<not> is_live w p \<and> block_ok (live w1) p n \<and>
    (\<exists>w2. rave_free p w1 = Some w2 \<and> heap_ok (live w2) \<and> (\<forall>q. is_live w2 q \<longleftrightarrow> is_live w q) \<and>
      rave_free p w2 = None)"
proof -
  obtain w2 where w2: "rave_free p w1 = Some w2" "\<forall>q. is_live w2 q \<longleftrightarrow> is_live w q"
    using heap.acquire_release [OF assms(2,3)] by blast
  have "block_ok (live w1) p n"
    using malloc_fresh [OF assms(2,3)] by (simp add: block_ok_def)
  then show ?thesis
    using w2 heap_ok_malloc [OF assms(1,2)] heap_ok_free [OF _ w2(1)] malloc_not_live [OF assms(2,3)]
      heap.no_double_release [OF w2(1) assms(3)] by blast
qed

theorem heap_discipline_witness:
  "\<not> is_live (demo_world []) 0x100000 \<and> is_live (snd (rave_malloc 8 (demo_world []))) 0x100000"
  using heap_discipline [of "demo_world []" 8 "0x100000" "snd (rave_malloc 8 (demo_world []))"]
  by (simp add: rave_malloc_def demo_world_def heap_ok_def fresh_block_def is_live_def)

section \<open>The shuffle\<close>

text \<open>
  C17. \<open>shuffle\<close> on a table of 1 to \<open>2 ^ 31\<close> entries stays inside the table whatever numbers
  \<open>rand\<close> returns, uses one number less than there are entries, and permutes the table.
\<close>

theorem shuffle_permutes:
  assumes "length t = n" "0 < n" "n \<le> 2 ^ 31"
  shows "\<exists>t'. shuffle t (of_nat n) w = Some (t', w\<lparr>nrand := nrand w + (n - 1)\<rparr>) \<and> mset t' = mset t"
  using shuffle_eq [OF assms] shuffle_mset [OF assms] by blast

theorem shuffle_permutes_witness:
  "\<exists>t' w'. shuffle [0, 1, 2] 3 (demo_world []) = Some (t', w') \<and> mset t' = {#0, 1, 2#}"
  using shuffle_permutes [of "[0, 1, 2]" 3 "demo_world []"] by auto

text \<open>
  Every permutation of the table is the outcome of some sequence of random numbers, so no
  order of a prologue is excluded.
\<close>

theorem shuffle_reaches_every_order:
  assumes "length t = n" "0 < n" "n \<le> 2 ^ 31" "mset t' = mset t"
  shows "\<exists>f. shuffle t (of_nat n) (w\<lparr>rands := f\<rparr>) = Some (t', w\<lparr>rands := f, nrand := nrand w + (n - 1)\<rparr>)"
  using assms by (rule shuffle_reaches)

theorem shuffle_reaches_every_order_witness:
  "\<exists>f w'. shuffle [0, 1, 2] 3 ((demo_world [])\<lparr>rands := f\<rparr>) = Some ([2, 0, 1], w')"
  using shuffle_reaches_every_order [of "[0, 1, 2]" 3 "[2, 0, 1]" "demo_world []"]
  by (auto simp: add_mset_commute)

end
