(* ===== verification/Transform_Drift.thy ===== *)
theory Transform_Drift
  imports Transform_Semantics Transform_Layout
begin

text \<open>
  What the code of an added function holds, told without the addresses that were recorded for it,
  and what the recorded addresses do to a permutation: from the second candidate on they lie behind
  the instructions they were recorded for.
\<close>

section \<open>The code of a function\<close>

text \<open>
  The candidates one after another from \<open>walk\<close> to the end: instructions that are no pops, a run of
  pops, and what stopped it. Where they lie follows from the sizes of the instructions alone.
\<close>

fun candidates_at :: "'i dr_api \<Rightarrow> (ptr \<Rightarrow> byte) \<Rightarrow> ptr \<Rightarrow> ptr \<Rightarrow> 'i candidate list \<Rightarrow> bool" where
  "candidates_at api m limit walk [] \<longleftrightarrow> walk = limit"
| "candidates_at api m limit walk ((skip, s, stop) # cs) \<longleftrightarrow>
     (let next = walk + of_nat (isize api (skip @ insns s @ stop)); test = test_instr_epilogue api
      in walk < limit \<and> (\<exists>og. code_at api m limit walk og (skip @ insns s @ stop) next) \<and>
         list_all (\<lambda>i. \<not> test i) skip \<and> list_all test (insns s) \<and> scan_stop test limit next stop \<and>
         candidates_at api m limit next cs)"

definition code_holds ::
  "'i dr_api \<Rightarrow> (ptr \<Rightarrow> byte) \<Rightarrow> ptr \<Rightarrow> func \<Rightarrow> 'i transformable \<Rightarrow> 'i list \<Rightarrow> 'i list \<Rightarrow> 'i candidate list \<Rightarrow> bool" where
  "code_holds api m bytes rec tf skip stop cs \<longleftrightarrow>
     (let limit = OFFSET bytes (flen rec); front = skip @ insns (prologue tf) @ stop;
          next = bytes + of_nat (isize api front); test = test_instr_prologue api
      in code_at api m limit bytes (faddr rec) front next \<and>
         list_all (\<lambda>i. \<not> test i) skip \<and> list_all test (insns (prologue tf)) \<and> scan_stop test limit next stop \<and>
         candidates_at api m limit next cs \<and>
         epilogues tf = filter (mirrors api (prologue tf)) (map cand_set cs))"

lemma found_code:
  assumes "dr_advances api" "set_found api test m limit walk og skip s stop walk' og'"
  shows "code_at api m limit walk og (skip @ insns s @ stop) walk'"
    "walk' = walk + of_nat (isize api (skip @ insns s @ stop))"
    "list_all (\<lambda>i. \<not> test i) skip" "list_all test (insns s)" "scan_stop test limit walk' stop"
proof -
  show c: "code_at api m limit walk og (skip @ insns s @ stop) walk'"
    "list_all (\<lambda>i. \<not> test i) skip" "list_all test (insns s)" "scan_stop test limit walk' stop"
    using assms(2) unfolding set_found_def scan_found_def by blast+
  have "unat walk' = unat walk + isize api (skip @ insns s @ stop)"
    using code_at_length [OF assms(1) c(1)] by simp
  then have "of_nat (unat walk') = (of_nat (unat walk + isize api (skip @ insns s @ stop)) :: ptr)" by simp
  then show "walk' = walk + of_nat (isize api (skip @ insns s @ stop))" by simp
qed

lemma hunted_candidates:
  assumes "dr_advances api" "hunted api m limit walk og cs limit"
  shows "candidates_at api m limit walk cs"
  using assms(2)
proof (induction cs arbitrary: walk og)
  case (Cons c cs)
  obtain skip s stop where c: "c = (skip, s, stop)" by (cases c)
  obtain walk1 og1 where f: "walk < limit"
    "set_found api (test_instr_epilogue api) m limit walk og skip s stop walk1 og1"
    "hunted api m limit walk1 (og1 + (set_end s - set_start s)) cs limit"
    using Cons.prems c by auto
  note g = found_code [OF assms(1) f(2)]
  from Cons.IH [OF f(3)] g f(1) show ?case
    unfolding c candidates_at.simps Let_def g(2) [symmetric] by blast
qed simp

lemma function_found_code:
  assumes "dr_advances api" "function_found api m bytes rec tf skip stop cs"
  shows "code_holds api m bytes rec tf skip stop cs"
proof -
  let ?limit = "OFFSET bytes (flen rec)"
  obtain walk og where f:
    "set_found api (test_instr_prologue api) m ?limit bytes (faddr rec) skip (prologue tf) stop walk og"
    "hunted api m ?limit walk og cs ?limit"
    and e: "epilogues tf = filter (mirrors api (prologue tf)) (map cand_set cs)"
    using assms(2) unfolding function_found_def by blast
  note g = found_code [OF assms(1) f(1)]
  show ?thesis
    unfolding code_holds_def Let_def g(2) [symmetric]
    using g(1,3-5) [unfolded g(2) [symmetric]] hunted_candidates [OF assms(1) f(2)] e by blast
qed

section \<open>Places\<close>

text \<open>A byte at one offset, and what lies at another.\<close>

lemma offset_apart:
  assumes "b + n \<le> a \<or> a < b" "a < 2 ^ 64" "b + n \<le> 2 ^ 64"
  shows "n \<le> unat ((p :: ptr) + of_nat a - (p + of_nat b))"
proof (cases "b < 2 ^ 64")
  case True
  have "unat ((of_nat a :: ptr) - of_nat b) = (if b \<le> a then a - b else 2 ^ 64 + a - b)"
    using unat_diff_of_nat [of b "of_nat a"] True assms(2) by (simp add: unat_of_nat64)
  moreover have "p + of_nat a - (p + of_nat b) = of_nat a - of_nat b" by simp
  ultimately show ?thesis using assms by auto
qed (use assms in simp)

text \<open>The place of a set in the local copy, from its recorded address.\<close>

lemma set_at_offset:
  assumes "unat (set_start s) = unat (orig fw) + k"
  shows "set_at fw s = data fw + of_nat k"
proof -
  have "set_start s = orig fw + of_nat k"
    using assms by (metis of_nat_add of_nat_unat ucast_id)
  then show ?thesis by (simp add: set_at_def)
qed

text \<open>With a single candidate everything is recorded where it is.\<close>

lemma single_candidate_places:
  assumes "dr_advances api" "function_found api m bytes rec tf skip stop [(between, e, rest)]" "func_bounds rec bytes"
  defines "i \<equiv> isize api skip" and "j \<equiv> isize api (skip @ insns (prologue tf) @ stop @ between)"
  shows "epilogues tf = [e]"
    "set_at (local_window rec bytes) (prologue tf) = bytes + of_nat i"
    "set_at (local_window rec bytes) e = bytes + of_nat j"
    "i + isize api (insns (prologue tf)) \<le> unat (flen rec)" "j + isize api (insns e) \<le> unat (flen rec)"
proof -
  note l = function_found_layout [OF assms(1-3)]
  show "epilogues tf = [e]"
    using assms(2) by (auto simp: function_found_def cand_set_def split: if_splits)
  show "set_at (local_window rec bytes) (prologue tf) = bytes + of_nat i"
    using l(1) by (subst set_at_offset [of _ _ i]) (simp_all add: local_window_def i_def Let_def)
  show "set_at (local_window rec bytes) e = bytes + of_nat j"
    using l(2) by (subst set_at_offset [of _ _ j]) (simp_all add: local_window_def j_def Let_def)
  show "i + isize api (insns (prologue tf)) \<le> unat (flen rec)" "j + isize api (insns e) \<le> unat (flen rec)"
    using l by (simp_all add: i_def j_def Let_def)
qed

text \<open>The whole function is then decoded in one piece.\<close>

lemma single_candidate_code:
  assumes "dr_advances api" "function_found api m bytes rec tf skip stop [(between, e, rest)]"
  shows "code_at api m (OFFSET bytes (flen rec)) bytes (faddr rec)
    (skip @ insns (prologue tf) @ stop @ between @ insns e @ rest) (OFFSET bytes (flen rec))"
proof -
  let ?limit = "OFFSET bytes (flen rec)"
  obtain walk og walk1 og1 where f:
    "set_found api (test_instr_prologue api) m ?limit bytes (faddr rec) skip (prologue tf) stop walk og"
    "set_found api (test_instr_epilogue api) m ?limit walk og between e rest walk1 og1" "walk1 = ?limit"
    using assms(2) unfolding function_found_def by auto
  have c: "code_at api m ?limit bytes (faddr rec) (skip @ insns (prologue tf) @ stop) walk"
    "og = faddr rec + code_len api (skip @ insns (prologue tf) @ stop)"
    "code_at api m ?limit walk og (between @ insns e @ rest) ?limit"
    using f unfolding set_found_def scan_found_def by blast+
  have "code_at api m ?limit bytes (faddr rec)
      ((skip @ insns (prologue tf) @ stop) @ (between @ insns e @ rest)) ?limit"
    unfolding code_at_append [of _ _ _ _ _ "skip @ insns (prologue tf) @ stop"] using c by blast
  then show ?thesis by simp
qed

section \<open>The second candidate\<close>

lemma second_candidate_layout:
  assumes "dr_advances api" "function_found api m bytes rec tf skip stop ((a0, e0, z0) # (a1, e1, z1) # cs)"
    and "func_bounds rec bytes"
  defines "j \<equiv> isize api (skip @ insns (prologue tf) @ stop @ a0 @ insns e0 @ z0 @ a1)"
  shows "unat (set_start e1) = unat (faddr rec) + (j + isize api (insns e0))"
    "j + isize api (insns e1) \<le> unat (flen rec)"
    "s \<in> set (tf_sets tf) \<Longrightarrow> \<exists>k. unat (set_start s) = unat (faddr rec) + k \<and>
       (k + isize api (insns s) \<le> j \<or> j + min (isize api (insns e0)) (isize api (insns e1)) \<le> k)"
proof -
  note l = function_found_layout [OF assms(1-3)]
  let ?base = "unat (faddr rec)" and ?n0 = "isize api (insns e0)" and ?n1 = "isize api (insns e1)"
  show e1: "unat (set_start e1) = ?base + (j + ?n0)" and "j + ?n1 \<le> unat (flen rec)"
    using l(2) by (simp_all add: j_def Let_def)
  have rest: "layout api ?base (unat (flen rec)) (j + ?n1 + isize api z1) (?n0 + ?n1) cs"
    using l(2) by (simp add: j_def Let_def add.assoc)
  show "\<exists>k. unat (set_start s) = ?base + k \<and> (k + isize api (insns s) \<le> j \<or> j + min ?n0 ?n1 \<le> k)"
    if s: "s \<in> set (tf_sets tf)"
  proof -
    have "s = prologue tf \<or> s = e0 \<or> s = e1 \<or> s \<in> set (map cand_set cs)"
      using assms(2) s by (auto simp: function_found_def tf_sets_def cand_set_def split: if_splits)
    then show ?thesis
    proof (elim disjE)
      assume "s = prologue tf"
      with l(1) show ?thesis by (intro exI [of _ "isize api skip"]) (simp add: j_def Let_def)
    next
      assume "s = e0"
      with l(2) show ?thesis
        by (intro exI [of _ "isize api (skip @ insns (prologue tf) @ stop @ a0)"]) (simp add: j_def Let_def)
    next
      assume "s = e1"
      with e1 show ?thesis by (intro exI [of _ "j + ?n0"]) simp
    next
      assume "s \<in> set (map cand_set cs)"
      from layout_bounds [OF rest this] show ?thesis
        by (intro exI [of _ "unat (set_start s) - ?base"] conjI disjI2) linarith+
    qed
  qed
qed

lemma second_candidate_missed:
  assumes "dr_advances api" "function_found api m bytes rec tf skip stop ((a0, e0, z0) # (a1, e1, z1) # cs)"
    and "func_bounds rec bytes" "tf_placed api (local_window rec bytes) tf w" "dr_keeps_length api (tf_insns tf)"
    and "e1 \<in> set (epilogues tf)"
  defines "j \<equiv> isize api (skip @ insns (prologue tf) @ stop @ a0 @ insns e0 @ z0 @ a1)"
    and "n0 \<equiv> isize api (insns e0)" and "n1 \<equiv> isize api (insns e1)"
  shows "\<exists>tf' w' q. permute api tf (local_window rec bytes) w = Some (RAVE_SUCCESS, tf', w') \<and>
    slot_perm (tf_slots tf) q \<and>
    (\<forall>k < min n0 n1. mem w' (bytes + of_nat (j + k)) = mem w (bytes + of_nat (j + k))) \<and>
    mem_get (mem w') (bytes + of_nat (j + n0)) n1 = set_bytes api q e1"
proof -
  let ?fw = "local_window rec bytes"
  note second = second_candidate_layout [OF assms(1-3)]
  note wf = function_found_wf [OF assms(1-3)]
  obtain t k where t: "slot_table (tf_slots tf) t"
    "permute api tf ?fw w = Some (RAVE_SUCCESS, permuted_tf tf t,
        w\<lparr>mem := permuted_mem api ?fw (slots t) tf (mem w), nrand := k,
          faults := faults w @ one_past_reads tf\<rparr>)" (is "_ = Some (_, _, ?w')")
    using permute_eq [OF wf(1) assms(4,5)] by blast
  have p: "slot_perm (tf_slots tf) (slots t)" using slot_table_perm [OF t(1) tf_wfD(2) [OF wf(1)]] .
  have fw: "orig ?fw = faddr rec" "data ?fw = bytes" "wlength ?fw = flen rec"
    by (simp_all add: local_window_def)
  have small: "unat (flen rec) \<le> 2 ^ 31" using assms(3) unfolding func_bounds_def by blast
  have kept: "mem ?w' (bytes + of_nat (j + i)) = mem w (bytes + of_nat (j + i))" if i: "i < min n0 n1" for i
  proof -
    have "isize api (insns s) \<le> unat (bytes + of_nat (j + i) - set_at ?fw s)" if s: "s \<in> set (tf_sets tf)" for s
    proof -
      obtain o' where o': "unat (set_start s) = unat (faddr rec) + o'"
        "o' + isize api (insns s) \<le> j \<or> j + min n0 n1 \<le> o'"
        using second(3) [OF s] unfolding j_def n0_def n1_def by blast
      have at: "set_at ?fw s = bytes + of_nat o'"
        using set_at_offset [of s ?fw o'] o'(1) by (simp add: fw)
      have wi: "orig ?fw \<le> set_start s" "unat (set_start s - orig ?fw) + isize api (insns s) \<le> unat (flen rec)"
        using assms(4) s by (auto simp: tf_placed_def set_within_def fw)
      have "o' + isize api (insns s) \<le> unat (flen rec)"
        using wi(2) unat_minus_nowrap [OF wi(1)] o'(1) by (simp add: fw)
      moreover have "j + i < unat (flen rec)" using second(2) i by (simp add: j_def n1_def)
      ultimately show ?thesis
        unfolding at using o'(2) i small by (intro offset_apart) auto
    qed
    then show ?thesis using permuted_mem_outside [OF wf(1) assms(5) p] by simp
  qed
  have "set_at ?fw e1 = bytes + of_nat (j + n0)"
    using set_at_offset [of e1 ?fw "j + n0"] second(1) by (simp add: fw j_def n0_def)
  moreover have "code_permuted api ?fw (slots t) tf (mem ?w')"
    using permuted_mem_code [OF wf(1) assms(4,5) wf(2) p] by simp
  ultimately have "mem_get (mem ?w') (bytes + of_nat (j + n0)) n1 = set_bytes api (mirror (tf_slots tf) (slots t)) e1"
    using assms(6) unfolding code_permuted_def n1_def by auto
  with t(2) mirror_perm [OF p] kept show ?thesis by blast
qed

end
