(* ===== verification/Transform_Demo.thy ===== *)
theory Transform_Demo
  imports Transform_Layout Transform_Drift
begin

text \<open>
  A concrete function, \<open>push rbx; push rdi; nop; pop rdi; pop rbx; ret\<close>, for applying the
  properties of the transformer: the one-byte decoder obeys the decoder's laws, and the
  transformable of this function is ready to be permuted.
\<close>

lemma one_byte_keeps: "dr_keeps_length one_byte_api I"
  by (simp add: dr_keeps_length_def one_byte_api_def ilen_def)

lemma one_byte_roundtrip: "I \<subseteq> Collect one_byte_valid \<Longrightarrow> dr_roundtrip one_byte_api I"
  by (auto simp: dr_roundtrip_def one_byte_api_def same_insn_def mem_get_def)

lemma unat_next_byte: "(p :: ptr) + 1 \<noteq> NULL \<Longrightarrow> unat (p + 1) = unat p + 1"
  by (metis Suc_eq_plus1 unatSuc add.commute)

lemma one_byte_advances: "dr_advances one_byte_api"
  by (auto simp: dr_advances_def one_byte_api_def ilen_def unat_next_byte)

definition demo_code :: "byte list" where
  "demo_code = [0x53, 0x57, 0x90, 0x5f, 0x5b, 0xc3]"

definition demo_prologue :: "byte instr_set" where
  "demo_prologue =
     \<lparr>set_ptr = 0x100020, set_start = 0x401000, set_end = 0x401002, nr_instrs = 2,
      instrs = [(0x100100, 0x53), (0x100200, 0x57)]\<rparr>"

definition demo_epilogue :: "byte instr_set" where
  "demo_epilogue =
     \<lparr>set_ptr = 0x100500, set_start = 0x401003, set_end = 0x401005, nr_instrs = 2,
      instrs = [(0x100600, 0x5f), (0x100700, 0x5b)]\<rparr>"

definition demo_tf :: "byte transformable" where
  "demo_tf =
     \<lparr>tf_ptr = 0x100000, tf_record = demo_record 6, prologue = demo_prologue,
      epilogues = [demo_epilogue], tf_order = Some (0x100400, [0, 1])\<rparr>"

definition demo_text :: window where
  "demo_text = \<lparr>orig = 0x401000, data = 0x10000, wlength = 6\<rparr>"

abbreviation demo_fw :: window where
  "demo_fw \<equiv> function_window demo_text (tf_record demo_tf)"

lemma demo_fw: "demo_fw = demo_text"
  by (simp add: function_window_def demo_text_def demo_tf_def demo_record_def window_view_def
      window_contains_def CONTAINS_def OFFSET_def)

lemmas demo_defs = demo_tf_def demo_prologue_def demo_epilogue_def demo_record_def

lemma demo_wf: "tf_wf one_byte_api demo_tf" "tf_sorted demo_tf"
proof -
  have "slot_table (tf_slots demo_tf) (map of_nat [0..<tf_slots demo_tf])"
    by (rule slot_table_identity)
  then show "tf_wf one_byte_api demo_tf"
    by (simp add: tf_wf_def tf_slots_def tf_sets_def demo_defs set_wf_def mirrors_def ilen_def
        one_byte_api_def upt_rec)
  show "tf_sorted demo_tf"
    by (simp add: tf_sorted_def tf_sets_def demo_defs)
qed

lemma demo_ready: "tf_ready one_byte_api demo_text (demo_world demo_code) demo_tf"
  unfolding tf_ready_def demo_fw
  using demo_wf one_byte_keeps
  by (simp add: tf_placed_def tf_sets_def set_within_def demo_defs demo_text_def window_ok_def
      block_ok_def demo_world_def ilen_def one_byte_api_def)

lemma demo_insns: "tf_insns demo_tf \<subseteq> Collect one_byte_valid"
  by (simp add: tf_insns_def tf_sets_def demo_defs one_byte_valid_def)

text \<open>The runs of the model that produce it, evaluated.\<close>

abbreviation demo_scan :: "(byte scan \<times> world) option" where
  "demo_scan \<equiv> next_set 7 one_byte_api 0x10000 0x10006 0x401000 0x100020 None
     (Some (test_instr_prologue one_byte_api)) (demo_world demo_code)"

lemma demo_scan_result:
  "map_option (\<lambda>((rc, walk, og, s), w). (rc, walk, og, map_option (map snd \<circ> instrs) s)) demo_scan =
     Some (RAVE_SUCCESS, 0x10003, 0x401003, Some [0x53, 0x57])"
  by code_simp

abbreviation demo_add :: "(rave_errno \<times> byte transform \<times> world) option" where
  "demo_add \<equiv> transform_add_function 7 one_byte_api demo_transform (demo_record 6) 0x10000
     (demo_world demo_code)"

lemma demo_add_result:
  "map_option (\<lambda>(rc, t, w). (rc, transformables t)) demo_add = Some (RAVE_SUCCESS, [demo_tf])"
  by code_simp

text \<open>What was found in it, in the terms of the specification.\<close>

lemma demo_found:
  "function_found one_byte_api (mem (demo_world demo_code)) 0x10000 (demo_record 6) demo_tf
     [] [0x90] [([], demo_epilogue, [0xc3])]"
proof -
  have pro: "set_found one_byte_api (test_instr_prologue one_byte_api) (mem (demo_world demo_code))
      0x10006 0x10000 0x401000 [] demo_prologue [0x90] 0x10003 0x401003" by code_simp
  have epi: "set_found one_byte_api (test_instr_epilogue one_byte_api) (mem (demo_world demo_code))
      0x10006 0x10003 0x401003 [] demo_epilogue [0xc3] 0x10006 0x401006" by code_simp
  have rec: "OFFSET 0x10000 (flen (demo_record 6)) = 0x10006" "faddr (demo_record 6) = 0x401000"
    by (simp_all add: OFFSET_def demo_record_def)
  have hunt: "hunted one_byte_api (mem (demo_world demo_code)) 0x10006 0x10003 0x401003
      [([], demo_epilogue, [0xc3])] 0x10006"
    unfolding hunted.simps
    by (intro conjI exI [of _ "0x10006"] exI [of _ "0x401006"] epi)
      (simp_all add: demo_epilogue_def)
  have "mirrors one_byte_api demo_prologue demo_epilogue"
    by (simp add: mirrors_def demo_prologue_def demo_epilogue_def one_byte_api_def)
  then have sets: "epilogues demo_tf =
      filter (mirrors one_byte_api (prologue demo_tf)) (map cand_set [([], demo_epilogue, [0xc3])])"
    by (simp add: demo_tf_def cand_set_def)
  have tf: "prologue demo_tf = demo_prologue" "tf_slots demo_tf = 2" "epilogues demo_tf \<noteq> []"
    "tf_record demo_tf = demo_record 6" "tf_order demo_tf = Some (0x100400, map of_nat [0..<2])"
    by (simp_all add: demo_tf_def tf_slots_def demo_prologue_def upt_rec)
  show ?thesis
    unfolding function_found_def rec
  proof (intro conjI exI)
    show "set_found one_byte_api (test_instr_prologue one_byte_api) (mem (demo_world demo_code))
        0x10006 0x10000 0x401000 [] (prologue demo_tf) [0x90] 0x10003 0x401003"
      using pro tf(1) by simp
  qed (use hunt sets tf in simp_all)
qed

section \<open>A function with two epilogues\<close>

text \<open>
  \<open>push rbx; push rdi; nop; pop rdi; pop rbx; ret; pop rdi; pop rbx; ret; nop; nop\<close>: its second
  epilogue is at \<open>0x401006\<close> and recorded at \<open>0x401008\<close>, still inside the function.
\<close>

definition twice_code :: "byte list" where
  "twice_code = [0x53, 0x57, 0x90, 0x5f, 0x5b, 0xc3, 0x5f, 0x5b, 0xc3, 0x90, 0x90]"

definition twice_tf :: "byte transformable" where
  "twice_tf =
     \<lparr>tf_ptr = 0x100000, tf_record = demo_record 11, prologue = demo_prologue,
      epilogues = [demo_epilogue,
        \<lparr>set_ptr = 0x100900, set_start = 0x401008, set_end = 0x40100a, nr_instrs = 2,
         instrs = [(0x100a00, 0x5f), (0x100b00, 0x5b)]\<rparr>],
      tf_order = Some (0x100400, [0, 1])\<rparr>"

lemma twice_add_result:
  "map_option (\<lambda>(rc, t, w). (rc, transformables t))
     (transform_add_function 12 one_byte_api demo_transform (demo_record 11) 0x10000 (demo_world twice_code)) =
   Some (RAVE_SUCCESS, [twice_tf])"
  by code_simp

lemma twice_placed:
  "tf_placed one_byte_api (local_window (demo_record 11) 0x10000) twice_tf (demo_world twice_code)"
  by (simp add: tf_placed_def local_window_def tf_sets_def twice_tf_def set_within_def demo_defs window_ok_def
      block_ok_def demo_world_def ilen_def one_byte_api_def)

text \<open>A run of two passing bytes and what stops it, read off the code.\<close>

lemma one_byte_run:
  assumes "code_at one_byte_api m limit walk og (skip @ run @ stop) walk'"
    and "list_all (\<lambda>i. \<not> test i) skip" "list_all test run" "scan_stop test limit walk' stop"
    and "test (m walk)" "test (m (walk + 1))" "\<not> test (m (walk + 2))" "walk + 2 < limit"
    and "walk < limit" "walk + 1 < limit"
  shows "skip = [] \<and> run = [m walk, m (walk + 1)] \<and> stop = [m (walk + 2)]"
proof -
  have "skip = []"
    using assms(1,2,5) by (cases skip) (auto simp: one_byte_api_def split: if_splits)
  with assms show ?thesis
    by (cases run; cases "tl run"; cases "tl (tl run)"; cases stop)
      (auto simp: one_byte_api_def scan_stop_def add.assoc split: if_splits list.splits)
qed

lemma one_byte_size: "isize one_byte_api xs = length xs"
  by (induction xs) (simp_all add: ilen_def one_byte_api_def)

lemma twice_candidates:
  assumes "code_holds one_byte_api (mem (demo_world twice_code)) 0x10000 (demo_record 11) twice_tf skip stop cs"
  obtains e0 e1 rest where "skip = []" "stop = [0x90]" "cs = ([], e0, [0xc3]) # ([], e1, [0xc3]) # rest"
    "insns e0 = [0x5f, 0x5b]" "insns e1 = [0x5f, 0x5b]" "e1 \<in> set (epilogues twice_tf)"
proof -
  let ?m = "mem (demo_world twice_code)" and ?limit = "0x1000b :: ptr"
  have limit: "OFFSET 0x10000 (flen (demo_record 11)) = ?limit" by (simp add: OFFSET_def demo_record_def)
  have m: "?m 0x10000 = 0x53" "?m 0x10001 = 0x57" "?m 0x10002 = 0x90" "?m 0x10003 = 0x5f" "?m 0x10004 = 0x5b"
    "?m 0x10005 = 0xc3" "?m 0x10006 = 0x5f" "?m 0x10007 = 0x5b" "?m 0x10008 = 0xc3"
    by (simp_all add: demo_world_def mem_put_def twice_code_def)
  have t: "test_instr_prologue one_byte_api 0x53" "test_instr_prologue one_byte_api 0x57"
    "\<not> test_instr_prologue one_byte_api 0x90" "test_instr_epilogue one_byte_api 0x5f"
    "test_instr_epilogue one_byte_api 0x5b" "\<not> test_instr_epilogue one_byte_api 0xc3" by code_simp+
  note c = assms [unfolded code_holds_def Let_def limit]
  from c have "skip = [] \<and> insns (prologue twice_tf) = [?m 0x10000, ?m (0x10000 + 1)] \<and> stop = [?m (0x10000 + 2)]"
    by (elim conjE) (rule one_byte_run [where test = "test_instr_prologue one_byte_api"], assumption+, simp_all add: m t)
  then have pro: "skip = []" "stop = [0x90]" "insns (prologue twice_tf) = [0x53, 0x57]" by (simp_all add: m)
  have cs: "candidates_at one_byte_api ?m ?limit 0x10003 cs"
    using c by (simp add: pro ilen_def one_byte_api_def)
  have step: "\<exists>e rest. cs' = ([], e, [0xc3]) # rest \<and> insns e = [0x5f, 0x5b] \<and>
      candidates_at one_byte_api ?m ?limit (walk + 3) rest"
    if cands: "candidates_at one_byte_api ?m ?limit walk cs'" and walk: "walk = 0x10003 \<or> walk = 0x10006" for walk cs'
  proof -
    from cands walk obtain a e z rest where c: "cs' = (a, e, z) # rest" by (cases cs') auto
    let ?next = "walk + of_nat (isize one_byte_api (a @ insns e @ z))"
    obtain og where f: "code_at one_byte_api ?m ?limit walk og (a @ insns e @ z) ?next"
      "list_all (\<lambda>i. \<not> test_instr_epilogue one_byte_api i) a" "list_all (test_instr_epilogue one_byte_api) (insns e)"
      "scan_stop (test_instr_epilogue one_byte_api) ?limit ?next z" "candidates_at one_byte_api ?m ?limit ?next rest"
      using cands unfolding c candidates_at.simps Let_def by blast
    have "a = [] \<and> insns e = [?m walk, ?m (walk + 1)] \<and> z = [?m (walk + 2)]"
      by (rule one_byte_run [OF f(1-4)]) (use walk in \<open>auto simp: m t\<close>)
    then have e: "a = []" "insns e = [0x5f, 0x5b]" "z = [0xc3]" using walk by (auto simp: m)
    then have "?next = walk + 3" by (simp add: ilen_def one_byte_api_def)
    with f(5) c e show ?thesis by simp
  qed
  obtain e0 cs1 where e0: "cs = ([], e0, [0xc3]) # cs1" "insns e0 = [0x5f, 0x5b]"
    "candidates_at one_byte_api ?m ?limit 0x10006 cs1"
    using step [OF cs] by auto
  obtain e1 rest where e1: "cs1 = ([], e1, [0xc3]) # rest" "insns e1 = [0x5f, 0x5b]"
    using step [OF e0(3)] by auto
  have "mirrors one_byte_api (prologue twice_tf) e1"
    using e1(2) by (simp add: mirrors_def pro(3)) (simp add: one_byte_api_def)
  then have "e1 \<in> set (epilogues twice_tf)"
    using c e0(1) e1(1) by (auto simp: cand_set_def)
  from that [OF pro(1,2) _ e0(2) e1(2) this] e0(1) e1(1) show ?thesis by simp
qed

end
