(* ===== verification/Transform_Supply.thy ===== *)
theory Transform_Supply
  imports Transform_Layout
begin

text \<open>
  \<open>transform_add_function\<close> when memory does not run out. \<open>has_supply w K N\<close> says that the next \<open>K\<close>
  answers of the allocator are good for blocks of up to \<open>N\<close> bytes. Three blocks for each byte of
  the function and a few more are enough for the whole operation, which then always returns, and
  never with \<open>RAVE_ENOMEM\<close>.
\<close>

definition beside :: "ptr \<Rightarrow> nat \<Rightarrow> ptr \<Rightarrow> nat \<Rightarrow> bool" where
  "beside p n b s \<longleftrightarrow> p \<noteq> b \<and> (unat p + n \<le> unat b \<or> unat b + s \<le> unat p)"

definition has_supply :: "world \<Rightarrow> nat \<Rightarrow> nat \<Rightarrow> bool" where
  "has_supply w K N \<longleftrightarrow>
     (\<forall>i < K.
        let p = alloc w (nalloc w + i)
        in p \<noteq> NULL \<and> unat p + N < 2 ^ 64 \<and> (\<forall>(b, s) \<in> set (live w). beside p N b s) \<and>
           (\<forall>j < i. beside p N (alloc w (nalloc w + j)) N))"

lemma beside_mono: "beside p N b M \<Longrightarrow> n \<le> N \<Longrightarrow> m \<le> M \<Longrightarrow> beside p n b m"
  unfolding beside_def by linarith

lemma fresh_block_beside: "fresh_block bl p n \<longleftrightarrow> unat p + n < 2 ^ 64 \<and> (\<forall>(b, s) \<in> set bl. beside p n b s)"
  by (simp add: fresh_block_iff beside_def list_all_iff)

lemma supply_less: "has_supply w K N \<Longrightarrow> J \<le> K \<Longrightarrow> has_supply w J N"
  by (simp add: has_supply_def)

lemma supply_malloc:
  assumes "has_supply w (Suc K) N" "n \<le> N" "rave_malloc n w = (p, w1)"
  shows "p \<noteq> NULL" "has_supply w1 K N"
proof -
  let ?q = "alloc w (nalloc w)"
  have at: "alloc w (nalloc w + i) \<noteq> NULL" "unat (alloc w (nalloc w + i)) + N < 2 ^ 64"
    "\<forall>(b, s) \<in> set (live w). beside (alloc w (nalloc w + i)) N b s"
    "\<forall>j < i. beside (alloc w (nalloc w + i)) N (alloc w (nalloc w + j)) N" if "i < Suc K" for i
    using assms(1) that unfolding has_supply_def Let_def by blast+
  have "fresh_block (live w) ?q n"
    using at(2,3) [of 0] assms(2) beside_mono [of ?q N _ _ n] unfolding fresh_block_beside by fastforce
  then have p: "p = ?q" "p \<noteq> NULL" "live w1 = (?q, n) # live w" "alloc w1 = alloc w" "nalloc w1 = Suc (nalloc w)"
    using assms(3) at(1) [of 0] by (auto simp: rave_malloc_def Let_def)
  then show "p \<noteq> NULL" by blast
  have "beside (alloc w (nalloc w + Suc i)) N ?q n" if "i < K" for i
    using at(4) [of "Suc i"] that assms(2) beside_mono [of _ N ?q N N n] by (metis Suc_less_eq add.right_neutral le_refl zero_less_Suc)
  moreover have "\<forall>j < i. beside (alloc w (nalloc w + Suc i)) N (alloc w (nalloc w + Suc j)) N" if "i < K" for i
  proof (intro allI impI)
    fix j
    assume "j < i"
    then show "beside (alloc w (nalloc w + Suc i)) N (alloc w (nalloc w + Suc j)) N"
      using at(4) [of "Suc i"] that by blast
  qed
  ultimately show "has_supply w1 K N"
    using at(1,2,3) [of "Suc i" for i] unfolding has_supply_def Let_def p by fastforce
qed

lemma supply_shrinks:
  assumes "has_supply w K N" "alloc w' = alloc w" "nalloc w' = nalloc w" "set (live w') \<subseteq> set (live w)"
  shows "has_supply w' K N"
  using assms(1) subsetD [OF assms(4)] unfolding has_supply_def Let_def assms(2,3) by fast

lemma supply_free:
  assumes "has_supply w K N" "rave_free p w = Some w'"
  shows "has_supply w' K N"
  by (rule supply_shrinks [OF assms(1)]; use assms(2) in \<open>auto simp: rave_free_def split: if_splits\<close>)

lemma supply_touch:
  assumes "has_supply w K N"
  shows "has_supply (instr_touch p w) K N"
  by (rule supply_shrinks [OF assms]; simp add: instr_touch_def log_fault_def)

lemma supply_close_chain: "has_supply w K N \<Longrightarrow> close_chain ch w = Some w' \<Longrightarrow> has_supply w' K N"
proof (induction ch arbitrary: w)
  case (Cons x ch)
  obtain p i where x: "x = (p, i)" by fastforce
  obtain w1 where w1: "rave_free p w = Some w1" "close_chain ch (instr_touch p w1) = Some w'"
    using Cons.prems(2) x by (auto simp: bind_eq_Some_conv instr_destroy_def)
  from Cons.IH [OF supply_touch [OF supply_free [OF Cons.prems(1) w1(1)]] w1(2)] show ?case .
qed simp

section \<open>Scanning\<close>

lemma next_set_loop_supply:
  assumes "next_set_loop fuel api (Some test) limit walk og is instr w = Some ((rc, walk', og', r), w')"
    and "dr_advances api" "dr_instr_size api \<le> N" "has_supply w K N" "unat limit - unat walk \<le> K"
  shows "rc = RAVE_SUCCESS \<and> unat walk \<le> unat walk' \<and> has_supply w' (K - ((unat limit - unat walk) - (unat limit - unat walk'))) N \<or>
    rc = RAVE_ETRANSFORM \<and> r \<noteq> None"
  using assms(1,4,5)
proof (induction fuel arbitrary: walk og "is" instr w K)
  case 0
  then show ?case by simp
next
  case (Suc fuel)
  note run = Suc.prems(1)
  obtain p i where d: "dr_decode api (mem w) walk og = (p, i)" by fastforce
  obtain instr1 w1 where c: "instr_create api w = (instr1, w1)" by fastforce
  let ?og = "og + int_to_size (dr_length api i)"
  let ?is = "is\<lparr>nr_instrs := nr_instrs is + 1, set_end := ?og, instrs := instrs is @ [(instr, i)]\<rparr>"
  have fin: "rc = RAVE_SUCCESS \<and> walk' = q \<and> has_supply w' K N"
    if "next_set_done q og'' is instr w = Some ((rc, walk', og', r), w')" for q og''
    using that Suc.prems(2) supply_free
    by (auto simp: next_set_done_def instr_destroy_def bind_eq_Some_conv)
  show ?case
  proof (cases "walk < limit")
    case False
    then show ?thesis using run fin [of walk og] by simp
  next
    case lt: True
    show ?thesis
    proof (cases "p = NULL")
      case True
      then show ?thesis
        using run lt d by (auto simp: next_set_err_def instr_set_close_def bind_eq_Some_conv split: if_splits)
    next
      case False
      note adv = dr_advancesD [OF assms(2) d False]
      have K: "unat walk < unat limit" using lt by (simp add: word_less_nat_alt)
      then obtain J where J: "K = Suc J" using Suc.prems(3) by (cases K) auto
      have rest: "unat limit - unat p \<le> J" using Suc.prems(3) adv K J by linarith
      have less_supply: "unat walk \<le> unat walk' \<and>
          has_supply w' (K - ((unat limit - unat walk) - (unat limit - unat walk'))) N"
        if "unat p \<le> unat walk' \<and> has_supply w' M N" "J - ((unat limit - unat p) - (unat limit - unat walk')) \<le> M"
        for M
      proof -
        have "K - ((unat limit - unat walk) - (unat limit - unat walk')) \<le> M"
          using that adv K J by linarith
        then show ?thesis using that(1) adv supply_less by fastforce
      qed
      show ?thesis
      proof (cases "test i")
        case True
        have "has_supply w (Suc J) N" using Suc.prems(2) J by simp
        note m = supply_malloc [OF this assms(3) c [unfolded instr_create_def]]
        have "next_set_loop fuel api (Some test) limit p ?og ?is instr1 w1 = Some ((rc, walk', og', r), w')"
          using run lt d False True c m(1) by (simp add: Let_def)
        from Suc.IH [OF this m(2) rest] show ?thesis
          using less_supply [of "J - ((unat limit - unat p) - (unat limit - unat walk'))"] by auto
      next
        case t: False
        show ?thesis
        proof (cases "nr_instrs is = 0")
          case True
          have "next_set_loop fuel api (Some test) limit p ?og (is\<lparr>set_start := ?og, set_end := ?og\<rparr>) instr w =
              Some ((rc, walk', og', r), w')"
            using run lt d False t True by (simp add: Let_def)
          from Suc.IH [OF this Suc.prems(2)] rest J show ?thesis
            using less_supply [of "K - ((unat limit - unat p) - (unat limit - unat walk'))"] by auto
        next
          case n: False
          then show ?thesis
            using run lt d False t fin [of p ?og] adv
              supply_less [of w' K N "K - (unat limit - unat walk - (unat limit - unat p))"] by (simp add: Let_def)
        qed
      qed
    qed
  qed
qed

lemma next_set_supply:
  assumes "next_set fuel api walk limit og self contents (Some test) w = Some ((rc, walk', og', r), w')"
    and "dr_advances api" "dr_instr_size api \<le> N" "has_supply w (Suc K) N" "unat limit - unat walk \<le> K"
    and "self \<noteq> NULL"
  shows "rc = RAVE_SUCCESS \<and> unat walk \<le> unat walk' \<and> has_supply w' (K - ((unat limit - unat walk) - (unat limit - unat walk'))) N \<or>
    rc = RAVE_ETRANSFORM \<and> r \<noteq> None"
proof -
  obtain instr w1 where c: "instr_create api w = (instr, w1)" by fastforce
  note m = supply_malloc [OF assms(4,3) c [unfolded instr_create_def]]
  have "next_set_loop fuel api (Some test) limit walk og (fresh_instr_set self og) instr w1 =
      Some ((rc, walk', og', r), w')"
    using assms(1,6) c m(1) by (simp add: next_set_def instr_set_init_def)
  from next_set_loop_supply [OF this assms(2,3) m(2) assms(5)] show ?thesis .
qed

section \<open>The hunt\<close>

lemma find_epilogues_supply:
  assumes "find_epilogues fuel inner api limit walk og tf is contents w =
      Some ((rc, walk', tf', is', contents'), w')"
    and "dr_advances api" "dr_instr_size api \<le> N" "sizeof_instr_set \<le> N"
    and "has_supply w K N" "3 * (unat limit - unat walk) \<le> K"
    and "owns B L (is # tf_hold tf) w" "\<forall>s. contents = Some s \<longrightarrow> instrs s = []"
  shows "rc = RAVE_SUCCESS \<or> rc = RAVE_ETRANSFORM \<and> contents' \<noteq> None"
  using assms(1,5-8)
proof (induction fuel arbitrary: walk og tf "is" contents w K)
  case 0
  then show ?case by simp
next
  case (Suc fuel)
  show ?case
  proof (cases "walk < limit")
    case False
    then show ?thesis using Suc.prems(1) by simp
  next
    case lt: True
    obtain rc1 walk1 og1 r w1 where n:
      "next_set inner api walk limit og is contents (Some (test_instr_epilogue api)) w =
        Some ((rc1, walk1, og1, r), w1)"
      using Suc.prems(1) lt by (auto simp: bind_eq_Some_conv split: prod.splits)
    note held = next_set_held [OF n Suc.prems(4)]
    have "is": "is \<noteq> NULL" using owns_head [OF Suc.prems(4)] .
    have "unat walk < unat limit" using lt by (simp add: word_less_nat_alt)
    then obtain J where J: "K = Suc J" "unat limit - unat walk \<le> J"
      using Suc.prems(3) by (cases K) auto
    have sup: "rc1 = RAVE_SUCCESS \<and> unat walk \<le> unat walk1 \<and>
        has_supply w1 (J - ((unat limit - unat walk) - (unat limit - unat walk1))) N \<or> rc1 = RAVE_ETRANSFORM \<and> r \<noteq> None"
      by (rule next_set_supply [OF n assms(2,3) _ J(2) "is"]) (use Suc.prems(2) J(1) in simp)
    show ?thesis
    proof (cases "rc1 = RAVE_SUCCESS")
      case False
      then show ?thesis using sup Suc.prems(1) lt n by simp
    next
      case ok: True
      obtain s skip stop where s: "r = Some s" "set_ptr s = is"
        "set_found api (test_instr_epilogue api) (mem w) limit walk og skip s stop walk1 og1"
        "owns B L (map fst (instrs s) @ set_ptr s # tf_hold tf) w1"
        using held ok by auto
      have adv: "unat walk < unat walk1" using found_advances [OF assms(2) s(3) lt] .
      then obtain M where M: "J - ((unat limit - unat walk) - (unat limit - unat walk1)) = Suc M" "3 * (unat limit - unat walk1) \<le> M"
        using Suc.prems(3) J(1) \<open>unat walk < unat limit\<close>
        by (cases "J - ((unat limit - unat walk) - (unat limit - unat walk1))") auto
      have w1: "has_supply w1 (Suc M) N" using sup ok M(1) by simp
      let ?og2 = "og1 + (set_end s - set_start s)"
      show ?thesis
      proof (cases "is_epilogue api (prologue tf) s")
        case e: True
        let ?tf = "tf\<lparr>epilogues := epilogues tf @ [s]\<rparr>"
        obtain is2 w2 where c: "instr_set_create w1 = (is2, w2)" by fastforce
        note m = supply_malloc [OF w1 assms(4) c [unfolded instr_set_create_def]]
        have "find_epilogues fuel inner api limit walk1 ?og2 ?tf is2 None w2 =
            Some ((rc, walk', tf', is', contents'), w')"
          using Suc.prems(1) lt n ok s(1) e c m(1) by (simp add: Let_def)
        moreover have "owns B L (is2 # tf_hold ?tf) w2"
          using owns_malloc [OF tf_hold_add [OF s(4)] c [unfolded instr_set_create_def] m(1)] .
        ultimately show ?thesis using m(2) M(2) by (intro Suc.IH) auto
      next
        case e: False
        obtain w2 where w2: "close_chain (instrs s) w1 = Some w2" "owns B L (set_ptr s # tf_hold tf) w2"
          using close_chain_owned [OF s(4)] by blast
        have "find_epilogues fuel inner api limit walk1 ?og2 tf is (Some (s\<lparr>instrs := []\<rparr>)) w2 =
            Some ((rc, walk', tf', is', contents'), w')"
          using Suc.prems(1) lt n ok s(1) e w2(1) "is" by (simp add: Let_def instr_set_close_def)
        moreover have "has_supply w2 M N"
          using supply_less [OF supply_close_chain [OF w1 w2(1)], of M] by simp
        ultimately show ?thesis using w2(2) s(2) M(2) by (intro Suc.IH) auto
      qed
    qed
  qed
qed

section \<open>The whole operation\<close>

definition plenty :: "'i dr_api \<Rightarrow> func \<Rightarrow> world \<Rightarrow> bool" where
  "plenty api rec w \<longleftrightarrow>
     (\<exists>N. dr_instr_size api \<le> N \<and> sizeof_transformable \<le> N \<and> 4 * unat (flen rec) \<le> N \<and>
        has_supply w (4 + 3 * unat (flen rec)) N)"

lemma add_function_returns_tail:
  fixes tp :: ptr and rec :: func and bytes :: ptr and api :: "'a dr_api"
  assumes "dr_advances api" "unat (flen rec) < fuel" "unat bytes + unat (flen rec) < 2 ^ 64"
    and create: "transformable_create w = (tp, w1)" "tp \<noteq> NULL"
    and scan: "next_set fuel api bytes (OFFSET bytes (flen rec)) (faddr rec) (tp + offset_prologue)
        (Some (fresh_instr_set (tp + offset_prologue) (faddr rec))) (Some (test_instr_prologue api)) w1 =
        Some ((RAVE_SUCCESS, walk1, og1, Some p), w2)"
    and found: "nr_instrs p = of_nat (length (instrs p))" "length (instrs p) \<le> unat (flen rec)"
    and own: "owns B L (map fst (instrs p) @ [tp]) w2" and walk: "unat bytes \<le> unat walk1"
    and sup: "has_supply w2 (2 + 3 * (unat (OFFSET bytes (flen rec)) - unat walk1)) N"
      "dr_instr_size api \<le> N" "sizeof_transformable \<le> N" "4 * unat (flen rec) \<le> N"
      "unat (flen rec) \<le> 2 ^ 31"
  shows "\<exists>rc self' w'. transform_add_function fuel api self rec bytes w = Some (rc, self', w') \<and>
    rc \<in> {RAVE_SUCCESS, RAVE_ETRANSFORM}"
proof -
  let ?limit = "OFFSET bytes (flen rec)"
  let ?tf1 = "(transformable_init tp rec)\<lparr>prologue := p\<rparr>"
  have pro: "prologue (transformable_init tp rec) = fresh_instr_set (tp + offset_prologue) (faddr rec)"
    "set_ptr (fresh_instr_set (tp + offset_prologue) (faddr rec) :: 'a instr_set) = tp + offset_prologue"
    by (simp_all add: transformable_init_def fresh_instr_set_def)
  have lim: "unat ?limit = unat bytes + unat (flen rec)"
    unfolding OFFSET_def using assms(3) by (rule unat_plus_nowrap)
  have h1: "tf_hold ?tf1 = tp # map fst (instrs p)"
    by (simp add: tf_hold_def order_hold_def transformable_init_def)
  have own1: "owns B L (maybe_ptr NULL @ tf_hold ?tf1) w2"
    using own by (subst (asm) owns_perm) (simp_all add: h1 maybe_ptr_def)
  have err: "\<exists>self' w'. add_function_err e tf is contents self v = Some (e, self', w')"
    if "owns B L (maybe_ptr is @ tf_hold tf) v" "is = NULL \<or> contents \<noteq> None"
      "\<forall>s. contents = Some s \<longrightarrow> instrs s = []" for e and tf :: "'a transformable" and "is" contents v
    using add_function_err_total [OF that, of e self] add_function_err_owned [OF _ that(1,3)] by fastforce
  note def = transform_add_function_def [of fuel api self rec bytes w, unfolded Let_def create(1) prod.case pro scan]
  show ?thesis
  proof (cases "nr_instrs p < 2")
    case True
    with err [OF own1, of None RAVE_ETRANSFORM] def create(2) show ?thesis by auto
  next
    case ge: False
    obtain op w3 where op: "rave_malloc (unat (4 * nr_instrs p)) w2 = (op, w3)" by fastforce
    have "unat (4 * nr_instrs p) = 4 * length (instrs p)"
      using found sup(5) unat_of_nat64 [of "4 * length (instrs p)"] by simp
    then have "unat (4 * nr_instrs p) \<le> N" using found(2) sup(4) by linarith
    from supply_malloc [OF _ this op] sup(1)
    have m3: "op \<noteq> NULL" "has_supply w3 (1 + 3 * (unat ?limit - unat walk1)) N" by simp_all
    let ?tf2 = "?tf1\<lparr>tf_order := Some (op, identity_order (nr_instrs p))\<rparr>"
    have "owns B L (op # tp # map fst (instrs p)) w3"
      using owns_malloc [OF own1 op m3(1)] by (simp add: h1 maybe_ptr_def)
    then have own3: "owns B L (tf_hold ?tf2) w3"
      by (subst (asm) owns_perm) (simp_all add: tf_hold_def order_hold_def transformable_init_def)
    obtain "is" w4 where c: "instr_set_create w3 = (is, w4)" by fastforce
    have size: "sizeof_instr_set \<le> N"
      using sup(3) by (simp add: sizeof_instr_set_def sizeof_transformable_def)
    from supply_malloc [OF _ size c [unfolded instr_set_create_def]] m3(2)
    have m4: "is \<noteq> NULL" "has_supply w4 (3 * (unat ?limit - unat walk1)) N" by simp_all
    have own4: "owns B L (is # tf_hold ?tf2) w4"
      using owns_malloc [OF own3 c [unfolded instr_set_create_def] m4(1)] .
    have fuel: "unat ?limit - unat walk1 < fuel" using lim walk assms(2) by linarith
    from find_epilogues_total [OF assms(1) fuel fuel own4, of None og1]
    obtain rc2 walk2 tf3 is2 contents2 w5 where f:
      "find_epilogues fuel fuel api ?limit walk1 og1 ?tf2 is None w4 =
        Some ((rc2, walk2, tf3, is2, contents2), w5)" by (auto split: prod.splits)
    have rc2: "rc2 = RAVE_SUCCESS \<or> rc2 = RAVE_ETRANSFORM \<and> contents2 \<noteq> None"
      by (rule find_epilogues_supply [OF f assms(1) sup(2) size m4(2) _ own4]) simp_all
    have spec: "rc2 = RAVE_SUCCESS \<and> hunt_done B L api ?limit walk1 og1 (mem w4) ?tf2 tf3 walk2 is2 w5 \<or>
        rc2 \<in> {RAVE_ETRANSFORM, RAVE_ENOMEM} \<and> hunt_failed B L ?tf2 tf3 is2 contents2 w5"
      using find_epilogues_spec [OF f own4] found(1) by simp
    show ?thesis
    proof (cases "rc2 = RAVE_SUCCESS")
      case False
      with spec rc2 have "owns B L (maybe_ptr is2 @ tf_hold tf3) w5" "contents2 \<noteq> None"
        "\<forall>s. contents2 = Some s \<longrightarrow> instrs s = []" "rc2 = RAVE_ETRANSFORM"
        by (auto simp: hunt_failed_def)
      with err [of is2 tf3 w5 contents2 rc2] def create(2) ge op m3(1) c m4(1) f
      show ?thesis by auto
    next
      case True
      then have "owns B L (is2 # tf_hold tf3) w5" using spec by (simp add: hunt_done_def)
      from owns_free_head [OF this] owns_head [OF this]
      obtain w6 where w6: "rave_free is2 w5 = Some w6" "owns B L (tf_hold tf3) w6" "is2 \<noteq> NULL" by blast
      have "\<exists>self' w'. add_function_err RAVE_ETRANSFORM tf3 NULL None self w6 =
          Some (RAVE_ETRANSFORM, self', w')"
        using err [of NULL tf3 w6 None] w6(2) by (simp add: maybe_ptr_def)
      with def create(2) ge op m3(1) c m4(1) f True w6 show ?thesis
        by (auto simp: instr_set_destroy_def)
    qed
  qed
qed

lemma add_function_returns_all:
  fixes api :: "'a dr_api"
  assumes "dr_advances api" "unat (flen rec) < fuel" "func_bounds rec bytes" "plenty api rec w"
    and "NULL \<notin> live_set w"
  shows "\<exists>rc self' w'. transform_add_function fuel api self rec bytes w = Some (rc, self', w') \<and>
    rc \<in> {RAVE_SUCCESS, RAVE_ETRANSFORM}"
proof -
  let ?limit = "OFFSET bytes (flen rec)" and ?F = "unat (flen rec)"
  have b: "?F \<le> 2 ^ 31" "unat bytes + ?F < 2 ^ 64" using assms(3) unfolding func_bounds_def by blast+
  have lim: "unat ?limit = unat bytes + ?F" unfolding OFFSET_def using b(2) by (rule unat_plus_nowrap)
  obtain N where N: "dr_instr_size api \<le> N" "sizeof_transformable \<le> N" "4 * ?F \<le> N"
    "has_supply w (4 + 3 * ?F) N" using assms(4) unfolding plenty_def by blast
  obtain tp w1 where c: "transformable_create w = (tp, w1)" by fastforce
  have "has_supply w (Suc (Suc (2 + 3 * ?F))) N" using N(4) by (simp add: eval_nat_numeral)
  note m1 = supply_malloc [OF this N(2) c [unfolded transformable_create_def]]
  have own: "owns (set (live w)) (live_set w) [tp] w1"
    using owns_malloc [OF owns_self [OF assms(5)] c [unfolded transformable_create_def] m1(1)] .
  then have own': "owns (set (live w)) (live_set w \<union> {tp}) [] w1" "tp \<notin> live_set w" "tp \<noteq> NULL"
    using owns_append [of "set (live w)" "live_set w" "[]" "[tp]" w1] by auto
  let ?is = "tp + offset_prologue"
  note isN = transformable_create_ptr [OF c m1(1)]
  have "unat ?limit - unat bytes < fuel" using lim assms(2) by simp
  from next_set_total [OF assms(1) isN own'(1) this]
  obtain rc1 walk1 og1 r w2 where n: "next_set fuel api bytes ?limit (faddr rec) ?is
      (Some (fresh_instr_set ?is (faddr rec))) (Some (test_instr_prologue api)) w1 =
      Some ((rc1, walk1, og1, r), w2)" by (metis prod.collapse)
  have "unat ?limit - unat bytes \<le> 2 + 3 * ?F" using lim by simp
  note sup = next_set_supply [OF n assms(1) N(1) m1(2) this isN]
  have pro: "prologue (transformable_init tp rec) = fresh_instr_set ?is (faddr rec)"
    "set_ptr (fresh_instr_set ?is (faddr rec) :: 'a instr_set) = ?is"
    by (simp_all add: transformable_init_def fresh_instr_set_def)
  show ?thesis
  proof (cases "rc1 = RAVE_SUCCESS")
    case False
    then have "rc1 = RAVE_ETRANSFORM" using sup by simp
    then have "transform_add_function fuel api self rec bytes w = Some (RAVE_ETRANSFORM, self, w2)"
      using m1(1) n pro(2) by (simp add: transform_add_function_def Let_def c pro(1))
    then show ?thesis by simp
  next
    case True
    then obtain p skip stop where p: "r = Some p" "owns (set (live w)) (live_set w \<union> {tp}) (map fst (instrs p)) w2"
      "set_found api (test_instr_prologue api) (mem w1) ?limit bytes (faddr rec) skip p stop walk1 og1"
      using next_set_spec [OF n isN own'(1)] by auto
    have "owns (set (live w)) (live_set w) (map fst (instrs p) @ [tp]) w2"
      using p(2) own' live_blocks owns_append [of "set (live w)" "live_set w" "map fst (instrs p)" "[tp]" w2] by simp
    moreover have "length (instrs p) \<le> ?F"
    proof -
      have "code_at api (mem w1) ?limit bytes (faddr rec) (skip @ insns p @ stop) walk1"
        using p(3) unfolding set_found_def scan_found_def by blast
      from code_at_count [OF assms(1) this] lim show ?thesis by simp
    qed
    moreover have "has_supply w2 (2 + 3 * (unat ?limit - unat walk1)) N"
      using sup True lim by (auto intro: supply_less)
    moreover have "nr_instrs p = of_nat (length (instrs p))" "unat bytes \<le> unat walk1"
      using p(3) sup True by (simp_all add: set_found_def)
    ultimately show ?thesis
      using n True p(1)
      by (intro add_function_returns_tail [OF assms(1,2) b(2) c m1(1) _ _ _ _ _ _ N(1-3) b(1)]) simp_all
  qed
qed

end
