(* ===== verification/Transform_Properties.thy ===== *)
theory Transform_Properties
  imports Transform_Demo Transform_Supply
begin

text \<open>
  The contract of \<open>transform.c\<close>: what is found in a function, what is added, what a permutation
  leaves in memory, and that permuted code still restores the registers it saves. Each property
  is applied to the concrete function of \<open>Transform_Demo\<close>.
\<close>

section \<open>Permuting\<close>

text \<open>
  C6. \<open>permute\<close> on a function that was added succeeds. The new order is again a slot table; the
  prologue is the old one arranged by it, each epilogue its own instructions arranged by the
  mirrored table; nothing else of the process changes but the count of random numbers. The
  loops read one entry past their local table for every set.
\<close>

theorem permute_correct:
  assumes "tf_ready api text w tf"
  shows "\<exists>t k. slot_table (tf_slots tf) t \<and>
    permute api tf (function_window text (tf_record tf)) w =
      Some (RAVE_SUCCESS, permuted_tf tf t,
        w\<lparr>mem := permuted_mem api (function_window text (tf_record tf)) (slots t) tf (mem w),
          nrand := k, faults := faults w @ one_past_reads tf\<rparr>)"
  using permute_eq assms unfolding tf_ready_def by blast

theorem permute_correct_witness:
  "\<exists>t w'. permute one_byte_api demo_tf demo_fw (demo_world demo_code) =
     Some (RAVE_SUCCESS, permuted_tf demo_tf t, w') \<and>
     faults w' = [Read_Past_End 2, Read_Past_End 2]"
proof -
  have "faults (demo_world demo_code) @ one_past_reads demo_tf = [Read_Past_End 2, Read_Past_End 2]"
    by (simp add: demo_world_def one_past_reads_def tf_sets_def tf_slots_def demo_defs)
  with permute_correct [OF demo_ready] show ?thesis by fastforce
qed

text \<open>
  C1. A permuted function restores its registers: after the new prologue has saved them, whatever
  the body does to the registers, each new epilogue gives every register the original prologue
  saved its value back and leaves the stack as it was.
\<close>

theorem permuted_function_restores:
  assumes "tf_ready api text w tf" "tf_sorted tf" "dr_roundtrip api (tf_insns tf)"
    and "permute api tf (function_window text (tf_record tf)) w = Some (rc, tf', w')"
    and "e \<in> set (epilogues tf)"
  shows "restores_regs api (function_window text (tf_record tf)) (mem w') tf e"
proof -
  let ?fw = "function_window text (tf_record tf)"
  have r: "tf_wf api tf" "tf_placed api ?fw tf w" "dr_keeps_length api (tf_insns tf)"
    using assms(1) by (simp_all add: tf_ready_def)
  obtain t k where t: "slot_table (tf_slots tf) t"
    "permute api tf ?fw w = Some (RAVE_SUCCESS, permuted_tf tf t,
        w\<lparr>mem := permuted_mem api ?fw (slots t) tf (mem w), nrand := k,
          faults := faults w @ one_past_reads tf\<rparr>)"
    using permute_eq [OF r] by blast
  then have "mem w' = permuted_mem api ?fw (slots t) tf (mem w)" using assms(4) by simp
  then show ?thesis
    using permuted_restores [OF r assms(3,2) slot_table_perm [OF t(1) tf_wfD(2) [OF r(1)]] assms(5)]
    by simp
qed

theorem permuted_function_restores_witness:
  "\<exists>tf' w'. permute one_byte_api demo_tf demo_fw (demo_world demo_code) = Some (RAVE_SUCCESS, tf', w') \<and>
     restores_regs one_byte_api demo_fw (mem w') demo_tf demo_epilogue"
proof -
  obtain t w' where "permute one_byte_api demo_tf demo_fw (demo_world demo_code) =
      Some (RAVE_SUCCESS, permuted_tf demo_tf t, w')"
    using permute_eq [of one_byte_api demo_tf demo_fw "demo_world demo_code"] demo_ready
    unfolding tf_ready_def by blast
  moreover have "demo_epilogue \<in> set (epilogues demo_tf)" by (simp add: demo_tf_def)
  ultimately show ?thesis
    using permuted_function_restores [OF demo_ready demo_wf(2) one_byte_roundtrip [OF demo_insns]] by blast
qed

text \<open>
  C7. \<open>transform_permute_all\<close> permutes every function by a table of its own. No byte outside the
  sets of the functions changes, and all functions stay ready to be permuted again.
\<close>

theorem permute_all_correct:
  assumes "\<forall>tf \<in> set (transformables t). tf_ready api text w tf"
  shows "\<exists>ts k t' w'.
    transform_permute_all api (Some t) (Some text) w = Some (RAVE_SUCCESS, Some t', w') \<and>
    list_all2 (\<lambda>tf t. slot_table (tf_slots tf) t) (transformables t) ts \<and>
    t' = t\<lparr>transformables := map2 permuted_tf (transformables t) ts\<rparr> \<and>
    w' = w\<lparr>mem := permuted_all api text (transformables t) ts (mem w), nrand := k,
      faults := faults w @ concat (map one_past_reads (transformables t))\<rparr> \<and>
    (\<forall>tf \<in> set (transformables t'). tf_ready api text w' tf) \<and>
    (\<forall>a. (\<forall>tf \<in> set (transformables t). \<forall>s \<in> set (tf_sets tf).
        isize api (insns s) \<le> unat (a - set_at (function_window text (tf_record tf)) s)) \<longrightarrow>
      mem w' a = mem w a)"
proof -
  obtain ts k where ts: "list_all2 (\<lambda>tf t. slot_table (tf_slots tf) t) (transformables t) ts"
    "permute_list api text (transformables t) w =
      Some (RAVE_SUCCESS, map2 permuted_tf (transformables t) ts,
        w\<lparr>mem := permuted_all api text (transformables t) ts (mem w), nrand := k,
          faults := faults w @ concat (map one_past_reads (transformables t))\<rparr>)" (is "_ = Some (_, _, ?w)")
    using permute_list_eq [OF assms] by blast
  have "tf_ready api text ?w (permuted_tf tf u)" if "(tf, u) \<in> set (zip (transformables t) ts)" for tf u
  proof -
    have "tf \<in> set (transformables t)" "slot_table (tf_slots tf) u"
      using that ts(1) by (auto simp: list_all2_iff dest: set_zip_leftD)
    then have "tf_ready api text w (permuted_tf tf u)"
      using assms permuted_tf_ready by blast
    then show ?thesis by (simp add: tf_ready_world [of ?w w])
  qed
  then have "\<forall>tf \<in> set (map2 permuted_tf (transformables t) ts). tf_ready api text ?w tf"
    by auto
  moreover have "mem ?w a = mem w a"
    if "\<forall>tf \<in> set (transformables t). \<forall>s \<in> set (tf_sets tf).
      isize api (insns s) \<le> unat (a - set_at (function_window text (tf_record tf)) s)" for a
    using permuted_all_outside [OF assms ts(1) that] by simp
  ultimately show ?thesis
    using ts by (intro exI [of _ ts] exI [of _ k] exI) (auto simp: transform_permute_all_def)
qed

theorem permute_all_correct_witness:
  "\<exists>t' w'. transform_permute_all one_byte_api (Some (demo_transform\<lparr>transformables := [demo_tf]\<rparr>))
     (Some demo_text) (demo_world demo_code) = Some (RAVE_SUCCESS, Some t', w')"
  using permute_all_correct [of "demo_transform\<lparr>transformables := [demo_tf]\<rparr>" one_byte_api demo_text
      "demo_world demo_code"] demo_ready by auto

text \<open>
  The order \<open>permute\<close> derives for the epilogues is a slot table, and arranging the reversed
  instructions by it gives the reversed arrangement.
\<close>

theorem epilogue_order_mirrors:
  assumes "slot_table (length xs) t" "xs \<noteq> []" "length xs \<le> 2 ^ 31"
  shows "\<exists>u. epilogue_order (of_nat (length xs)) t = Some u \<and> slot_table (length xs) u \<and>
    arrange (slots u) (rev xs) = rev (arrange (slots t) xs)"
  using epilogue_order_eq [OF assms(1) _ assms(3)] mirrored_table [OF assms(1,3)]
    arrange_mirror [OF slot_table_perm [OF assms(1,3)]] assms(2) by simp

theorem epilogue_order_mirrors_witness:
  "\<exists>u. epilogue_order 3 [1, 2, 0] = Some u \<and> arrange (slots u) [''c'', ''b'', ''a''] = [''b'', ''a'', ''c'']"
proof -
  have "slot_table (length [''a'', ''b'', ''c'']) [1, 2, 0]" by (simp add: slot_table_def upt_rec)
  moreover have "rev (arrange (slots [1, 2, 0]) [''a'', ''b'', ''c'']) = [''b'', ''a'', ''c'']"
    by (simp add: arrange_def slots_def slot_index_def upt_rec)
  ultimately show ?thesis
    using epilogue_order_mirrors [of "[''a'', ''b'', ''c'']" "[1, 2, 0]"] by auto
qed

section \<open>Scanning\<close>

text \<open>
  C16. When \<open>next_set\<close> succeeds, the decoded instructions from \<open>*walk\<close> on are a part that fails the
  test, the set, and at most one further instruction; the set holds exactly the run of
  instructions that pass, with its count and its start and end addresses, and \<open>*walk\<close> and \<open>*orig\<close>
  have moved past all of it. Only the set's instructions have become live.
\<close>

theorem next_set_finds:
  assumes "next_set fuel api walk limit og self contents (Some test) w =
      Some ((RAVE_SUCCESS, walk', og', r), w')"
    and "self \<noteq> NULL" "NULL \<notin> live_set w"
  shows "\<exists>s skip stop. r = Some s \<and> set_ptr s = self \<and>
    set_found api test (mem w) limit walk og skip s stop walk' og' \<and>
    owns (set (live w)) (live_set w) (map fst (instrs s)) w' \<and> mem w' = mem w"
  using next_set_spec [OF assms(1,2) owns_self [OF assms(3)]] heap_onlyD by fastforce

theorem next_set_finds_witness:
  "\<exists>s w'. demo_scan = Some ((RAVE_SUCCESS, 0x10003, 0x401003, Some s), w') \<and>
     set_start s = 0x401000 + code_len one_byte_api []"
proof -
  obtain r w' where r: "demo_scan = Some ((RAVE_SUCCESS, 0x10003, 0x401003, r), w')"
    "map_option (map snd \<circ> instrs) r = Some [0x53, 0x57]"
    using demo_scan_result by auto
  have "NULL \<notin> live_set (demo_world demo_code)" by (simp add: live_set_def demo_world_def)
  from next_set_finds [OF r(1) _ this] obtain s skip stop where s: "r = Some s"
    "set_found one_byte_api (test_instr_prologue one_byte_api) (mem (demo_world demo_code))
      0x10006 0x10000 0x401000 skip s stop 0x10003 0x401003" by auto
  have "skip = []"
  proof (cases skip)
    case (Cons i rest)
    then have "dr_decode one_byte_api (mem (demo_world demo_code)) 0x10000 0x401000 = (0x10001, i)"
      using s(2) by (auto simp: set_found_def scan_found_def one_byte_api_def split: if_splits)
    then have "i = 0x53"
      by (simp add: one_byte_api_def demo_world_def demo_code_def mem_put_def one_byte_valid_def)
    moreover have "\<not> test_instr_prologue one_byte_api i"
      using s(2) Cons by (simp add: set_found_def scan_found_def)
    ultimately show ?thesis by (simp add: test_instr_prologue_def one_byte_api_def)
  qed simp
  with r(1) s show ?thesis by (auto simp: set_found_def)
qed

text \<open>
  When \<open>next_set\<close> fails, with invalid code or without memory, it has given back every
  instruction it created.
\<close>

theorem next_set_fails_clean:
  assumes "next_set fuel api walk limit og self contents (Some test) w = Some ((rc, walk', og', r), w')"
    and "rc \<noteq> RAVE_SUCCESS" "self \<noteq> NULL" "NULL \<notin> live_set w"
  shows "rc \<in> {RAVE_ETRANSFORM, RAVE_ENOMEM} \<and> live_set w' = live_set w \<and> mem w' = mem w"
  using next_set_spec [OF assms(1,3) owns_self [OF assms(4)]] assms(2) by (auto simp: owns_def)

theorem next_set_fails_clean_witness:
  "\<exists>rc res w'. next_set 4 one_byte_api 0x10000 0x10002 0x401000 0x100020 None
      (Some (test_instr_prologue one_byte_api)) (demo_world [0x53, 0x00]) = Some ((rc, res), w') \<and>
     rc = RAVE_ETRANSFORM \<and> live_set w' = live_set (demo_world [0x53, 0x00])"
proof -
  let ?run = "next_set 4 one_byte_api 0x10000 0x10002 0x401000 0x100020 None
      (Some (test_instr_prologue one_byte_api)) (demo_world [0x53, 0x00])"
  have "map_option (fst \<circ> fst) ?run = Some RAVE_ETRANSFORM" by code_simp
  then obtain walk' og' r w' where r: "?run = Some ((RAVE_ETRANSFORM, walk', og', r), w')" by auto
  have "NULL \<notin> live_set (demo_world [0x53, 0x00])" by (simp add: live_set_def demo_world_def)
  from next_set_fails_clean [OF r _ _ this] r show ?thesis by auto
qed

text \<open>
  C25. \<open>next_set\<close> ends: with a decoder that advances, as much fuel as there are bytes left, and one
  more, is enough, whatever the code and the heap hold.
\<close>

theorem next_set_returns:
  assumes "dr_advances api" "self \<noteq> NULL" "NULL \<notin> live_set w" "unat limit - unat walk < fuel"
  shows "\<exists>res. next_set fuel api walk limit og self contents (Some test) w = Some res"
  using next_set_total [OF assms(1,2) owns_self [OF assms(3)] assms(4)] .

theorem next_set_returns_witness: "\<exists>res. demo_scan = Some res"
  by (rule next_set_returns [OF one_byte_advances])
    (simp_all add: live_set_def demo_world_def)

text \<open>
  \<open>is_epilogue\<close> accepts a set exactly when it pops the registers the prologue pushes, in the
  reverse order.
\<close>

theorem is_epilogue_mirrors:
  assumes "nr_instrs pro = of_nat (length (instrs pro))" "nr_instrs epi = of_nat (length (instrs epi))"
    and "length (instrs pro) < 2 ^ 64" "length (instrs epi) < 2 ^ 64"
  shows "is_epilogue api pro epi \<longleftrightarrow>
    map (dr_dst_reg api) (insns epi) = rev (map (dr_src_reg api) (insns pro))"
  using is_epilogue_iff [OF assms] unfolding mirrors_def .

theorem is_epilogue_mirrors_witness: "is_epilogue one_byte_api demo_prologue demo_epilogue"
  using is_epilogue_mirrors [of demo_prologue demo_epilogue one_byte_api]
  by (simp add: demo_prologue_def demo_epilogue_def one_byte_api_def)

section \<open>Adding a function\<close>

text \<open>
  C8. When \<open>transform_add_function\<close> succeeds, exactly one transformable is appended. Its prologue is
  the first run of pushes in the function, of at least two; its epilogues are, in order, those
  runs of pops in the rest that mirror the prologue, at least one; the code was decoded up to
  exactly the end of the function; the order is the identity. Only its own blocks have become live.
\<close>

theorem add_function_adds:
  assumes "transform_add_function fuel api self rec bytes w = Some (RAVE_SUCCESS, self', w')"
    and "NULL \<notin> live_set w"
  shows "\<exists>tf skip stop cs.
    self' = self\<lparr>transformables := transformables self @ [tf]\<rparr> \<and>
    function_found api (mem w) bytes rec tf skip stop cs \<and>
    owns (set (live w)) (live_set w) (tf_hold tf) w' \<and> mem w' = mem w"
  using add_function_spec [OF assms] by (auto simp: add_post_def)

theorem add_function_adds_witness:
  "\<exists>skip stop cs. function_found one_byte_api (mem (demo_world demo_code)) 0x10000 (demo_record 6)
     demo_tf skip stop cs"
proof -
  obtain t w' where r: "demo_add = Some (RAVE_SUCCESS, t, w')" "transformables t = [demo_tf]"
    using demo_add_result by auto
  have "NULL \<notin> live_set (demo_world demo_code)" by (simp add: live_set_def demo_world_def)
  from add_function_adds [OF r(1) this] r(2) obtain tf skip stop cs where
    "tf = demo_tf" "function_found one_byte_api (mem (demo_world demo_code)) 0x10000 (demo_record 6) tf skip stop cs"
    by (auto simp: demo_transform_def)
  then show ?thesis by blast
qed

text \<open>
  C27. When it fails, the transformer is as it was, and everything allocated on the way has been
  given back, with one exception: the transformable itself can stay live, which no one can free.
\<close>

theorem add_function_rejects:
  assumes "transform_add_function fuel api self rec bytes w = Some (rc, self', w')"
    and "rc \<noteq> RAVE_SUCCESS" "NULL \<notin> live_set w"
  shows "rc \<in> {RAVE_ETRANSFORM, RAVE_ENOMEM} \<and> self' = self \<and> mem w' = mem w \<and>
    (live_set w' = live_set w \<or> (\<exists>tp. tp \<notin> live_set w \<and> live_set w' = insert tp (live_set w)))"
  using add_function_spec [OF assms(1,3)] assms(2) by (auto simp: add_post_def owns_def)

theorem add_function_rejects_witness:
  "\<exists>rc t w'. transform_add_function 4 one_byte_api demo_transform (demo_record 2) 0x10000
      (demo_world [0x90, 0xc3]) = Some (rc, t, w') \<and> t = demo_transform \<and> rc = RAVE_ETRANSFORM"
proof -
  let ?run = "transform_add_function 4 one_byte_api demo_transform (demo_record 2) 0x10000
      (demo_world [0x90, 0xc3])"
  have "map_option fst ?run = Some RAVE_ETRANSFORM" by code_simp
  then obtain t w' where r: "?run = Some (RAVE_ETRANSFORM, t, w')" by auto
  have "NULL \<notin> live_set (demo_world [0x90, 0xc3])" by (simp add: live_set_def demo_world_def)
  from add_function_rejects [OF r _ this] r show ?thesis by auto
qed

text \<open>
  C40. The exception happens: whenever the very first scan fails, the function returns at once, and
  the transformable it has just created stays live.
\<close>

theorem add_function_leaks:
  assumes "transformable_create w = (tp, w1)" "tp \<noteq> NULL" "NULL \<notin> live_set w"
    and "pro = prologue (transformable_init tp rec)"
    and "next_set fuel api bytes (OFFSET bytes (flen rec)) (faddr rec) (set_ptr pro) (Some pro)
      (Some (test_instr_prologue api)) w1 = Some ((rc, walk, og, r), w2)"
    and "rc \<noteq> RAVE_SUCCESS"
  shows "transform_add_function fuel api self rec bytes w = Some (rc, self, w2) \<and>
    tp \<notin> live_set w \<and> live_set w2 = insert tp (live_set w)"
proof -
  have own: "owns (set (live w)) (live_set w) [tp] w1"
    using owns_malloc [OF owns_self [OF assms(3)] assms(1) [unfolded transformable_create_def] assms(2)] .
  then have own': "owns (set (live w)) (live_set w \<union> {tp}) [] w1" "tp \<notin> live_set w"
    using owns_append [of "set (live w)" "live_set w" "[]" "[tp]" w1] by auto
  have "set_ptr pro \<noteq> NULL"
    using transformable_create_ptr [OF assms(1,2)] by (simp add: assms(4) transformable_init_def fresh_instr_set_def)
  from next_set_spec [OF assms(5) this own'(1)] assms(6) have "live_set w2 = insert tp (live_set w)"
    by (auto simp: owns_def)
  with assms(1,2,4-6) own'(2) show ?thesis unfolding transform_add_function_def Let_def by simp
qed

theorem add_function_leaks_witness:
  "\<exists>t w'. transform_add_function 4 one_byte_api demo_transform (demo_record 2) 0x10000
      (demo_world [0x53, 0x00]) = Some (RAVE_ETRANSFORM, t, w') \<and>
    live_set w' = {0x100000, 0x10000}"
proof -
  let ?w = "demo_world [0x53, 0x00]" and ?rec = "demo_record 2"
  let ?set = "prologue (transformable_init 0x100000 ?rec) :: byte instr_set"
  define w1 where "w1 = ?w\<lparr>nalloc := 1, live := [(0x100000, 104), (0x10000, 4096)]\<rparr>"
  have c: "transformable_create ?w = (0x100000, w1)"
    by (simp add: transformable_create_def rave_malloc_def demo_world_def fresh_block_def sizeof_transformable_def w1_def)
  have L: "live_set ?w = {0x10000}" by (simp add: live_set_def demo_world_def)
  have "map_option (fst \<circ> fst) (next_set 4 one_byte_api 0x10000 (OFFSET 0x10000 (flen ?rec)) (faddr ?rec)
      (set_ptr ?set) (Some ?set) (Some (test_instr_prologue one_byte_api)) w1) = Some RAVE_ETRANSFORM"
    unfolding w1_def by code_simp
  then obtain walk og r w2 where n: "next_set 4 one_byte_api 0x10000 (OFFSET 0x10000 (flen ?rec)) (faddr ?rec)
      (set_ptr ?set) (Some ?set) (Some (test_instr_prologue one_byte_api)) w1 = Some ((RAVE_ETRANSFORM, walk, og, r), w2)"
    by auto
  from add_function_leaks [OF c _ _ refl n, of demo_transform] L show ?thesis by auto
qed

text \<open>
  C26. \<open>transform_add_function\<close> always returns, when memory does not run out: with a decoder that
  advances, fuel for one more than the bytes of the function is enough, and the status is
  \<open>RAVE_SUCCESS\<close> or \<open>RAVE_ETRANSFORM\<close>.
\<close>

theorem add_function_returns:
  assumes "dr_advances api" "unat (flen rec) < fuel" "func_bounds rec bytes" "plenty api rec w"
    and "NULL \<notin> live_set w"
  shows "\<exists>rc self' w'. transform_add_function fuel api self rec bytes w = Some (rc, self', w') \<and>
    rc \<in> {RAVE_SUCCESS, RAVE_ETRANSFORM}"
  using assms by (rule add_function_returns_all)

lemma demo_plenty: "plenty one_byte_api (demo_record 6) (demo_world code)"
proof -
  have p: "unat (alloc (demo_world code) i) = 0x100000 + 0x100 * i" if "i < 22" for i
    using that unat_of_nat64 [of "0x100000 + 0x100 * i"] by (simp add: demo_world_def)
  have "has_supply (demo_world code) 22 112"
    unfolding has_supply_def Let_def
  proof (intro allI impI)
    fix i :: nat
    assume i: "i < 22"
    have a: "unat (alloc (demo_world code) (nalloc (demo_world code) + k)) = 0x100000 + 0x100 * k"
      if "k \<le> i" for k
      using p [of k] that i by (simp add: demo_world_def)
    have "beside q 112 0x10000 4096" if "unat q = 0x100000 + 0x100 * i" for q :: ptr
      using that by (auto simp: beside_def)
    moreover have "beside q 112 r 112"
      if "unat q = 0x100000 + 0x100 * i" "unat r = 0x100000 + 0x100 * j" "j < i" for q r :: ptr and j
      using that by (auto simp: beside_def)
    moreover have "alloc (demo_world code) (nalloc (demo_world code) + i) \<noteq> NULL"
      using a [of i] by (metis add_is_0 le_refl unat_0 zero_neq_numeral)
    ultimately show "alloc (demo_world code) (nalloc (demo_world code) + i) \<noteq> NULL \<and>
        unat (alloc (demo_world code) (nalloc (demo_world code) + i)) + 112 < 2 ^ 64 \<and>
        (\<forall>(b, s) \<in> set (live (demo_world code)).
          beside (alloc (demo_world code) (nalloc (demo_world code) + i)) 112 b s) \<and>
        (\<forall>j < i. beside (alloc (demo_world code) (nalloc (demo_world code) + i)) 112
          (alloc (demo_world code) (nalloc (demo_world code) + j)) 112)"
      using a i by (simp add: demo_world_def)
  qed
  then show ?thesis
    unfolding plenty_def
    by (intro exI [of _ 112])
      (simp add: one_byte_api_def sizeof_transformable_def demo_record_def)
qed

theorem add_function_returns_witness:
  "\<exists>rc t w'. transform_add_function 7 one_byte_api demo_transform (demo_record 6) 0x10000
     (demo_world [0x53, 0x57, 0x5f, 0x5b, 0x00, 0x00]) = Some (rc, t, w')"
proof -
  have n: "NULL \<notin> live_set (demo_world c)" for c by (simp add: live_set_def demo_world_def)
  have b: "unat (flen (demo_record 6)) < 7" "func_bounds (demo_record 6) 0x10000"
    by (simp_all add: demo_record_def func_bounds_def)
  show ?thesis
    using add_function_returns [OF one_byte_advances b demo_plenty n] by blast
qed

text \<open>
  C18. The transformable that is added is well-formed: it has a slot table of its prologue's size,
  every set's end is its start plus the length of its instructions, every epilogue mirrors the
  prologue, and the sets follow each other.
\<close>

theorem added_function_well_formed:
  assumes "transform_add_function fuel api self rec bytes w = Some (RAVE_SUCCESS, self', w')"
    and "NULL \<notin> live_set w" "dr_advances api" "func_bounds rec bytes"
  shows "\<exists>tf. self' = self\<lparr>transformables := transformables self @ [tf]\<rparr> \<and>
    tf_record tf = rec \<and> tf_wf api tf \<and> tf_sorted tf"
proof -
  obtain tf skip stop cs where tf: "self' = self\<lparr>transformables := transformables self @ [tf]\<rparr>"
    "function_found api (mem w) bytes rec tf skip stop cs"
    using add_function_spec [OF assms(1,2)] by (auto simp: add_post_def)
  with function_found_wf [OF assms(3) tf(2) assms(4)] show ?thesis
    by (auto simp: function_found_def)
qed

theorem added_function_well_formed_witness: "tf_wf one_byte_api demo_tf \<and> tf_sorted demo_tf"
proof -
  obtain t w' where r: "demo_add = Some (RAVE_SUCCESS, t, w')" "transformables t = [demo_tf]"
    using demo_add_result by auto
  have "NULL \<notin> live_set (demo_world demo_code)" by (simp add: live_set_def demo_world_def)
  from added_function_well_formed [OF r(1) this one_byte_advances] r(2) show ?thesis
    by (auto simp: demo_transform_def func_bounds_def demo_record_def)
qed

text \<open>
  C28. What is recorded when a function is added. Its code holds a prologue and then the candidates
  \<open>cs\<close>, runs of pops, one after another, of which the accepted ones are kept. The address recorded
  for a candidate is not its address: it is ahead of it by the total size of all earlier
  candidates, accepted or not. Only the first one is recorded where it is.
\<close>

theorem candidate_addresses_drift:
  assumes "transform_add_function fuel api self rec bytes w = Some (RAVE_SUCCESS, self', w')"
    and "NULL \<notin> live_set w" "dr_advances api" "func_bounds rec bytes"
  shows "\<exists>tf skip stop cs. self' = self\<lparr>transformables := transformables self @ [tf]\<rparr> \<and>
    code_holds api (mem w) bytes rec tf skip stop cs \<and>
    unat (set_start (prologue tf)) = unat (faddr rec) + isize api skip \<and>
    (\<forall>k < length cs.
      let off = cand_offset api (isize api (skip @ insns (prologue tf) @ stop)) cs k
      in unat (set_start (cand_set (cs ! k))) = unat (faddr rec) + off + cand_drift api cs k \<and>
         off + isize api (insns (cand_set (cs ! k))) \<le> unat (flen rec))"
proof -
  obtain tf skip stop cs where tf: "self' = self\<lparr>transformables := transformables self @ [tf]\<rparr>"
    "function_found api (mem w) bytes rec tf skip stop cs"
    using add_function_spec [OF assms(1,2)] by (auto simp: add_post_def)
  note l = function_found_layout [OF assms(3) tf(2) assms(4)]
  from l(1) layout_nth [OF l(2)] tf(1) function_found_code [OF assms(3) tf(2)] show ?thesis
    by (intro exI [of _ tf] exI [of _ skip] exI [of _ stop] exI [of _ cs]) (simp add: Let_def add.assoc)
qed

lemma twice_add:
  "\<exists>t w'. transform_add_function 12 one_byte_api demo_transform (demo_record 11) 0x10000 (demo_world twice_code) =
     Some (RAVE_SUCCESS, t, w') \<and> transformables t = [twice_tf]"
  using twice_add_result by auto

lemma twice_laws: "NULL \<notin> live_set (demo_world twice_code)" "func_bounds (demo_record 11) 0x10000"
  by (simp_all add: live_set_def demo_world_def func_bounds_def demo_record_def)

theorem candidate_addresses_drift_witness:
  "\<exists>skip stop cs. code_holds one_byte_api (mem (demo_world twice_code)) 0x10000 (demo_record 11) twice_tf
     skip stop cs \<and> unat (set_start (cand_set (cs ! 1))) = 0x401000 + 6 + 2"
proof -
  obtain t w' where r: "transform_add_function 12 one_byte_api demo_transform (demo_record 11) 0x10000
      (demo_world twice_code) = Some (RAVE_SUCCESS, t, w')" "transformables t = [twice_tf]"
    using twice_add by blast
  from candidate_addresses_drift [OF r(1) twice_laws(1) one_byte_advances twice_laws(2)] obtain skip stop cs where
    c: "code_holds one_byte_api (mem (demo_world twice_code)) 0x10000 (demo_record 11) twice_tf skip stop cs"
    and k: "\<forall>k < length cs.
      let off = cand_offset one_byte_api (isize one_byte_api (skip @ insns (prologue twice_tf) @ stop)) cs k
      in unat (set_start (cand_set (cs ! k))) =
           unat (faddr (demo_record 11)) + off + cand_drift one_byte_api cs k \<and>
         off + isize one_byte_api (insns (cand_set (cs ! k))) \<le> unat (flen (demo_record 11))"
    using r(2) by (auto simp: demo_transform_def)
  obtain e0 e1 rest where cs: "skip = []" "stop = [0x90]" "cs = ([], e0, [0xc3]) # ([], e1, [0xc3]) # rest"
    "insns e0 = [0x5f, 0x5b]" "insns e1 = [0x5f, 0x5b]"
    by (rule twice_candidates [OF c])
  have "insns (prologue twice_tf) = [0x53, 0x57]" by (simp add: twice_tf_def demo_prologue_def)
  with k [rule_format, of 1] cs have "unat (set_start (cand_set (cs ! 1))) = 0x401000 + 6 + 2"
    by (simp add: cand_offset_def cand_drift_def cand_set_def demo_record_def ilen_def one_byte_api_def Let_def)
  with c show ?thesis by blast
qed



text \<open>
  The two operations on a concrete function, \<open>push rbx; push rdi; nop; pop rdi; pop rbx; ret; pop rdi;
  pop rbx; ret\<close> at \<open>0x401000\<close>: the second epilogue, at \<open>0x401006\<close>, is recorded at \<open>0x401008\<close>, and the
  permutation overwrites the last \<open>ret\<close> and the byte after the function.
\<close>

definition drift_code :: "byte list" where
  "drift_code = [0x53, 0x57, 0x90, 0x5f, 0x5b, 0xc3, 0x5f, 0x5b, 0xc3]"

definition drift_run :: "(rave_errno \<times> byte list \<times> uintptr list) option" where
  "drift_run =
     do { (rc, t, w) \<leftarrow> transform_add_function 10 one_byte_api demo_transform (demo_record 9) 0x10000
            (demo_world drift_code);
          (rc2, t2, w2) \<leftarrow> transform_permute_all one_byte_api (Some t)
            (Some \<lparr>orig = 0x401000, data = 0x10000, wlength = 16\<rparr>) w;
          Some (rc2, mem_get (mem w2) 0x10000 10,
            concat (map (map set_start \<circ> epilogues) (transformables t))) }"

lemma drift_run_result:
  "drift_run =
     Some (RAVE_SUCCESS, [0x57, 0x53, 0x90, 0x5b, 0x5f, 0xc3, 0x5f, 0x5b, 0x5b, 0x5f],
       [0x401003, 0x401008])"
  by code_simp

text \<open>
  C19. For a function with a single candidate set the two operations compose as intended: the
  permutation of what was found in its code succeeds, keeps every byte outside the two sets, and
  the new prologue and epilogue restore the registers.
\<close>

theorem single_epilogue_end_to_end:
  assumes "dr_advances api" "function_found api m bytes rec tf skip stop [c]" "func_bounds rec bytes"
    and "bytes \<noteq> NULL" "block_ok (live w) bytes (unat (flen rec))"
    and "dr_keeps_length api (tf_insns tf)" "dr_roundtrip api (tf_insns tf)" "e \<in> set (epilogues tf)"
  shows "\<exists>tf' w'. permute api tf (local_window rec bytes) w = Some (RAVE_SUCCESS, tf', w') \<and>
    restores_regs api (local_window rec bytes) (mem w') tf e \<and>
    (\<forall>a. (\<forall>s \<in> set (tf_sets tf). isize api (insns s) \<le> unat (a - set_at (local_window rec bytes) s)) \<longrightarrow>
      mem w' a = mem w a)"
proof -
  let ?fw = "local_window rec bytes"
  note wf = function_found_wf [OF assms(1-3)]
  have "window_ok ?fw"
    using assms(3,4) by (simp add: window_ok_def local_window_def func_bounds_def)
  then have pl: "tf_placed api ?fw tf w"
    using single_candidate_within [OF assms(1-3)] assms(5)
    by (simp add: tf_placed_def) (simp add: local_window_def)
  obtain t k where t: "slot_table (tf_slots tf) t"
    "permute api tf ?fw w = Some (RAVE_SUCCESS, permuted_tf tf t,
        w\<lparr>mem := permuted_mem api ?fw (slots t) tf (mem w), nrand := k,
          faults := faults w @ one_past_reads tf\<rparr>)"
    using permute_eq [OF wf(1) pl assms(6)] by blast
  have p: "slot_perm (tf_slots tf) (slots t)"
    using slot_table_perm [OF t(1) tf_wfD(2) [OF wf(1)]] .
  show ?thesis
    using t(2) permuted_restores [OF wf(1) pl assms(6,7) wf(2) p assms(8)]
      permuted_mem_outside [OF wf(1) assms(6) p] by simp
qed

theorem single_epilogue_end_to_end_witness:
  "\<exists>tf' w'. permute one_byte_api demo_tf (local_window (demo_record 6) 0x10000) (demo_world demo_code) =
     Some (RAVE_SUCCESS, tf', w') \<and>
     restores_regs one_byte_api (local_window (demo_record 6) 0x10000) (mem w') demo_tf demo_epilogue"
proof -
  have "func_bounds (demo_record 6) 0x10000" by (simp add: func_bounds_def demo_record_def)
  moreover have "block_ok (live (demo_world demo_code)) 0x10000 (unat (flen (demo_record 6)))"
    by (simp add: block_ok_def demo_world_def demo_record_def)
  moreover have "demo_epilogue \<in> set (epilogues demo_tf)" by (simp add: demo_tf_def)
  ultimately show ?thesis
    using single_epilogue_end_to_end [OF one_byte_advances demo_found _ _ _ one_byte_keeps
        one_byte_roundtrip [OF demo_insns]] by fastforce
qed

section \<open>Closing\<close>

text \<open>
  C39. \<open>instr_set_close\<close> gives back every instruction of the set, but reads each one after it has
  been released, to follow its link.
\<close>

theorem instr_set_close_reads_freed:
  assumes "owns B L (map fst (instrs s)) w" "self \<noteq> NULL"
  shows "\<exists>w'. instr_set_close self (Some s) w = Some (Some (s\<lparr>instrs := []\<rparr>), w') \<and>
    live_set w' = L \<and> faults w' = faults w @ map Use_After_Free (map fst (instrs s))"
proof -
  have "chain_reads (instrs s) = map Use_After_Free (map fst (instrs s))"
    by (simp add: chain_reads_def case_prod_beta)
  with close_chain_owned [of B L "instrs s" "[]" w] assms show ?thesis
    by (auto simp: instr_set_close_def owns_def)
qed

theorem instr_set_close_reads_freed_witness:
  "\<exists>w'. instr_set_close 0x100020 (Some (demo_prologue\<lparr>instrs := [(0x10000, 0x53)]\<rparr>)) (demo_world []) =
     Some (Some (demo_prologue\<lparr>instrs := []\<rparr>), w') \<and> faults w' = [Use_After_Free 0x10000]"
proof -
  have "owns {} {} (map fst (instrs (demo_prologue\<lparr>instrs := [(0x10000, 0x53)]\<rparr>))) (demo_world [])"
    by (simp add: owns_def live_set_def demo_world_def)
  from instr_set_close_reads_freed [OF this, of "0x100020"] show ?thesis
    by (auto simp: demo_world_def)
qed

text \<open>
  \<open>transform_close\<close> gives back every instruction, set and order table of every function, and
  nothing else: the transformables themselves stay live after it.
\<close>

theorem transform_close_leaks_transformables:
  assumes "owns B L (concat (map tf_hold (transformables t))) w"
  shows "\<exists>w'. transform_close (Some t) w = Some (RAVE_SUCCESS, Some (t\<lparr>transformables := []\<rparr>), w') \<and>
    live_set w' = L \<union> tf_ptr ` set (transformables t) \<and> mem w' = mem w"
  using close_transformables_owned [of B L "transformables t" "[]" w] assms
  by (auto simp: transform_close_def owns_def)

theorem transform_close_leaks_transformables_witness:
  "\<exists>t w1 w'. demo_add = Some (RAVE_SUCCESS, t, w1) \<and>
     transform_close (Some t) w1 = Some (RAVE_SUCCESS, Some (t\<lparr>transformables := []\<rparr>), w') \<and>
     live_set w' = {0x10000, 0x100000}"
proof -
  obtain t w1 where r: "demo_add = Some (RAVE_SUCCESS, t, w1)" "transformables t = [demo_tf]"
    using demo_add_result by auto
  have L: "live_set (demo_world demo_code) = {0x10000}" by (simp add: live_set_def demo_world_def)
  have "owns (set (live (demo_world demo_code))) {0x10000} (concat (map tf_hold (transformables t))) w1"
    using add_function_spec [OF r(1)] r(2) L by (auto simp: add_post_def demo_transform_def)
  from transform_close_leaks_transformables [OF this] r show ?thesis
    by (auto simp: demo_tf_def)
qed

end
