(* ===== verification/Binary.thy ===== *)
theory Binary
  imports Errno Util World
begin

text \<open>
  The loaded binary of \<open>src/src/binary.c\<close>, \<open>section.c\<close> and \<open>segment.c\<close>. libelf and the
  operating system are not under \<open>src/\<close>: the records \<open>elf_api\<close> and \<open>os_api\<close> hold the calls the
  code makes, with \<open>None\<close> or \<open>NULL\<close> for a failing one. What libelf answers about a handle does
  not change while the file is mapped. The headers and the constants are those of the ELF
  specification, without \<open>e_ident\<close>, which the code copies but never reads.

  An output parameter that may or may not be written is part of the result. A binary's header
  is \<open>None\<close> until \<open>gelf_getehdr\<close> has filled it.
\<close>

type_synonym half = "16 word"
type_synonym elf_word = "32 word"

record elf_ehdr =
  e_type :: half
  e_machine :: half
  e_version :: elf_word
  e_entry :: "64 word"
  e_phoff :: "64 word"
  e_shoff :: "64 word"
  e_flags :: elf_word
  e_ehsize :: half
  e_phentsize :: half
  e_phnum :: half
  e_shentsize :: half
  e_shnum :: half
  e_shstrndx :: half

record elf_shdr =
  sh_name :: elf_word
  sh_type :: elf_word
  sh_flags :: "64 word"
  sh_addr :: "64 word"
  sh_offset :: "64 word"
  sh_size :: "64 word"
  sh_link :: elf_word
  sh_info :: elf_word
  sh_addralign :: "64 word"
  sh_entsize :: "64 word"

record elf_phdr =
  p_type :: elf_word
  p_flags :: elf_word
  p_offset :: "64 word"
  p_vaddr :: "64 word"
  p_paddr :: "64 word"
  p_filesz :: "64 word"
  p_memsz :: "64 word"
  p_align :: "64 word"

record elf_api =
  elf_version_ok :: bool
  elf_memory :: "ptr \<Rightarrow> size_t \<Rightarrow> ptr"
  elf_kind :: "ptr \<Rightarrow> int"
  gelf_getclass :: "ptr \<Rightarrow> int"
  gelf_getehdr :: "ptr \<Rightarrow> elf_ehdr option"
  elf_nextscn :: "ptr \<Rightarrow> ptr \<Rightarrow> ptr"
  gelf_getshdr :: "ptr \<Rightarrow> elf_shdr option"
  elf_strptr :: "ptr \<Rightarrow> half \<Rightarrow> elf_word \<Rightarrow> string option"
  elf_getdata :: "ptr \<Rightarrow> ptr"
  gelf_getphdr :: "ptr \<Rightarrow> c_int \<Rightarrow> elf_phdr option"

record os_api =
  os_open :: "string \<Rightarrow> c_int"
  os_fstat :: "c_int \<Rightarrow> 64 word option"
  os_mmap :: "size_t \<Rightarrow> c_int \<Rightarrow> world \<Rightarrow> ptr \<times> world"
  os_close :: "c_int \<Rightarrow> c_int"
  os_munmap :: "ptr \<Rightarrow> size_t \<Rightarrow> world \<Rightarrow> c_int \<times> world"

definition ELF_K_ELF :: int where "ELF_K_ELF = 3"
definition ELFCLASS64 :: int where "ELFCLASS64 = 2"
definition ET_EXEC :: half where "ET_EXEC = 2"
definition ET_DYN :: half where "ET_DYN = 3"
definition EM_X86_64 :: half where "EM_X86_64 = 62"
definition PT_LOAD :: elf_word where "PT_LOAD = 1"

section \<open>Sections\<close>

record elf_section =
  sec_elf :: ptr
  sec_header :: elf_shdr
  sec_data :: ptr
  sec_name :: string

definition section_init ::
  "elf_api \<Rightarrow> ptr \<Rightarrow> elf_shdr \<Rightarrow> string \<Rightarrow> ptr \<Rightarrow> rave_errno \<times> elf_section" where
  "section_init api elf header name scn =
     (let self = \<lparr>sec_elf = elf, sec_header = header, sec_data = elf_getdata api scn, sec_name = name\<rparr>
      in if sec_data self = NULL then (RAVE_ESECTION_DATA, self) else (RAVE_SUCCESS, self))"

text \<open>The address is returned as an \<open>int\<close>, although the header's field has 64 bits.\<close>

definition section_address :: "elf_section \<Rightarrow> c_int" where
  "section_address self = size_to_int (sh_addr (sec_header self))"

definition section_offset :: "elf_section \<Rightarrow> size_t" where
  "section_offset self = sh_offset (sec_header self)"

definition section_size :: "elf_section \<Rightarrow> size_t" where
  "section_size self = sh_size (sec_header self)"

section \<open>Segments\<close>

record elf_segment =
  seg_elf :: ptr
  seg_header :: elf_phdr

definition segment_init :: "ptr \<Rightarrow> elf_phdr \<Rightarrow> rave_errno \<times> elf_segment" where
  "segment_init elf header = (RAVE_SUCCESS, \<lparr>seg_elf = elf, seg_header = header\<rparr>)"

definition segment_vaddr :: "elf_segment \<Rightarrow> uintptr" where
  "segment_vaddr self = p_vaddr (seg_header self)"

definition segment_offset :: "elf_segment \<Rightarrow> size_t" where
  "segment_offset self = p_offset (seg_header self)"

definition segment_filesz :: "elf_segment \<Rightarrow> size_t" where
  "segment_filesz self = p_filesz (seg_header self)"

definition segment_memsz :: "elf_segment \<Rightarrow> size_t" where
  "segment_memsz self = p_memsz (seg_header self)"

definition segment_loadable :: "elf_segment \<Rightarrow> bool" where
  "segment_loadable self \<longleftrightarrow> p_type (seg_header self) AND PT_LOAD \<noteq> 0"

definition segment_contains :: "elf_segment \<Rightarrow> uintptr \<Rightarrow> bool" where
  "segment_contains self address \<longleftrightarrow>
     p_vaddr (seg_header self) \<le> address \<and>
     address < p_vaddr (seg_header self) + p_memsz (seg_header self)"

section \<open>The binary\<close>

record binary =
  bin_elf :: ptr
  bin_header :: "elf_ehdr option"
  bin_mapping :: ptr
  file_size :: c_int

definition check_arch :: "half \<Rightarrow> bool" where
  "check_arch arch \<longleftrightarrow> arch = EM_X86_64"

definition init_libelf :: "elf_api \<Rightarrow> world \<Rightarrow> rave_errno \<times> world" where
  "init_libelf api w =
     (if \<not> libelf_initialized w then
        let w1 = w\<lparr>libelf_initialized := True\<rparr>
        in if \<not> elf_version_ok api then (RAVE_EELF_INIT, w1) else (RAVE_SUCCESS, w1)
      else (RAVE_SUCCESS, w))"

definition map_file :: "os_api \<Rightarrow> binary \<Rightarrow> string \<Rightarrow> world \<Rightarrow> rave_errno \<times> binary \<times> world" where
  "map_file os self filename w =
     (let fd = os_open os filename
      in if fd = - 1 then (RAVE_EFILE_OPEN, self, w)
      else
        case os_fstat os fd of
          None \<Rightarrow> (RAVE_EFILE_STAT, self, w)
        | Some st_size \<Rightarrow>
            let self1 = self\<lparr>file_size := size_to_int st_size\<rparr>;
                (p, w1) = os_mmap os (int_to_size (file_size self1)) fd w;
                self2 = self1\<lparr>bin_mapping := p\<rparr>
            in if bin_mapping self2 = NULL then (RAVE_EMAPPING, self2, w1)
            else if os_close os fd = - 1 then (RAVE_EFILE_CLOSE, self2, w1)
            else (RAVE_SUCCESS, self2, w1))"

definition binary_init ::
  "os_api \<Rightarrow> elf_api \<Rightarrow> elf_ehdr option \<Rightarrow> string \<Rightarrow> world \<Rightarrow> rave_errno \<times> binary \<times> world" where
  "binary_init os api old_header filename w =
     (let self = \<lparr>bin_elf = NULL, bin_header = old_header, bin_mapping = NULL, file_size = 0\<rparr>;
          (rc, w1) = init_libelf api w
      in if errno_code rc \<noteq> 0 then (rc, self, w1)
      else
        let (rc2, self2, w2) = map_file os self filename w1
        in if errno_code rc2 \<noteq> 0 then (rc2, self2, w2)
        else
          let e = elf_memory api (bin_mapping self2) (int_to_size (file_size self2));
              self3 = self2\<lparr>bin_elf := e\<rparr>
          in if e = NULL then (RAVE_EELF_MEMORY, self3, w2)
          else if elf_kind api e \<noteq> ELF_K_ELF \<and> gelf_getclass api e \<noteq> ELFCLASS64
          then (RAVE_EELF_NOT_SUPPORTED, self3, w2)
          else
            case gelf_getehdr api e of
              None \<Rightarrow> (RAVE_EELF_HEADER, self3, w2)
            | Some h \<Rightarrow>
                let self4 = self3\<lparr>bin_header := Some h\<rparr>
                in if e_type h \<noteq> ET_EXEC \<and> e_type h \<noteq> ET_DYN
                then (RAVE_EELF_NOT_SUPPORTED, self4, w2)
                else if \<not> check_arch (e_machine h) then (RAVE_EELF_NOT_SUPPORTED, self4, w2)
                else (RAVE_SUCCESS, self4, w2))"

definition binary_close :: "os_api \<Rightarrow> binary option \<Rightarrow> world \<Rightarrow> rave_errno \<times> binary option \<times> world" where
  "binary_close os self w =
     (case self of
        None \<Rightarrow> (RAVE_SUCCESS, None, w)
      | Some b \<Rightarrow>
          let b1 = (if bin_elf b \<noteq> NULL then b\<lparr>bin_elf := NULL\<rparr> else b)
          in if bin_mapping b1 \<noteq> NULL then
            let (rc, w1) = os_munmap os (bin_mapping b1) (int_to_size (file_size b1)) w
            in if rc \<noteq> 0 then (RAVE_SUCCESS, Some b1, w1)
            else (RAVE_SUCCESS, Some (b1\<lparr>bin_mapping := NULL\<rparr>), w1)
          else (RAVE_SUCCESS, Some b1, w))"

text \<open>\<open>strncmp(target, iter, strlen(target)) == 0\<close>.\<close>

definition name_matches :: "string \<Rightarrow> string \<Rightarrow> bool" where
  "name_matches target iter \<longleftrightarrow> take (length target) iter = target"

text \<open>
  The loops over the section and the program headers. The first follows libelf's chain of
  sections and may not end for an arbitrary \<open>elf_nextscn\<close>; the result is \<open>None\<close> then, and when an
  uninitialised header is read.
\<close>

partial_function (option) find_section_loop ::
  "elf_api \<Rightarrow> ptr \<Rightarrow> half \<Rightarrow> string \<Rightarrow> ptr \<Rightarrow> (rave_errno \<times> elf_section option) option" where
  "find_section_loop api elf shstrndx target scn =
     (let scn1 = elf_nextscn api elf scn
      in if scn1 \<noteq> NULL then
        case gelf_getshdr api scn1 of
          None \<Rightarrow> Some (RAVE_ESECTION_HEADER, None)
        | Some shdr \<Rightarrow>
            (case elf_strptr api elf shstrndx (sh_name shdr) of
               None \<Rightarrow> find_section_loop api elf shstrndx target scn1
             | Some iter \<Rightarrow>
                 if name_matches target iter then
                   let (rc, s) = section_init api elf shdr iter scn1 in Some (rc, Some s)
                 else find_section_loop api elf shstrndx target scn1)
      else Some (RAVE_ENO_SECTION, None))"

declare find_section_loop.simps [code]

definition binary_find_section ::
  "elf_api \<Rightarrow> binary \<Rightarrow> string \<Rightarrow> (rave_errno \<times> elf_section option) option" where
  "binary_find_section api self target =
     (case bin_header self of
        None \<Rightarrow> None
      | Some h \<Rightarrow> find_section_loop api (bin_elf self) (e_shstrndx h) target NULL)"

function find_segment_loop ::
  "elf_api \<Rightarrow> ptr \<Rightarrow> half \<Rightarrow> uintptr \<Rightarrow> nat \<Rightarrow> elf_segment option \<Rightarrow> rave_errno \<times> elf_segment option" where
  "find_segment_loop api elf phnum address i out =
     (if i < unat phnum then
        case gelf_getphdr api elf (of_nat i) of
          None \<Rightarrow> (RAVE_EPROGRAM_HEADER, out)
        | Some phdr \<Rightarrow>
            let (rc, s) = segment_init elf phdr
            in if rc \<noteq> RAVE_SUCCESS then find_segment_loop api elf phnum address (Suc i) (Some s)
            else if segment_contains s address then (RAVE_SUCCESS, Some s)
            else find_segment_loop api elf phnum address (Suc i) (Some s)
      else (RAVE_ENO_SEGMENT, out))"
  by pat_completeness auto
termination by (relation "measure (\<lambda>(api, elf, phnum, address, i, out). unat phnum - i)") auto

declare find_segment_loop.simps [simp del]

definition binary_find_segment ::
  "elf_api \<Rightarrow> binary \<Rightarrow> uintptr \<Rightarrow> (rave_errno \<times> elf_segment option) option" where
  "binary_find_segment api self address =
     (case bin_header self of
        None \<Rightarrow> None
      | Some h \<Rightarrow> Some (find_segment_loop api (bin_elf self) (e_phnum h) address 0 None))"

section \<open>What the searches find\<close>

text \<open>The sections libelf's chain goes through.\<close>

fun scn_chain :: "elf_api \<Rightarrow> ptr \<Rightarrow> ptr \<Rightarrow> ptr list \<Rightarrow> bool" where
  "scn_chain api elf scn [] \<longleftrightarrow> elf_nextscn api elf scn = NULL"
| "scn_chain api elf scn (s # ss) \<longleftrightarrow>
     s \<noteq> NULL \<and> elf_nextscn api elf scn = s \<and> scn_chain api elf s ss"

text \<open>The name of a section, when its header and its name can be read.\<close>

definition scn_name :: "elf_api \<Rightarrow> ptr \<Rightarrow> half \<Rightarrow> ptr \<Rightarrow> string option" where
  "scn_name api elf shstrndx scn =
     (case gelf_getshdr api scn of
        None \<Rightarrow> None
      | Some shdr \<Rightarrow> elf_strptr api elf shstrndx (sh_name shdr))"

definition scn_matches :: "elf_api \<Rightarrow> ptr \<Rightarrow> half \<Rightarrow> string \<Rightarrow> ptr \<Rightarrow> bool" where
  "scn_matches api elf shstrndx target scn \<longleftrightarrow>
     (case scn_name api elf shstrndx scn of None \<Rightarrow> False | Some n \<Rightarrow> name_matches target n)"

text \<open>What the search returns for the section that ends it.\<close>

definition search_result ::
  "elf_api \<Rightarrow> ptr \<Rightarrow> half \<Rightarrow> ptr option \<Rightarrow> rave_errno \<times> elf_section option" where
  "search_result api elf shstrndx hit =
     (case hit of
        None \<Rightarrow> (RAVE_ENO_SECTION, None)
      | Some scn \<Rightarrow>
          (case gelf_getshdr api scn of
             None \<Rightarrow> (RAVE_ESECTION_HEADER, None)
           | Some shdr \<Rightarrow>
               map_prod id Some
                 (section_init api elf shdr (the (elf_strptr api elf shstrndx (sh_name shdr))) scn)))"

text \<open>The search ends at the first section that matches or whose header cannot be read.\<close>

lemma find_section_loop_eq:
  assumes "scn_chain api elf scn ss"
  shows "find_section_loop api elf shstrndx target scn =
    Some (search_result api elf shstrndx
      (find (\<lambda>s. gelf_getshdr api s = None \<or> scn_matches api elf shstrndx target s) ss))"
  using assms
proof (induction ss arbitrary: scn)
  case Nil
  then show ?case by (subst find_section_loop.simps) (simp add: search_result_def)
next
  case (Cons s ss)
  then show ?case
    by (subst find_section_loop.simps)
      (auto simp: search_result_def scn_matches_def scn_name_def Let_def split: option.splits prod.splits)
qed

lemma find_eq_Some_split:
  "find P xs = Some x \<longleftrightarrow> (\<exists>pre post. xs = pre @ x # post \<and> (\<forall>y \<in> set pre. \<not> P y) \<and> P x)"
proof
  show "find P xs = Some x \<Longrightarrow> \<exists>pre post. xs = pre @ x # post \<and> (\<forall>y \<in> set pre. \<not> P y) \<and> P x"
  proof (induction xs)
    case (Cons a xs)
    then show ?case
      by (cases "P a") (force intro: exI [of _ "[]"], fastforce intro: exI [of _ "a # _"])
  qed simp
next
  assume "\<exists>pre post. xs = pre @ x # post \<and> (\<forall>y \<in> set pre. \<not> P y) \<and> P x"
  then obtain pre post where "xs = pre @ x # post" "\<forall>y \<in> set pre. \<not> P y" "P x"
    by blast
  then show "find P xs = Some x"
    by (induction pre arbitrary: xs) auto
qed

text \<open>
  A section is passed over when it is readable and does not match. The search succeeds exactly at
  the first section that is not passed over, if that one matches and its data can be read.
\<close>

definition scn_passed :: "elf_api \<Rightarrow> ptr \<Rightarrow> half \<Rightarrow> string \<Rightarrow> ptr \<Rightarrow> bool" where
  "scn_passed api elf shstrndx target s \<longleftrightarrow>
     gelf_getshdr api s \<noteq> None \<and> \<not> scn_matches api elf shstrndx target s"

lemma find_section_loop_hit:
  assumes "scn_chain api elf scn ss"
  shows "find_section_loop api elf shstrndx target scn = Some (RAVE_SUCCESS, Some sec) \<longleftrightarrow>
    (\<exists>pre s post shdr n.
       ss = pre @ s # post \<and> (\<forall>x \<in> set pre. scn_passed api elf shstrndx target x) \<and>
       gelf_getshdr api s = Some shdr \<and> elf_strptr api elf shstrndx (sh_name shdr) = Some n \<and>
       name_matches target n \<and> section_init api elf shdr n s = (RAVE_SUCCESS, sec))"
proof -
  let ?stop = "\<lambda>s. gelf_getshdr api s = None \<or> scn_matches api elf shstrndx target s"
  have "search_result api elf shstrndx (find ?stop ss) = (RAVE_SUCCESS, Some sec) \<longleftrightarrow>
      (\<exists>s shdr n. find ?stop ss = Some s \<and> gelf_getshdr api s = Some shdr \<and>
         elf_strptr api elf shstrndx (sh_name shdr) = Some n \<and> name_matches target n \<and>
         section_init api elf shdr n s = (RAVE_SUCCESS, sec))"
  proof (cases "find ?stop ss")
    case None
    then show ?thesis by (simp add: search_result_def)
  next
    case (Some s)
    then have "?stop s" by (auto simp: find_Some_iff)
    with Some show ?thesis
      by (auto simp: search_result_def scn_matches_def scn_name_def map_prod_def split: option.splits prod.splits)
  qed
  also have "\<dots> \<longleftrightarrow> (\<exists>pre s post shdr n.
       ss = pre @ s # post \<and> (\<forall>x \<in> set pre. \<not> ?stop x) \<and>
       gelf_getshdr api s = Some shdr \<and> elf_strptr api elf shstrndx (sh_name shdr) = Some n \<and>
       name_matches target n \<and> section_init api elf shdr n s = (RAVE_SUCCESS, sec))"
    (is "?a = ?b")
  proof
    show "?a \<Longrightarrow> ?b" unfolding find_eq_Some_split by blast
  next
    assume ?b
    then obtain pre s post shdr n where hit: "ss = pre @ s # post" "\<forall>x \<in> set pre. \<not> ?stop x"
        "gelf_getshdr api s = Some shdr" "elf_strptr api elf shstrndx (sh_name shdr) = Some n"
        "name_matches target n" "section_init api elf shdr n s = (RAVE_SUCCESS, sec)"
      by blast
    then have "?stop s" by (simp add: scn_matches_def scn_name_def)
    with hit show ?a unfolding find_eq_Some_split by blast
  qed
  finally show ?thesis
    unfolding find_section_loop_eq [OF assms] option.inject scn_passed_def de_Morgan_disj .
qed

lemma find_section_loop_none:
  assumes "scn_chain api elf scn ss"
    and "\<forall>x \<in> set ss. scn_passed api elf shstrndx target x"
  shows "find_section_loop api elf shstrndx target scn = Some (RAVE_ENO_SECTION, None)"
proof -
  have "find (\<lambda>s. gelf_getshdr api s = None \<or> scn_matches api elf shstrndx target s) ss = None"
    using assms(2) by (auto simp: find_None_iff scn_passed_def)
  then show ?thesis
    by (simp add: find_section_loop_eq [OF assms(1)] search_result_def)
qed

text \<open>The program header at an index, as the segment it would initialise.\<close>

definition segment_at :: "elf_api \<Rightarrow> ptr \<Rightarrow> nat \<Rightarrow> elf_segment option" where
  "segment_at api elf i = map_option (\<lambda>h. \<lparr>seg_elf = elf, seg_header = h\<rparr>) (gelf_getphdr api elf (of_nat i))"

definition segment_passed :: "elf_api \<Rightarrow> ptr \<Rightarrow> uintptr \<Rightarrow> nat \<Rightarrow> bool" where
  "segment_passed api elf address i \<longleftrightarrow>
     (\<exists>s. segment_at api elf i = Some s \<and> \<not> segment_contains s address)"

lemma find_segment_loop_unfold:
  "find_segment_loop api elf phnum address i out =
     (if i < unat phnum then
        case segment_at api elf i of
          None \<Rightarrow> (RAVE_EPROGRAM_HEADER, out)
        | Some s \<Rightarrow>
            if segment_contains s address then (RAVE_SUCCESS, Some s)
            else find_segment_loop api elf phnum address (Suc i) (Some s)
      else (RAVE_ENO_SEGMENT, out))"
  by (subst find_segment_loop.simps) (simp add: segment_at_def segment_init_def split: option.split)

lemma find_segment_loop_skip:
  assumes "i \<le> k" "k \<le> unat phnum" "\<forall>j. i \<le> j \<and> j < k \<longrightarrow> segment_passed api elf address j"
  shows "\<exists>out'. find_segment_loop api elf phnum address i out = find_segment_loop api elf phnum address k out'"
  using assms
proof (induction "k - i" arbitrary: i out)
  case 0
  then show ?case by auto
next
  case (Suc m)
  then obtain s where "segment_at api elf i = Some s" "\<not> segment_contains s address"
    unfolding segment_passed_def by (metis diff_is_0_eq le_refl nat.simps(3) not_le)
  moreover have "i < k" using Suc by simp
  ultimately have "find_segment_loop api elf phnum address i out =
      find_segment_loop api elf phnum address (Suc i) (Some s)"
    using Suc.prems by (subst find_segment_loop_unfold) simp
  with Suc show ?case by fastforce
qed

lemma find_segment_loop_hit:
  "find_segment_loop api elf phnum address i out = (RAVE_SUCCESS, Some s) \<longleftrightarrow>
     (\<exists>k. i \<le> k \<and> k < unat phnum \<and> segment_at api elf k = Some s \<and> segment_contains s address \<and>
        (\<forall>j. i \<le> j \<and> j < k \<longrightarrow> segment_passed api elf address j))"
  (is "?l \<longleftrightarrow> ?r")
proof
  show "?l \<Longrightarrow> ?r"
  proof (induction api elf phnum address i out rule: find_segment_loop.induct)
    case (1 api elf phnum address i out)
    show ?case
    proof (cases "segment_at api elf i")
      case None
      with 1(3) show ?thesis by (subst (asm) find_segment_loop_unfold) (simp split: if_splits)
    next
      case (Some u)
      show ?thesis
      proof (cases "segment_contains u address")
        case True
        with 1(3) Some show ?thesis
          by (subst (asm) find_segment_loop_unfold) (auto split: if_splits)
      next
        case False
        with 1(3) Some have i: "i < unat phnum"
          and next_step: "find_segment_loop api elf phnum address (Suc i) (Some u) = (RAVE_SUCCESS, Some s)"
          by (auto simp: find_segment_loop_unfold [of _ _ _ _ i] split: if_splits)
        have "\<exists>k. Suc i \<le> k \<and> k < unat phnum \<and> segment_at api elf k = Some s \<and> segment_contains s address \<and>
            (\<forall>j. Suc i \<le> j \<and> j < k \<longrightarrow> segment_passed api elf address j)"
          using 1(2) i Some False next_step
          by (auto simp: segment_at_def segment_init_def)
        moreover have "segment_passed api elf address i"
          using Some False by (simp add: segment_passed_def)
        ultimately show ?thesis
          by (metis Suc_leD Suc_leI le_neq_implies_less)
      qed
    qed
  qed
next
  assume ?r
  then obtain k where k: "i \<le> k" "k < unat phnum" "segment_at api elf k = Some s"
      "segment_contains s address" "\<forall>j. i \<le> j \<and> j < k \<longrightarrow> segment_passed api elf address j"
    by blast
  then obtain out' where "find_segment_loop api elf phnum address i out =
      find_segment_loop api elf phnum address k out'"
    using find_segment_loop_skip [OF k(1) less_imp_le [OF k(2)] k(5)] by blast
  then show ?l
    using k by (subst (asm) (2) find_segment_loop_unfold) simp
qed

end
