(* ===== verification/Metadata_Dwarf.thy ===== *)
theory Metadata_Dwarf
  imports Binary Func
begin

text \<open>
  The metadata reader of \<open>src/src/metadata_dwarf.c\<close>, which walks the DWARF tree and hands every
  function to a callback. libdwarf is not under \<open>src/\<close>: the record \<open>dwarf_api\<close> holds the calls the
  code makes, with the library's status codes; \<open>'d\<close> is the library's own state, which holds the
  unit the iteration has reached. A DIE is named by its address and does not change. What the
  code gives back with \<open>dwarf_dealloc\<close> is logged in \<open>released\<close>; \<open>dwarf_dealloc\<close> of \<open>NULL\<close> does
  nothing.

  The callback takes a function and a state of the caller, and may itself be undefined. A loop
  that does not end is \<open>None\<close> as well.
\<close>

record 'd dwarf_api =
  dwarf_elf_init :: "ptr \<Rightarrow> 'd \<Rightarrow> c_int \<times> ptr \<times> 'd"
  dwarf_next_cu_header :: "ptr \<Rightarrow> 'd \<Rightarrow> c_int \<times> 'd"
  dwarf_siblingof :: "ptr \<Rightarrow> 'd \<Rightarrow> ptr \<Rightarrow> c_int \<times> ptr"
  dwarf_child :: "ptr \<Rightarrow> c_int \<times> ptr"
  dwarf_tag :: "ptr \<Rightarrow> c_int \<times> half"
  dwarf_lowpc :: "ptr \<Rightarrow> c_int \<times> uintptr"
  dwarf_highpc :: "ptr \<Rightarrow> c_int \<times> uintptr \<times> int"
  dwarf_finish :: "ptr \<Rightarrow> 'd \<Rightarrow> c_int \<times> 'd"
  DW_FORM_CLASS_CONSTANT :: int

definition DW_DLV_OK :: c_int where "DW_DLV_OK = 0"
definition DW_DLV_ERROR :: c_int where "DW_DLV_ERROR = 1"
definition DW_DLV_NO_ENTRY :: c_int where "DW_DLV_NO_ENTRY = - 1"
definition DW_TAG_subprogram :: half where "DW_TAG_subprogram = 0x2e"

lemma dlv_distinct [simp]:
  "DW_DLV_OK \<noteq> DW_DLV_ERROR" "DW_DLV_OK \<noteq> DW_DLV_NO_ENTRY" "DW_DLV_ERROR \<noteq> DW_DLV_NO_ENTRY"
  "DW_DLV_ERROR \<noteq> DW_DLV_OK" "DW_DLV_NO_ENTRY \<noteq> DW_DLV_OK" "DW_DLV_NO_ENTRY \<noteq> DW_DLV_ERROR"
  by (simp_all add: DW_DLV_OK_def DW_DLV_ERROR_def DW_DLV_NO_ENTRY_def)

record metadata =
  md_binary :: ptr
  dbg :: ptr

record 'd dwarf =
  lib :: 'd
  released :: "ptr list"

definition sizeof_metadata :: nat where "sizeof_metadata = 16"

definition die_dealloc :: "ptr \<Rightarrow> 'd dwarf \<Rightarrow> 'd dwarf" where
  "die_dealloc die d = (if die = NULL then d else d\<lparr>released := released d @ [die]\<rparr>)"

section \<open>Creating and closing\<close>

definition metadata_create :: "world \<Rightarrow> ptr \<times> world" where
  "metadata_create w = rave_malloc sizeof_metadata w"

definition metadata_destroy :: "ptr \<Rightarrow> world \<Rightarrow> world option" where
  "metadata_destroy self w = (if self \<noteq> NULL then rave_free self w else Some w)"

text \<open>
  The contents of the allocated record are \<open>None\<close> until \<open>init\<close> has filled them. The second
  argument is the address of the binary, the third what the record there holds.
\<close>

definition metadata_init ::
  "'d dwarf_api \<Rightarrow> ptr \<Rightarrow> metadata option \<Rightarrow> ptr \<Rightarrow> binary \<Rightarrow> 'd dwarf \<Rightarrow>
     rave_errno \<times> metadata option \<times> 'd dwarf" where
  "metadata_init api self contents bp b d =
     (if self = NULL then (RAVE_EINVAL, contents, d)
      else
        let (rc, g, l) = dwarf_elf_init api (bin_elf b) (lib d); d1 = d\<lparr>lib := l\<rparr>
        in if rc \<noteq> DW_DLV_OK then (RAVE_EDWARF, contents, d1)
           else (RAVE_SUCCESS, Some \<lparr>md_binary = bp, dbg = g\<rparr>, d1))"

definition metadata_close ::
  "'d dwarf_api \<Rightarrow> ptr \<Rightarrow> metadata option \<Rightarrow> 'd dwarf \<Rightarrow> (rave_errno \<times> 'd dwarf) option" where
  "metadata_close api self contents d =
     (if self = NULL then Some (RAVE_EINVAL, d)
      else
        case contents of
          None \<Rightarrow> None
        | Some m \<Rightarrow>
            let (rc, l) = dwarf_finish api (dbg m) (lib d); d1 = d\<lparr>lib := l\<rparr>
            in if rc \<noteq> DW_DLV_OK then Some (RAVE_EDWARF, d1) else Some (RAVE_SUCCESS, d1))"

section \<open>The walk\<close>

type_synonym 's callback = "func \<Rightarrow> 's \<Rightarrow> (rave_errno \<times> 's) option"

definition get_function_hilo ::
  "'d dwarf_api \<Rightarrow> ptr \<Rightarrow> 's callback \<Rightarrow> 's \<Rightarrow> (rave_errno \<times> 's) option" where
  "get_function_hilo api die cb s =
     (let (rc, lo) = dwarf_lowpc api die
      in if rc = DW_DLV_ERROR then Some (RAVE_EDWARF, s)
      else if rc = DW_DLV_NO_ENTRY then Some (RAVE_SUCCESS, s)
      else
        let (rc2, hi, formclass) = dwarf_highpc api die
        in if rc2 = DW_DLV_ERROR then Some (RAVE_EDWARF, s)
        else if rc2 = DW_DLV_NO_ENTRY then Some (RAVE_SUCCESS, s)
        else
          let hi1 = (if formclass = DW_FORM_CLASS_CONSTANT api then hi + lo else hi)
          in cb \<lparr>faddr = lo, flen = hi1 - lo\<rparr> s)"

partial_function (option) die_loop ::
  "'d dwarf_api \<Rightarrow> ptr \<Rightarrow> 's callback \<Rightarrow> c_int \<Rightarrow> ptr \<Rightarrow> 'd dwarf \<Rightarrow> 's \<Rightarrow>
     (rave_errno \<times> 'd dwarf \<times> 's) option" where
  "die_loop api g cb rc cur_die d s =
     (if rc \<noteq> DW_DLV_NO_ENTRY then
        if rc = DW_DLV_ERROR then Some (RAVE_EDWARF, d, s)
        else
          let (rc1, tag) = dwarf_tag api cur_die
          in if rc1 \<noteq> DW_DLV_OK then Some (RAVE_EDWARF, die_dealloc cur_die d, s)
          else
            do { (rc2, s1) \<leftarrow>
                   (if tag = DW_TAG_subprogram then get_function_hilo api cur_die cb s
                    else Some (RAVE_SUCCESS, s));
                 if rc2 \<noteq> RAVE_SUCCESS then Some (rc2, die_dealloc cur_die d, s1)
                 else
                   let (rc3, next_die) = dwarf_siblingof api g (lib d) cur_die
                   in die_loop api g cb rc3 next_die (die_dealloc cur_die d) s1 }
      else Some (RAVE_SUCCESS, d, s))"

definition process_die_and_siblings ::
  "'d dwarf_api \<Rightarrow> metadata \<Rightarrow> ptr \<Rightarrow> 's callback \<Rightarrow> 'd dwarf \<Rightarrow> 's \<Rightarrow>
     (rave_errno \<times> 'd dwarf \<times> 's) option" where
  "process_die_and_siblings api self cu_die cb d s =
     (let (rc, cur_die) = dwarf_child api cu_die in die_loop api (dbg self) cb rc cur_die d s)"

partial_function (option) foreach_function ::
  "'d dwarf_api \<Rightarrow> metadata \<Rightarrow> 's callback \<Rightarrow> 'd dwarf \<Rightarrow> 's \<Rightarrow>
     (rave_errno \<times> 'd dwarf \<times> 's) option" where
  "foreach_function api self cb d s =
     (let (rc, l) = dwarf_next_cu_header api (dbg self) (lib d); d1 = d\<lparr>lib := l\<rparr>
      in if rc = DW_DLV_ERROR then Some (RAVE_EDWARF, d1, s)
      else if rc = DW_DLV_NO_ENTRY then Some (RAVE_SUCCESS, die_dealloc NULL d1, s)
      else
        let (rc1, cu_die) = dwarf_siblingof api (dbg self) (lib d1) NULL
        in if rc1 = DW_DLV_ERROR then Some (RAVE_EDWARF, d1, s)
        else if rc1 = DW_DLV_NO_ENTRY then foreach_function api self cb d1 s
        else
          do { (rc2, d2, s1) \<leftarrow> process_die_and_siblings api self cu_die cb d1 s;
               let d3 = die_dealloc cu_die d2;
               if rc2 \<noteq> RAVE_SUCCESS then Some (rc2, d3, s1)
               else foreach_function api self cb d3 s1 })"

declare die_loop.simps [code]
declare foreach_function.simps [code]

section \<open>What a DIE tells\<close>

text \<open>
  A DIE is unreadable, of no interest, or a function. The high pc is an address or, for a
  constant form, the length.
\<close>

definition die_info :: "'d dwarf_api \<Rightarrow> ptr \<Rightarrow> rave_errno + func option" where
  "die_info api die =
     (let (rc, tag) = dwarf_tag api die; (rlo, lo) = dwarf_lowpc api die;
          (rhi, hi, form) = dwarf_highpc api die
      in if rc \<noteq> DW_DLV_OK then Inl RAVE_EDWARF
      else if tag \<noteq> DW_TAG_subprogram then Inr None
      else if rlo = DW_DLV_ERROR then Inl RAVE_EDWARF
      else if rlo = DW_DLV_NO_ENTRY then Inr None
      else if rhi = DW_DLV_ERROR then Inl RAVE_EDWARF
      else if rhi = DW_DLV_NO_ENTRY then Inr None
      else Inr (Some \<lparr>faddr = lo,
                       flen = (if form = DW_FORM_CLASS_CONSTANT api then hi else hi - lo)\<rparr>))"

definition visit_die ::
  "'d dwarf_api \<Rightarrow> 's callback \<Rightarrow> ptr \<Rightarrow> 's \<Rightarrow> (rave_errno \<times> 's) option" where
  "visit_die api cb die s =
     (case die_info api die of
        Inl e \<Rightarrow> Some (e, s)
      | Inr None \<Rightarrow> Some (RAVE_SUCCESS, s)
      | Inr (Some f) \<Rightarrow> cb f s)"

text \<open>The DIEs in order, up to and with the first that fails, which is the last one given back.\<close>

fun visit_dies ::
  "'d dwarf_api \<Rightarrow> 's callback \<Rightarrow> ptr list \<Rightarrow> 's \<Rightarrow> (rave_errno \<times> ptr list \<times> 's) option" where
  "visit_dies api cb [] s = Some (RAVE_SUCCESS, [], s)"
| "visit_dies api cb (die # dies) s =
     do { (rc, s1) \<leftarrow> visit_die api cb die s;
          if rc \<noteq> RAVE_SUCCESS then Some (rc, [die], s1)
          else do { (rc2, ps, s2) \<leftarrow> visit_dies api cb dies s1; Some (rc2, die # ps, s2) } }"

definition release_all :: "ptr list \<Rightarrow> 'd dwarf \<Rightarrow> 'd dwarf" where
  "release_all ps d = d\<lparr>released := released d @ filter (\<lambda>p. p \<noteq> NULL) ps\<rparr>"

lemma release_all_simps [simp]:
  "release_all [] d = d"
  "release_all ps (release_all qs d) = release_all (qs @ ps) d"
  "lib (release_all ps d) = lib d"
  by (simp_all add: release_all_def)

lemma die_dealloc_release: "die_dealloc p d = release_all [p] d"
  by (simp add: die_dealloc_def release_all_def)

text \<open>The children of a unit as libdwarf links them, and the status that ends the chain.\<close>

fun die_links :: "'d dwarf_api \<Rightarrow> ptr \<Rightarrow> 'd \<Rightarrow> c_int \<times> ptr \<Rightarrow> ptr list \<Rightarrow> c_int \<Rightarrow> bool" where
  "die_links api g l r [] e \<longleftrightarrow> fst r = e \<and> (e = DW_DLV_ERROR \<or> e = DW_DLV_NO_ENTRY)"
| "die_links api g l r (die # dies) e \<longleftrightarrow>
     fst r \<noteq> DW_DLV_ERROR \<and> fst r \<noteq> DW_DLV_NO_ENTRY \<and> snd r = die \<and>
     die_links api g l (dwarf_siblingof api g l die) dies e"

definition ended_by :: "c_int \<Rightarrow> rave_errno" where
  "ended_by e = (if e = DW_DLV_ERROR then RAVE_EDWARF else RAVE_SUCCESS)"

lemma die_loop_eq:
  assumes "die_links api g (lib d) r dies e"
  shows "die_loop api g cb (fst r) (snd r) d s =
    do { (rc, ps, s1) \<leftarrow> visit_dies api cb dies s;
         Some (if rc \<noteq> RAVE_SUCCESS then rc else ended_by e, release_all ps d, s1) }"
  using assms
proof (induction dies arbitrary: r d s)
  case Nil
  then show ?case
    by (subst die_loop.simps) (auto simp: ended_by_def)
next
  case (Cons die dies)
  obtain rc1 t where tag: "dwarf_tag api die = (rc1, t)" by fastforce
  obtain rlo lo where lo: "dwarf_lowpc api die = (rlo, lo)" by fastforce
  obtain rhi hi form where hi: "dwarf_highpc api die = (rhi, hi, form)" by (metis prod_cases3)
  obtain rs nd where sib: "dwarf_siblingof api g (lib d) die = (rs, nd)" by fastforce
  have step: "(if t = DW_TAG_subprogram then get_function_hilo api die cb s else Some (RAVE_SUCCESS, s)) =
      visit_die api cb die s" if "rc1 = DW_DLV_OK"
    using that by (simp add: visit_die_def die_info_def get_function_hilo_def tag lo hi)
  have bad: "visit_die api cb die s = Some (RAVE_EDWARF, s)" if "rc1 \<noteq> DW_DLV_OK"
    using that by (simp add: visit_die_def die_info_def tag lo hi)
  have rest: "die_loop api g cb rs nd (release_all [die] d) s1 =
      do { (rc, ps, s2) \<leftarrow> visit_dies api cb dies s1;
           Some (if rc \<noteq> RAVE_SUCCESS then rc else ended_by e, release_all (die # ps) d, s2) }" for s1
    using Cons.IH [of "release_all [die] d" "(rs, nd)" s1] Cons.prems sib by simp
  have here: "fst r \<noteq> DW_DLV_ERROR" "fst r \<noteq> DW_DLV_NO_ENTRY" "snd r = die"
    using Cons.prems by simp_all
  have head: "die_loop api g cb (fst r) (snd r) d s =
      (if rc1 \<noteq> DW_DLV_OK then Some (RAVE_EDWARF, release_all [die] d, s)
       else
         do { (rc2, s1) \<leftarrow> visit_die api cb die s;
              if rc2 \<noteq> RAVE_SUCCESS then Some (rc2, release_all [die] d, s1)
              else die_loop api g cb rs nd (release_all [die] d) s1 })"
    by (subst die_loop.simps, cases "rc1 = DW_DLV_OK")
      (simp_all add: tag sib here step [symmetric] die_dealloc_release
         del: release_all_simps split del: if_split cong: if_cong)
  show ?case
  proof (cases "rc1 = DW_DLV_OK")
    case True
    show ?thesis
    proof (cases "visit_die api cb die s")
      case None
      with True show ?thesis by (simp add: head)
    next
      case (Some v)
      then obtain rc2 s1 where v: "visit_die api cb die s = Some (rc2, s1)" by (cases v) auto
      show ?thesis
        using True by (simp add: head v rest)
          (cases "visit_dies api cb dies s1"; auto)
    qed
  next
    case False
    then show ?thesis by (simp add: head bad)
  qed
qed

section \<open>The units\<close>

text \<open>
  The compilation units as libdwarf iterates over them. A unit is the state of the library after
  its header was read, and, unless its DIE is missing, that DIE, its children and the status that
  ends their chain.
\<close>

type_synonym 'd cu = "'d \<times> (ptr \<times> ptr list \<times> c_int) option"

definition link_status :: "c_int \<Rightarrow> bool" where
  "link_status rc \<longleftrightarrow> rc \<noteq> DW_DLV_ERROR \<and> rc \<noteq> DW_DLV_NO_ENTRY"

fun unit_links :: "'d dwarf_api \<Rightarrow> ptr \<Rightarrow> 'd \<Rightarrow> 'd cu list \<Rightarrow> 'd \<Rightarrow> c_int \<Rightarrow> bool" where
  "unit_links api g l [] l' e \<longleftrightarrow>
     (let (rc, l1) = dwarf_next_cu_header api g l
      in l' = l1 \<and>
         (rc = e \<and> \<not> link_status e \<or>
          link_status rc \<and> e = DW_DLV_ERROR \<and> fst (dwarf_siblingof api g l1 NULL) = DW_DLV_ERROR))"
| "unit_links api g l ((lu, u) # us) l' e \<longleftrightarrow>
     (let (rc, l1) = dwarf_next_cu_header api g l; (rc1, cu) = dwarf_siblingof api g l1 NULL
      in link_status rc \<and> lu = l1 \<and>
         (case u of
            None \<Rightarrow> rc1 = DW_DLV_NO_ENTRY
          | Some (die, dies, e1) \<Rightarrow>
              link_status rc1 \<and> cu = die \<and> die_links api g l1 (dwarf_child api die) dies e1) \<and>
         unit_links api g l1 us l' e)"

fun visit_units ::
  "'d dwarf_api \<Rightarrow> 's callback \<Rightarrow> 'd cu list \<Rightarrow> 'd \<Rightarrow> c_int \<Rightarrow> 's \<Rightarrow>
     (rave_errno \<times> ptr list \<times> 'd \<times> 's) option" where
  "visit_units api cb [] l' e s = Some (ended_by e, [], l', s)"
| "visit_units api cb ((lu, None) # us) l' e s = visit_units api cb us l' e s"
| "visit_units api cb ((lu, Some (die, dies, e1)) # us) l' e s =
     do { (rc, ps, s1) \<leftarrow> visit_dies api cb dies s;
          let rc1 = (if rc \<noteq> RAVE_SUCCESS then rc else ended_by e1);
          if rc1 \<noteq> RAVE_SUCCESS then Some (rc1, ps @ [die], lu, s1)
          else do { (rc2, qs, l2, s2) \<leftarrow> visit_units api cb us l' e s1;
                    Some (rc2, ps @ die # qs, l2, s2) } }"

lemma release_all_lib: "(release_all ps d)\<lparr>lib := l\<rparr> = release_all ps (d\<lparr>lib := l\<rparr>)"
  by (simp add: release_all_def)

lemma process_die_eq:
  assumes "die_links api (dbg self) (lib d) (dwarf_child api cu) dies e"
  shows "process_die_and_siblings api self cu cb d s =
    do { (rc, ps, s1) \<leftarrow> visit_dies api cb dies s;
         Some (if rc \<noteq> RAVE_SUCCESS then rc else ended_by e, release_all ps d, s1) }"
  using die_loop_eq [OF assms] by (simp add: process_die_and_siblings_def case_prod_beta)

lemma foreach_function_eq:
  assumes "unit_links api (dbg self) (lib d) us l' e"
  shows "foreach_function api self cb d s =
    do { (rc, ps, l1, s1) \<leftarrow> visit_units api cb us l' e s;
         Some (rc, release_all ps (d\<lparr>lib := l1\<rparr>), s1) }"
  using assms
proof (induction us arbitrary: d s)
  case Nil
  then show ?case
    by (subst foreach_function.simps)
      (auto simp: ended_by_def link_status_def die_dealloc_release release_all_def
        case_prod_beta Let_def cong: if_cong)
next
  case (Cons u us)
  obtain rc l1 where header: "dwarf_next_cu_header api (dbg self) (lib d) = (rc, l1)" by fastforce
  obtain rc1 cu where sib: "dwarf_siblingof api (dbg self) l1 NULL = (rc1, cu)" by fastforce
  obtain lu v where u: "u = (lu, v)" by fastforce
  show ?case
  proof (cases v)
    case None
    then show ?thesis
      using Cons.prems Cons.IH [of "d\<lparr>lib := l1\<rparr>" s]
      by (subst foreach_function.simps) (simp add: u header sib link_status_def)
  next
    case (Some x)
    then obtain dies e1 where x: "v = Some (cu, dies, e1)"
      and links: "die_links api (dbg self) l1 (dwarf_child api cu) dies e1"
      using Cons.prems by (cases x) (auto simp: u header sib)
    have here: "rc \<noteq> DW_DLV_ERROR" "rc \<noteq> DW_DLV_NO_ENTRY" "rc1 \<noteq> DW_DLV_ERROR"
        "rc1 \<noteq> DW_DLV_NO_ENTRY" "lu = l1"
      using Cons.prems by (simp_all add: u header sib link_status_def x)
    have head: "foreach_function api self cb d s =
        do { (rc2, ps, s1) \<leftarrow> visit_dies api cb dies s;
             let rc3 = (if rc2 \<noteq> RAVE_SUCCESS then rc2 else ended_by e1);
             let d3 = release_all (ps @ [cu]) (d\<lparr>lib := l1\<rparr>);
             if rc3 \<noteq> RAVE_SUCCESS then Some (rc3, d3, s1) else foreach_function api self cb d3 s1 }"
      by (subst foreach_function.simps, cases "visit_dies api cb dies s")
        (simp_all add: header sib here process_die_eq [where d = "d\<lparr>lib := l1\<rparr>", simplified, OF links]
          die_dealloc_release case_prod_beta Let_def cong: if_cong)
    have rest: "foreach_function api self cb (release_all (ps @ [cu]) (d\<lparr>lib := l1\<rparr>)) s1 =
        do { (rc, qs, l2, s2) \<leftarrow> visit_units api cb us l' e s1;
             Some (rc, release_all (ps @ cu # qs) (d\<lparr>lib := l2\<rparr>), s2) }" for ps s1
      using Cons.prems Cons.IH [of "release_all (ps @ [cu]) (d\<lparr>lib := l1\<rparr>)" s1]
      by (simp add: u header sib release_all_lib)
    show ?thesis
    proof (cases "visit_dies api cb dies s")
      case None
      then show ?thesis by (simp add: head u x)
    next
      case (Some y)
      then obtain rc2 ps s1 where y: "visit_dies api cb dies s = Some (rc2, ps, s1)" by (cases y) auto
      show ?thesis
        by (simp add: head u x y rest Let_def here)
          (cases "visit_units api cb us l' e s1"; auto)
    qed
  qed
qed

section \<open>The functions of a readable tree\<close>

text \<open>What the walk is for: the callback is called on each function, until it fails.\<close>

fun each_function :: "'s callback \<Rightarrow> func list \<Rightarrow> 's \<Rightarrow> (rave_errno \<times> 's) option" where
  "each_function cb [] s = Some (RAVE_SUCCESS, s)"
| "each_function cb (f # fs) s =
     do { (rc, s1) \<leftarrow> cb f s;
          if rc \<noteq> RAVE_SUCCESS then Some (rc, s1) else each_function cb fs s1 }"

lemma each_function_append:
  "each_function cb (fs @ gs) s =
     do { (rc, s1) \<leftarrow> each_function cb fs s;
          if rc \<noteq> RAVE_SUCCESS then Some (rc, s1) else each_function cb gs s1 }"
  by (induction fs arbitrary: s) (auto simp: case_prod_beta cong: if_cong split: Option.bind_split)

lemma each_function_inv:
  assumes "\<And>f s. f \<in> set fs \<Longrightarrow> P s \<Longrightarrow> \<exists>s'. cb f s = Some (RAVE_SUCCESS, s') \<and> P s'" "P s"
  shows "\<exists>s'. each_function cb fs s = Some (RAVE_SUCCESS, s') \<and> P s'"
  using assms
proof (induction fs arbitrary: s)
  case (Cons f fs)
  from Cons.prems(1) [of f s] Cons.prems(2) obtain s1 where
    "cb f s = Some (RAVE_SUCCESS, s1)" "P s1" by auto
  with Cons.IH [of s1] Cons.prems(1) show ?case by simp
qed simp

definition readable :: "'d dwarf_api \<Rightarrow> ptr \<Rightarrow> bool" where
  "readable api die \<longleftrightarrow> \<not> isl (die_info api die)"

fun clean_unit :: "'d dwarf_api \<Rightarrow> 'd cu \<Rightarrow> bool" where
  "clean_unit api (l, None) = True"
| "clean_unit api (l, Some (cu, dies, e)) = (e = DW_DLV_NO_ENTRY \<and> list_all (readable api) dies)"

definition die_functions :: "'d dwarf_api \<Rightarrow> ptr list \<Rightarrow> func list" where
  "die_functions api dies = List.map_filter (\<lambda>die. projr (die_info api die)) dies"

fun unit_functions :: "'d dwarf_api \<Rightarrow> 'd cu list \<Rightarrow> func list" where
  "unit_functions api [] = []"
| "unit_functions api ((l, None) # us) = unit_functions api us"
| "unit_functions api ((l, Some (cu, dies, e)) # us) = die_functions api dies @ unit_functions api us"

fun unit_dies :: "'d cu list \<Rightarrow> ptr list" where
  "unit_dies [] = []"
| "unit_dies ((l, None) # us) = unit_dies us"
| "unit_dies ((l, Some (cu, dies, e)) # us) = dies @ cu # unit_dies us"

abbreviation outcome :: "rave_errno \<times> 'p \<times> 's \<Rightarrow> rave_errno \<times> 's" where
  "outcome \<equiv> \<lambda>(rc, ps, s). (rc, s)"

lemma visit_die_readable:
  "readable api die \<Longrightarrow>
     visit_die api cb die s = each_function cb (die_functions api [die]) s"
  by (auto simp: readable_def visit_die_def die_functions_def List.map_filter_def isl_def
      split: sum.splits option.splits Option.bind_split)

lemma die_functions_Cons: "die_functions api (die # dies) = die_functions api [die] @ die_functions api dies"
  by (simp add: die_functions_def List.map_filter_def)

text \<open>A list of readable DIEs followed by further ones.\<close>

lemma visit_dies_append:
  assumes "list_all (readable api) dies"
  shows "map_option outcome (visit_dies api cb (dies @ dies') s) =
    do { (rc, s1) \<leftarrow> each_function cb (die_functions api dies) s;
         if rc \<noteq> RAVE_SUCCESS then Some (rc, s1) else map_option outcome (visit_dies api cb dies' s1) }"
  using assms
proof (induction dies arbitrary: s)
  case Nil
  then show ?case by (simp add: die_functions_def List.map_filter_def)
next
  case (Cons die dies)
  then have die: "each_function cb (die_functions api (die # dies)) s =
      do { (rc, s1) \<leftarrow> visit_die api cb die s;
           if rc \<noteq> RAVE_SUCCESS then Some (rc, s1) else each_function cb (die_functions api dies) s1 }"
    by (subst die_functions_Cons) (simp add: each_function_append visit_die_readable)
  show ?case
  proof (cases "visit_die api cb die s")
    case (Some v)
    have "map_option outcome (do { (rc2, ps, s2) \<leftarrow> r; Some (rc2, die # ps, s2) }) = map_option outcome r"
      for r :: "(rave_errno \<times> ptr list \<times> 'b) option"
      by (cases r) auto
    with Some show ?thesis
      using Cons by (cases v) (simp add: die)
  qed (simp add: die)
qed

lemma visit_dies_taken:
  "visit_dies api cb dies s = Some (rc, ps, s1) \<Longrightarrow>
     (\<exists>n \<le> length dies. ps = take n dies) \<and> (rc = RAVE_SUCCESS \<longrightarrow> ps = dies)"
proof (induction dies arbitrary: s ps)
  case (Cons die dies)
  from Cons.prems obtain rc1 s2 where v: "visit_die api cb die s = Some (rc1, s2)"
    by (auto simp: bind_eq_Some_conv)
  show ?case
  proof (cases "rc1 = RAVE_SUCCESS")
    case False
    with v Cons.prems show ?thesis by (auto intro!: exI [of _ 1])
  next
    case True
    with v Cons.prems obtain qs where q: "visit_dies api cb dies s2 = Some (rc, qs, s1)" "ps = die # qs"
      by (auto simp: bind_eq_Some_conv)
    from Cons.IH [OF q(1)] obtain n where "n \<le> length dies" "qs = take n dies" "rc = RAVE_SUCCESS \<longrightarrow> qs = dies"
      by blast
    with q(2) show ?thesis by (auto intro!: exI [of _ "Suc n"])
  qed
qed auto

abbreviation unit_outcome :: "rave_errno \<times> 'p \<times> 'd \<times> 's \<Rightarrow> rave_errno \<times> 's" where
  "unit_outcome \<equiv> \<lambda>(rc, ps, l, s). (rc, s)"

text \<open>Clean units followed by further ones.\<close>

lemma visit_units_append:
  assumes "list_all (clean_unit api) us"
  shows "map_option unit_outcome (visit_units api cb (us @ us') l' e s) =
    do { (rc, s1) \<leftarrow> each_function cb (unit_functions api us) s;
         if rc \<noteq> RAVE_SUCCESS then Some (rc, s1)
         else map_option unit_outcome (visit_units api cb us' l' e s1) }"
  using assms
proof (induction api us arbitrary: s rule: unit_functions.induct)
  case (3 api l cu dies e1 us)
  have children: "map_option outcome (visit_dies api cb dies s) = each_function cb (die_functions api dies) s"
    using visit_dies_append [of api dies cb "[]" s] 3
    by (simp add: case_prod_beta cong: if_cong) (cases "each_function cb (die_functions api dies) s"; auto)
  show ?case
  proof (cases "visit_dies api cb dies s")
    case None
    with children have "each_function cb (die_functions api dies) s = None" by simp
    with None show ?thesis by (simp add: each_function_append)
  next
    case (Some v)
    then obtain rc ps s1 where v: "visit_dies api cb dies s = Some (rc, ps, s1)" by (cases v) auto
    with children have "each_function cb (die_functions api dies) s = Some (rc, s1)" by simp
    moreover have "map_option unit_outcome (do { (rc2, qs, l2, s2) \<leftarrow> r; Some (rc2, ps @ cu # qs, l2, s2) }) =
        map_option unit_outcome r" for r :: "(rave_errno \<times> ptr list \<times> 'a \<times> 'b) option"
      by (cases r) auto
    ultimately show ?thesis
      using 3 v by (simp add: each_function_append ended_by_def)
  qed
qed auto

text \<open>A unit with an unreadable DIE after readable ones.\<close>

lemma visit_unreadable:
  assumes "\<not> readable api die"
  shows "visit_dies api cb (die # dies) s = Some (RAVE_EDWARF, [die], s)"
proof -
  have "die_info api die = Inl RAVE_EDWARF"
    using assms by (auto simp: readable_def die_info_def Let_def split: prod.splits if_splits)
  then show ?thesis by (simp add: visit_die_def)
qed

lemma visit_units_unreadable:
  assumes "list_all (readable api) dies" "\<not> readable api die"
  shows "map_option unit_outcome (visit_units api cb ((lu, Some (cu, dies @ die # dies', e1)) # us) l' e s) =
    do { (rc, s1) \<leftarrow> each_function cb (die_functions api dies) s;
         Some (if rc \<noteq> RAVE_SUCCESS then rc else RAVE_EDWARF, s1) }"
proof -
  let ?r = "visit_dies api cb (dies @ die # dies') s"
  have r: "map_option outcome ?r = do { (rc, s1) \<leftarrow> each_function cb (die_functions api dies) s;
      Some (if rc \<noteq> RAVE_SUCCESS then rc else RAVE_EDWARF, s1) }"
    unfolding visit_dies_append [OF assms(1)] visit_unreadable [OF assms(2)]
    by (cases "each_function cb (die_functions api dies) s") auto
  have bad: "rc \<noteq> RAVE_SUCCESS" if "?r = Some (rc, ps, s1)" for rc ps s1
    using r unfolding that by (auto split: Option.bind_splits if_splits)
  have "map_option unit_outcome (visit_units api cb ((lu, Some (cu, dies @ die # dies', e1)) # us) l' e s) =
      map_option outcome ?r"
    using bad by (cases ?r) auto
  then show ?thesis unfolding r .
qed

lemma visit_units_clean:
  assumes "list_all (clean_unit api) us" "e = DW_DLV_NO_ENTRY"
  shows "map_option unit_outcome (visit_units api cb us l' e s) = each_function cb (unit_functions api us) s"
  using visit_units_append [OF assms(1), of cb "[]" l' e s] assms(2)
  by (cases "each_function cb (unit_functions api us) s")
    (auto simp: ended_by_def case_prod_beta split: if_splits)

lemma visit_units_dies:
  "visit_units api cb us l' e s = Some (RAVE_SUCCESS, ps, l1, s1) \<Longrightarrow> ps = unit_dies us \<and> l1 = l'"
proof (induction us arbitrary: s ps)
  case (Cons u us)
  show ?case
  proof (cases u)
    case (Pair lu v)
    show ?thesis
    proof (cases v)
      case None
      with Pair Cons show ?thesis by simp
    next
      case (Some x)
      then obtain cu dies e1 where x: "v = Some (cu, dies, e1)" by (cases x) auto
      from Cons.prems obtain rc2 qs s2 where q: "visit_dies api cb dies s = Some (rc2, qs, s2)"
        by (auto simp: Pair x bind_eq_Some_conv)
      from Cons.prems q have "rc2 = RAVE_SUCCESS"
        by (auto simp: Pair x Let_def split: if_splits)
      with Cons.prems q obtain ps2 where
        "visit_units api cb us l' e s2 = Some (RAVE_SUCCESS, ps2, l1, s1)" "ps = qs @ cu # ps2"
        by (auto simp: Pair x Let_def bind_eq_Some_conv split: if_splits)
      with Cons.IH visit_dies_taken [OF q] \<open>rc2 = RAVE_SUCCESS\<close> show ?thesis
        by (auto simp: Pair x)
    qed
  qed
qed simp

text \<open>
  Whatever tree libdwarf answers with, an invariant of the callback survives the walk, if the
  walk ends at all.
\<close>

definition callback_keeps :: "('s \<Rightarrow> bool) \<Rightarrow> 's callback \<Rightarrow> bool" where
  "callback_keeps P cb \<longleftrightarrow> (\<forall>f s rc s'. P s \<longrightarrow> cb f s = Some (rc, s') \<longrightarrow> P s')"

lemma hilo_keeps:
  "get_function_hilo api die cb s = Some (rc, s') \<Longrightarrow> callback_keeps P cb \<Longrightarrow> P s \<Longrightarrow> P s'"
  by (auto simp: get_function_hilo_def callback_keeps_def case_prod_beta Let_def split: if_splits)

lemma die_loop_keeps:
  assumes "die_loop api g cb rc die d s = Some r"
  shows "callback_keeps P cb \<longrightarrow> P s \<longrightarrow> P (snd (snd r))"
  using assms
proof (rule die_loop.raw_induct [rotated])
  fix loop :: "'a dwarf_api \<Rightarrow> ptr \<Rightarrow> 'b callback \<Rightarrow> c_int \<Rightarrow> ptr \<Rightarrow> 'a dwarf \<Rightarrow> 'b \<Rightarrow>
      (rave_errno \<times> 'a dwarf \<times> 'b) option"
    and api g cb rc die d s r
  assume IH: "\<And>api g cb rc die d s r. loop api g cb rc die d s = Some r \<Longrightarrow>
      callback_keeps P cb \<longrightarrow> P s \<longrightarrow> P (snd (snd r))"
  assume "(if rc \<noteq> DW_DLV_NO_ENTRY then
        if rc = DW_DLV_ERROR then Some (RAVE_EDWARF, d, s)
        else
          let (rc1, tag) = dwarf_tag api die
          in if rc1 \<noteq> DW_DLV_OK then Some (RAVE_EDWARF, die_dealloc die d, s)
          else
            do { (rc2, s1) \<leftarrow>
                   (if tag = DW_TAG_subprogram then get_function_hilo api die cb s
                    else Some (RAVE_SUCCESS, s));
                 if rc2 \<noteq> RAVE_SUCCESS then Some (rc2, die_dealloc die d, s1)
                 else
                   let (rc3, next_die) = dwarf_siblingof api g (lib d) die
                   in loop api g cb rc3 next_die (die_dealloc die d) s1 }
      else Some (RAVE_SUCCESS, d, s)) = Some r"
  then show "callback_keeps P cb \<longrightarrow> P s \<longrightarrow> P (snd (snd r))"
    by (auto simp: Let_def bind_eq_Some_conv dest: IH hilo_keeps [of api die cb s _ _ P]
        split: if_splits prod.splits)
qed

lemma foreach_function_keeps:
  assumes "foreach_function api self cb d s = Some r"
  shows "callback_keeps P cb \<longrightarrow> P s \<longrightarrow> P (snd (snd r))"
  using assms
proof (rule foreach_function.raw_induct [rotated])
  fix loop :: "'a dwarf_api \<Rightarrow> metadata \<Rightarrow> 'b callback \<Rightarrow> 'a dwarf \<Rightarrow> 'b \<Rightarrow>
      (rave_errno \<times> 'a dwarf \<times> 'b) option"
    and api self cb d s r
  assume IH: "\<And>api self cb d s r. loop api self cb d s = Some r \<Longrightarrow>
      callback_keeps P cb \<longrightarrow> P s \<longrightarrow> P (snd (snd r))"
  assume "(let (rc, l) = dwarf_next_cu_header api (dbg self) (lib d); d1 = d\<lparr>lib := l\<rparr>
      in if rc = DW_DLV_ERROR then Some (RAVE_EDWARF, d1, s)
      else if rc = DW_DLV_NO_ENTRY then Some (RAVE_SUCCESS, die_dealloc NULL d1, s)
      else
        let (rc1, cu_die) = dwarf_siblingof api (dbg self) (lib d1) NULL
        in if rc1 = DW_DLV_ERROR then Some (RAVE_EDWARF, d1, s)
        else if rc1 = DW_DLV_NO_ENTRY then loop api self cb d1 s
        else
          do { (rc2, d2, s1) \<leftarrow> process_die_and_siblings api self cu_die cb d1 s;
               let d3 = die_dealloc cu_die d2;
               if rc2 \<noteq> RAVE_SUCCESS then Some (rc2, d3, s1)
               else loop api self cb d3 s1 }) = Some r"
  moreover have "callback_keeps P cb \<longrightarrow> P s \<longrightarrow> P (snd (snd r'))"
    if "process_die_and_siblings api self cu cb d1 s = Some r'" for cu d1 r'
    using that by (auto simp: process_die_and_siblings_def case_prod_beta dest: die_loop_keeps [where P = P])
  ultimately show "callback_keeps P cb \<longrightarrow> P s \<longrightarrow> P (snd (snd r))"
    by (fastforce simp: Let_def bind_eq_Some_conv dest: IH split: if_splits prod.splits)
qed

text \<open>The status of the walk is libdwarf's failure or that of a call.\<close>

definition callback_codes :: "rave_errno set \<Rightarrow> 's callback \<Rightarrow> bool" where
  "callback_codes R cb \<longleftrightarrow> (\<forall>f s rc s'. cb f s = Some (rc, s') \<longrightarrow> rc \<in> R)"

definition walk_codes :: "rave_errno set \<Rightarrow> rave_errno set" where
  "walk_codes R = {RAVE_SUCCESS, RAVE_EDWARF} \<union> R"

lemma hilo_code:
  "get_function_hilo api die cb s = Some (rc, s') \<Longrightarrow> callback_codes R cb \<Longrightarrow> rc \<in> walk_codes R"
  by (auto simp: get_function_hilo_def callback_codes_def walk_codes_def case_prod_beta Let_def split: if_splits)

lemma walk_codes_base [simp]: "RAVE_SUCCESS \<in> walk_codes R" "RAVE_EDWARF \<in> walk_codes R"
  by (simp_all add: walk_codes_def)

lemma die_loop_code:
  assumes "die_loop api g cb rc die d s = Some r"
  shows "callback_codes R cb \<longrightarrow> fst r \<in> walk_codes R"
  using assms
proof (rule die_loop.raw_induct [rotated])
  fix loop :: "'a dwarf_api \<Rightarrow> ptr \<Rightarrow> 'b callback \<Rightarrow> c_int \<Rightarrow> ptr \<Rightarrow> 'a dwarf \<Rightarrow> 'b \<Rightarrow>
      (rave_errno \<times> 'a dwarf \<times> 'b) option"
    and api g cb rc die d s r
  assume IH: "\<And>api g cb rc die d s r. loop api g cb rc die d s = Some r \<Longrightarrow>
      callback_codes R cb \<longrightarrow> fst r \<in> walk_codes R"
  assume "(if rc \<noteq> DW_DLV_NO_ENTRY then
        if rc = DW_DLV_ERROR then Some (RAVE_EDWARF, d, s)
        else
          let (rc1, tag) = dwarf_tag api die
          in if rc1 \<noteq> DW_DLV_OK then Some (RAVE_EDWARF, die_dealloc die d, s)
          else
            do { (rc2, s1) \<leftarrow>
                   (if tag = DW_TAG_subprogram then get_function_hilo api die cb s
                    else Some (RAVE_SUCCESS, s));
                 if rc2 \<noteq> RAVE_SUCCESS then Some (rc2, die_dealloc die d, s1)
                 else
                   let (rc3, next_die) = dwarf_siblingof api g (lib d) die
                   in loop api g cb rc3 next_die (die_dealloc die d) s1 }
      else Some (RAVE_SUCCESS, d, s)) = Some r"
  then show "callback_codes R cb \<longrightarrow> fst r \<in> walk_codes R"
    by (auto simp: Let_def bind_eq_Some_conv dest: IH hilo_code [of api die cb s _ _ R]
        split: if_splits prod.splits)
qed

lemma foreach_function_code:
  assumes "foreach_function api self cb d s = Some r"
  shows "callback_codes R cb \<longrightarrow> fst r \<in> walk_codes R"
  using assms
proof (rule foreach_function.raw_induct [rotated])
  fix loop :: "'a dwarf_api \<Rightarrow> metadata \<Rightarrow> 'b callback \<Rightarrow> 'a dwarf \<Rightarrow> 'b \<Rightarrow>
      (rave_errno \<times> 'a dwarf \<times> 'b) option"
    and api self cb d s r
  assume IH: "\<And>api self cb d s r. loop api self cb d s = Some r \<Longrightarrow>
      callback_codes R cb \<longrightarrow> fst r \<in> walk_codes R"
  assume "(let (rc, l) = dwarf_next_cu_header api (dbg self) (lib d); d1 = d\<lparr>lib := l\<rparr>
      in if rc = DW_DLV_ERROR then Some (RAVE_EDWARF, d1, s)
      else if rc = DW_DLV_NO_ENTRY then Some (RAVE_SUCCESS, die_dealloc NULL d1, s)
      else
        let (rc1, cu_die) = dwarf_siblingof api (dbg self) (lib d1) NULL
        in if rc1 = DW_DLV_ERROR then Some (RAVE_EDWARF, d1, s)
        else if rc1 = DW_DLV_NO_ENTRY then loop api self cb d1 s
        else
          do { (rc2, d2, s1) \<leftarrow> process_die_and_siblings api self cu_die cb d1 s;
               let d3 = die_dealloc cu_die d2;
               if rc2 \<noteq> RAVE_SUCCESS then Some (rc2, d3, s1)
               else loop api self cb d3 s1 }) = Some r"
  moreover have "callback_codes R cb \<longrightarrow> fst r' \<in> walk_codes R"
    if "process_die_and_siblings api self cu cb d1 s = Some r'" for cu d1 r'
    using that by (auto simp: process_die_and_siblings_def case_prod_beta dest: die_loop_code [where R = R])
  ultimately show "callback_codes R cb \<longrightarrow> fst r \<in> walk_codes R"
    by (fastforce simp: Let_def bind_eq_Some_conv dest: IH split: if_splits prod.splits)
qed

section \<open>The source of functions\<close>

text \<open>
  What the handle relies on in \<open>struct metadata_op\<close>: \<open>foreach_function\<close> changes the caller's state by
  calls of the callback only, and its status is its own failure or that of a call. Whatever every
  call keeps is then kept by the walk.
\<close>

locale function_source =
  fixes each :: "'m \<Rightarrow> 's callback \<Rightarrow> 'd dwarf \<Rightarrow> 's \<Rightarrow> (rave_errno \<times> 'd dwarf \<times> 's) option"
  assumes by_calls: "each m cb d s = Some r \<Longrightarrow> callback_keeps P cb \<longrightarrow> P s \<longrightarrow> P (snd (snd r))"
    and code_of_call: "each m cb d s = Some r \<Longrightarrow> callback_codes R cb \<longrightarrow> fst r \<in> walk_codes R"
begin

text \<open>When no call fails, only the walk itself can.\<close>

lemma each_status:
  assumes "each m cb d s = Some (rc, d', s')" "\<And>f s rc s'. cb f s = Some (rc, s') \<Longrightarrow> rc = RAVE_SUCCESS"
  shows "rc = RAVE_SUCCESS \<or> rc = RAVE_EDWARF"
  using code_of_call [OF assms(1), of "{RAVE_SUCCESS}"] assms(2) by (auto simp: callback_codes_def walk_codes_def)

lemma each_keeps: "each m cb d s = Some (rc, d', s') \<Longrightarrow> callback_keeps P cb \<Longrightarrow> P s \<Longrightarrow> P s'"
  using by_calls [of m cb d s "(rc, d', s')" P] by simp

text \<open>A part of the state that no call changes is unchanged after the walk.\<close>

lemma each_unchanged:
  assumes "each m cb d s = Some (rc, d', s')" "\<And>f s rc s'. cb f s = Some (rc, s') \<Longrightarrow> part s' = part s"
  shows "part s' = part s"
  by (rule each_keeps [OF assms(1), of "\<lambda>v. part v = part s"]) (auto simp: callback_keeps_def assms(2))

end

interpretation dw: function_source "foreach_function api" for api
  by unfold_locales (rule foreach_function_keeps foreach_function_code; assumption)+

end
