(* ===== verification/Rave.thy ===== *)
theory Rave
  imports Metadata_Dwarf Transform
begin

text \<open>
  The handle of \<open>src/src/rave.c\<close> and the public operations of \<open>include/rave.h\<close>. The components
  are those of the other theories; the platform (operating system, libelf, libdwarf, DynamoRIO)
  is a parameter.

  A handle may be \<open>NULL\<close>, which is \<open>None\<close>. A field of a handle that nothing was stored to since
  \<open>rave_create\<close> is \<open>None\<close>; the record behind the metadata or the transformer pointer is \<open>None\<close>
  while it is not initialised and after it was freed. Reading such a value is undefined, and the
  operation is \<open>None\<close> then.
\<close>

unbundle bit_operations_syntax

record ('i, 'd) platform =
  p_os :: os_api
  p_elf :: elf_api
  p_dwarf :: "'d dwarf_api"
  p_dr :: "'i dr_api"

record 'i rave_handle =
  h_ptr :: ptr
  h_binary :: "binary option"
  h_metadata :: "(ptr \<times> metadata option) option"
  h_transform :: "(ptr \<times> 'i transform option) option"
  code_segment :: "window option"
  code_text :: "window option"
  reloc_offset :: "size_t option"

definition sizeof_rave_handle :: nat where "sizeof_rave_handle = 160"

definition rave_create :: "world \<Rightarrow> ptr \<times> world" where
  "rave_create w = rave_malloc sizeof_rave_handle w"

definition fresh_handle :: "ptr \<Rightarrow> 'i rave_handle" where
  "fresh_handle p =
     \<lparr>h_ptr = p, h_binary = None, h_metadata = None, h_transform = None,
      code_segment = None, code_text = None, reloc_offset = None\<rparr>"

definition rave_destroy :: "ptr \<Rightarrow> world \<Rightarrow> world option" where
  "rave_destroy self w = (if self \<noteq> NULL then rave_free self w else Some w)"

section \<open>Analysing a function\<close>

text \<open>The callback: its argument is the handle, which it reaches together with the process.\<close>

definition process_function ::
  "nat \<Rightarrow> 'i dr_api \<Rightarrow> func \<Rightarrow> 'i rave_handle \<times> world \<Rightarrow>
     (rave_errno \<times> 'i rave_handle \<times> world) option" where
  "process_function fuel api f s =
     (let (self, w) = s
      in case code_text self of
           None \<Rightarrow> None
         | Some tw \<Rightarrow>
             if \<not> window_contains (Some tw) (faddr f) \<or>
                \<not> window_contains (Some tw) (faddr f + flen f)
             then Some (RAVE_SUCCESS, self, w)
             else
               let bytes = fst (window_view (Some tw) (faddr f))
               in case h_transform self of
                    Some (tp, Some t) \<Rightarrow>
                      do { (rc, t1, w1) \<leftarrow> transform_add_function fuel api t f bytes w;
                           Some (RAVE_SUCCESS, self\<lparr>h_transform := Some (tp, Some t1)\<rparr>, w1) }
                  | _ \<Rightarrow> None)"

section \<open>Loading the code\<close>

text \<open>
  \<open>window_init\<close> overwrites a window as a whole, so that it does not matter what an uninitialised
  one holds.
\<close>

definition window_place :: "window option \<Rightarrow> window" where
  "window_place place = (case place of None \<Rightarrow> \<lparr>orig = 0, data = NULL, wlength = 0\<rparr> | Some s \<Rightarrow> s)"

definition map_code_pages ::
  "'i rave_handle \<Rightarrow> elf_section \<Rightarrow> elf_segment \<Rightarrow> world \<Rightarrow>
     (rave_errno \<times> 'i rave_handle \<times> world) option" where
  "map_code_pages self text_sec segment w =
     (if \<not> segment_loadable segment then Some (RAVE_ESEG_NOT_LOADABLE, self, w)
      else
        let len = PAGE_UP (segment_memsz segment);
            (mapping, w1) = rave_calloc 1 (unat len) w
        in if mapping = NULL then Some (RAVE_ENOMEM, self, w1)
        else
          case h_binary self of
            None \<Rightarrow> None
          | Some b \<Rightarrow>
              let copy_src = OFFSET (bin_mapping b) (segment_offset segment);
                  copy_size = segment_filesz segment
              in do { w2 \<leftarrow> store_bytes mapping (mem_get (mem w1) copy_src (unat copy_size)) w1;
                      let seg = snd (window_init (Some (window_place (code_segment self)))
                                  (segment_vaddr segment) mapping len);
                      let tw = snd (window_init (Some (window_place (code_text self)))
                                 (int_to_size (section_address text_sec))
                                 (OFFSET mapping (section_offset text_sec - segment_offset segment))
                                 (section_size text_sec));
                      Some (RAVE_SUCCESS, self\<lparr>code_segment := seg, code_text := tw\<rparr>, w2) })"

section \<open>Closing\<close>

definition rave_close ::
  "('i, 'd) platform \<Rightarrow> 'i rave_handle option \<Rightarrow> world \<Rightarrow> 'd dwarf \<Rightarrow>
     (c_int \<times> 'i rave_handle option \<times> world \<times> 'd dwarf) option" where
  "rave_close pf self w d =
     (case self of
        None \<Rightarrow> Some (0, None, w, d)
      | Some h \<Rightarrow>
          do { seg \<leftarrow> code_segment h;
               let code_mapping = fst (window_get (Some seg));
               w1 \<leftarrow> (if code_mapping \<noteq> NULL then rave_free code_mapping w else Some w);
               (mp, mc) \<leftarrow> h_metadata h;
               (rc1, d1) \<leftarrow> metadata_close (p_dwarf pf) mp mc d;
               w2 \<leftarrow> metadata_destroy mp w1;
               b \<leftarrow> h_binary h;
               let (rc2, b1, w3) = binary_close (p_os pf) (Some b) w2;
               (tp, tc) \<leftarrow> h_transform h;
               (rc3, _, w4) \<leftarrow>
                 (if tp = NULL then transform_close None w3
                  else do { t \<leftarrow> tc; transform_close (Some t) w3 });
               w5 \<leftarrow> transform_destroy tp w4;
               Some (errno_code rc1 OR errno_code rc2 OR errno_code rc3,
                 Some (h\<lparr>h_binary := b1, h_metadata := Some (mp, None), h_transform := Some (tp, None)\<rparr>),
                 w5, d1) })"

section \<open>Initialising\<close>

text \<open>The label \<open>err\<close>: close whatever there is, and return the code of the failure.\<close>

definition rave_init_err ::
  "('i, 'd) platform \<Rightarrow> rave_errno \<Rightarrow> 'i rave_handle \<Rightarrow> world \<Rightarrow> 'd dwarf \<Rightarrow>
     (rave_errno \<times> 'i rave_handle option \<times> world \<times> 'd dwarf) option" where
  "rave_init_err pf rc h w d =
     do { (_, h1, w1, d1) \<leftarrow> rave_close pf (Some h) w d; Some (rc, h1, w1, d1) }"

text \<open>What \<open>transform_init\<close> is given is a fresh block; it leaves it so when it fails.\<close>

definition init_transform :: "'i dr_api \<Rightarrow> ptr \<Rightarrow> rave_errno \<times> 'i transform option" where
  "init_transform api tp =
     (let (rc, t) = transform_init api (Some \<lparr>tr_ptr = tp, transformables = []\<rparr>)
      in (rc, if rc = RAVE_SUCCESS then t else None))"

definition rave_init ::
  "nat \<Rightarrow> ('i, 'd) platform \<Rightarrow> 'i rave_handle option \<Rightarrow> string \<Rightarrow> world \<Rightarrow> 'd dwarf \<Rightarrow>
     (rave_errno \<times> 'i rave_handle option \<times> world \<times> 'd dwarf) option" where
  "rave_init fuel pf self filename w d =
     (case self of
        None \<Rightarrow> Some (RAVE_SUCCESS, None, w, d)
      | Some h \<Rightarrow>
          let (mp, w1) = metadata_create w;
              h1 = h\<lparr>h_metadata := Some (mp, None)\<rparr>
          in if mp = NULL then Some (RAVE_ENOMEM, Some h1, w1, d)
          else
            let (tp, w2) = transform_create w1;
                h2 = h1\<lparr>h_transform := Some (tp, None)\<rparr>
            in if tp = NULL then Some (RAVE_ENOMEM, Some h2, w2, d)
            else
              let (rc, b, w3) = binary_init (p_os pf) (p_elf pf)
                    (Option.bind (h_binary h2) bin_header) filename w2;
                  h3 = h2\<lparr>h_binary := Some b\<rparr>
              in if rc \<noteq> RAVE_SUCCESS then rave_init_err pf rc h3 w3 d
              else
                do { (rc, sec) \<leftarrow> binary_find_section (p_elf pf) b ''.text'';
                     if rc \<noteq> RAVE_SUCCESS then rave_init_err pf rc h3 w3 d
                     else
                       do { text_sec \<leftarrow> sec;
                            (rc, sg) \<leftarrow> binary_find_segment (p_elf pf) b
                              (int_to_size (section_address text_sec));
                            if rc \<noteq> RAVE_SUCCESS then Some (rc, Some h3, w3, d)
                            else
                              do { segment \<leftarrow> sg;
                                   let (rc, mc, d1) =
                                     metadata_init (p_dwarf pf) mp None (h_ptr h3) b d;
                                   let h4 = h3\<lparr>h_metadata := Some (mp, mc)\<rparr>;
                                   if rc \<noteq> RAVE_SUCCESS then Some (rc, Some h4, w3, d1)
                                   else
                                     do { let (rc, tc) = init_transform (p_dr pf) tp;
                                          let h5 = h4\<lparr>h_transform := Some (tp, tc)\<rparr>;
                                          if rc \<noteq> RAVE_SUCCESS then rave_init_err pf rc h5 w3 d1
                                          else
                                            do { (rc, h6, w4) \<leftarrow> map_code_pages h5 text_sec segment w3;
                                                 if rc \<noteq> RAVE_SUCCESS then Some (rc, Some h6, w4, d1)
                                                 else
                                                   do { m \<leftarrow> mc;
                                                        (rc, d2, h7, w5) \<leftarrow>
                                                          foreach_function (p_dwarf pf) m
                                                            (process_function fuel (p_dr pf)) d1 (h6, w4);
                                                        Some (rc, Some h7, w5, d2) } } } } } })"

section \<open>The operations of an initialised handle\<close>

definition rave_randomize ::
  "('i, 'd) platform \<Rightarrow> 'i rave_handle option \<Rightarrow> world \<Rightarrow>
     (rave_errno \<times> 'i rave_handle option \<times> world) option" where
  "rave_randomize pf self w =
     (case self of
        None \<Rightarrow> Some (RAVE_EINVAL, None, w)
      | Some h \<Rightarrow>
          do { (tp, tc) \<leftarrow> h_transform h;
               (rc, t1, w1) \<leftarrow>
                 (if tp = NULL then transform_permute_all (p_dr pf) None (code_text h) w
                  else do { t \<leftarrow> tc; tw \<leftarrow> code_text h;
                            transform_permute_all (p_dr pf) (Some t) (Some tw) w });
               Some (rc, Some (h\<lparr>h_transform := Some (tp, t1)\<rparr>), w1) })"

definition rave_relocate ::
  "'i rave_handle option \<Rightarrow> uintptr \<Rightarrow> (rave_errno \<times> 'i rave_handle option) option" where
  "rave_relocate self address =
     (case self of
        None \<Rightarrow> Some (RAVE_EINVAL, None)
      | Some h \<Rightarrow>
          do { seg \<leftarrow> code_segment h;
               Some (RAVE_SUCCESS,
                 Some (h\<lparr>reloc_offset := Some (window_orig (Some seg) - address)\<rparr>)) })"

definition rave_handle_fault :: "'i rave_handle option \<Rightarrow> uintptr \<Rightarrow> ptr option" where
  "rave_handle_fault self address =
     (case self of
        None \<Rightarrow> Some NULL
      | Some h \<Rightarrow>
          do { off \<leftarrow> reloc_offset h;
               seg \<leftarrow> code_segment h;
               let address1 = PAGE_DOWN address + off;
               if \<not> window_contains (Some seg) address1 then Some NULL
               else
                 do { let (page, len) = window_view (Some seg) address1;
                      l \<leftarrow> len;
                      if l < int_to_size PAGESZ then Some NULL else Some page } })"

definition rave_get_code :: "'i rave_handle option \<Rightarrow> (ptr \<times> size_t option) option" where
  "rave_get_code self =
     (case self of
        None \<Rightarrow> Some (NULL, None)
      | Some h \<Rightarrow>
          do { seg \<leftarrow> code_segment h;
               let vaddr = window_orig (Some seg);
               Some (window_view (Some seg) vaddr) })"

definition rave_get_text :: "'i rave_handle option \<Rightarrow> (ptr \<times> size_t option) option" where
  "rave_get_text self =
     (case self of
        None \<Rightarrow> Some (NULL, None)
      | Some h \<Rightarrow>
          do { tw \<leftarrow> code_text h;
               let vaddr = window_orig (Some tw);
               Some (window_view (Some tw) vaddr) })"

definition rave_get_text_offset :: "'i rave_handle option \<Rightarrow> size_t option" where
  "rave_get_text_offset self =
     (case self of
        None \<Rightarrow> Some 0
      | Some h \<Rightarrow> do { tw \<leftarrow> code_text h; Some (window_orig (Some tw)) })"

end
