(* ===== verification/Rave_Code.thy ===== *)
theory Rave_Code
  imports Rave Transform_Semantics
begin

text \<open>
  The code a handle serves: what \<open>map_code_pages\<close> has put into memory, how the window of the text
  lies in the window of its segment, and which page a fault is answered with.
\<close>

section \<open>The loaded segment\<close>

lemma window_init_fills [simp]:
  "window_init (Some s) og p len = (RAVE_SUCCESS, Some \<lparr>orig = og, data = p, wlength = len\<rparr>)"
  by (simp add: window_init_def)

text \<open>The memory of a loaded segment: the bytes of the file, then zeros.\<close>

definition loaded_bytes :: "(ptr \<Rightarrow> byte) \<Rightarrow> ptr \<Rightarrow> nat \<Rightarrow> nat \<Rightarrow> byte list" where
  "loaded_bytes m src n len = mem_get m src n @ replicate (len - n) 0"

definition segment_window :: "elf_segment \<Rightarrow> ptr \<Rightarrow> window" where
  "segment_window segment mapping =
     \<lparr>orig = segment_vaddr segment, data = mapping, wlength = PAGE_UP (segment_memsz segment)\<rparr>"

definition text_window :: "elf_section \<Rightarrow> elf_segment \<Rightarrow> ptr \<Rightarrow> window" where
  "text_window sec segment mapping =
     \<lparr>orig = int_to_size (section_address sec),
      data = mapping + (section_offset sec - segment_offset segment), wlength = section_size sec\<rparr>"

definition file_bytes :: "binary \<Rightarrow> elf_segment \<Rightarrow> ptr" where
  "file_bytes b segment = bin_mapping b + segment_offset segment"

text \<open>The bytes of the file do not lie in the block that the segment is loaded to.\<close>

definition file_apart :: "binary \<Rightarrow> elf_segment \<Rightarrow> ptr \<Rightarrow> bool" where
  "file_apart b segment mapping \<longleftrightarrow>
     (\<forall>k < unat (segment_filesz segment).
        unat (PAGE_UP (segment_memsz segment)) \<le> unat (file_bytes b segment + of_nat k - mapping))"

lemma mem_put_prefix:
  assumes "length xs = length ys" "length xs + length zs \<le> 2 ^ 64"
  shows "mem_put p xs (mem_put p (ys @ zs) m) = mem_put p (xs @ zs) m"
  using assms by (auto simp: mem_put_def nth_append)

lemma map_code_pages_eq:
  assumes "segment_loadable segment" "h_binary self = Some b"
    and "rave_calloc 1 (unat (PAGE_UP (segment_memsz segment))) w = (mapping, w1)" "mapping \<noteq> NULL"
    and "segment_filesz segment \<le> PAGE_UP (segment_memsz segment)" "file_apart b segment mapping"
  shows "map_code_pages self sec segment w =
      Some (RAVE_SUCCESS,
        self\<lparr>code_segment := Some (segment_window segment mapping),
             code_text := Some (text_window sec segment mapping)\<rparr>,
        w1\<lparr>mem := mem_put mapping
          (loaded_bytes (mem w) (file_bytes b segment) (unat (segment_filesz segment))
            (unat (PAGE_UP (segment_memsz segment)))) (mem w)\<rparr>)"
    and "live w1 = (mapping, unat (PAGE_UP (segment_memsz segment))) # live w"
    and "fresh_block (live w) mapping (unat (PAGE_UP (segment_memsz segment)))"
proof -
  let ?len = "unat (PAGE_UP (segment_memsz segment))" and ?n = "unat (segment_filesz segment)"
  let ?src = "file_bytes b segment"
  obtain w0 where w0: "rave_malloc ?len w = (mapping, w0)"
    and w1: "w1 = w0\<lparr>mem := mem_put mapping (replicate ?len 0) (mem w0)\<rparr>"
    using assms(3,4) by (auto simp: rave_calloc_def split: prod.splits if_splits)
  have f: "fresh_block (live w) mapping ?len" "live w0 = (mapping, ?len) # live w"
    using malloc_fresh [OF w0 assms(4)] by simp_all
  then show "live w1 = (mapping, ?len) # live w" "fresh_block (live w) mapping ?len"
    by (simp_all add: w1)
  have m0: "mem w0 = mem w" using rave_malloc_frame [OF w0] by simp
  have n: "?n \<le> ?len" using assms(5) by (simp add: word_le_nat_alt)
  have src: "mem_get (mem w1) ?src ?n = mem_get (mem w) ?src ?n"
  proof (rule mem_get_cong)
    fix k assume "k < ?n"
    with assms(6) have "?len \<le> unat (?src + of_nat k - mapping)" by (simp add: file_apart_def)
    then show "mem w1 (?src + of_nat k) = mem w (?src + of_nat k)"
      by (simp add: w1 m0 mem_put_outside)
  qed
  have len: "?len < 2 ^ 64" by (rule unat_lt64)
  have ok: "block_ok (live w1) mapping ?n"
    using f(2) n by (auto simp: block_ok_def w1)
  have "replicate ?len (0 :: byte) = replicate ?n 0 @ replicate (?len - ?n) 0"
    using n by (simp add: replicate_add [symmetric])
  then have put: "mem_put mapping (mem_get (mem w) ?src ?n) (mem_put mapping (replicate ?len 0) (mem w)) =
      mem_put mapping (loaded_bytes (mem w) ?src ?n ?len) (mem w)"
    unfolding loaded_bytes_def using n len
    by (simp only:) (rule mem_put_prefix, simp_all add: less_imp_le [OF unat_lt64_num])
  have sb: "store_bytes mapping (mem_get (mem w1) ?src ?n) w1 =
      Some (w1\<lparr>mem := mem_put mapping (loaded_bytes (mem w) ?src ?n ?len) (mem w)\<rparr>)"
    using ok by (simp add: src store_bytes_ok put [symmetric]) (simp add: w1 m0)
  show "map_code_pages self sec segment w =
      Some (RAVE_SUCCESS,
        self\<lparr>code_segment := Some (segment_window segment mapping),
             code_text := Some (text_window sec segment mapping)\<rparr>,
        w1\<lparr>mem := mem_put mapping (loaded_bytes (mem w) ?src ?n ?len) (mem w)\<rparr>)"
    using assms(1-4) sb
    by (simp add: map_code_pages_def OFFSET_def file_bytes_def segment_window_def text_window_def Let_def)
qed

text \<open>Whatever the file holds, a successful load leaves the two windows and one more block.\<close>

lemma map_code_pages_SomeD:
  assumes "map_code_pages self sec segment w = Some (RAVE_SUCCESS, self', w')"
  obtains mapping where "mapping \<noteq> NULL"
    "self' = self\<lparr>code_segment := Some (segment_window segment mapping),
       code_text := Some (text_window sec segment mapping)\<rparr>"
    "live w' = (mapping, unat (PAGE_UP (segment_memsz segment))) # live w"
    "fresh_block (live w) mapping (unat (PAGE_UP (segment_memsz segment)))"
    "libelf_initialized w' = libelf_initialized w"
proof -
  let ?len = "unat (PAGE_UP (segment_memsz segment))"
  obtain mapping w1 where c: "rave_calloc 1 ?len w = (mapping, w1)" by fastforce
  have nz: "mapping \<noteq> NULL"
    using assms c by (auto simp: map_code_pages_def Let_def split: if_splits)
  obtain w0 where w0: "rave_malloc ?len w = (mapping, w0)"
    and w1: "w1 = w0\<lparr>mem := mem_put mapping (replicate ?len 0) (mem w0)\<rparr>"
    using c nz by (auto simp: rave_calloc_def split: prod.splits if_splits)
  have f: "fresh_block (live w) mapping ?len" "live w0 = (mapping, ?len) # live w"
    using malloc_fresh [OF w0 nz] by simp_all
  have lib: "libelf_initialized w0 = libelf_initialized w"
    using w0 by (auto simp: rave_malloc_def Let_def split: if_splits)
  obtain src where
    "store_bytes mapping src w1 = Some w'"
    "self' = self\<lparr>code_segment := Some (segment_window segment mapping),
       code_text := Some (text_window sec segment mapping)\<rparr>"
    using assms c nz
    by (auto simp: map_code_pages_def Let_def OFFSET_def segment_window_def text_window_def
        bind_eq_Some_conv split: if_splits option.splits)
  with that nz f lib show thesis
    by (auto simp: w1 dest: store_bytes_SomeD)
qed

text \<open>
  What an ELF file promises of the section and the segment: they are loaded congruently, the
  section lies in the segment, and the addresses do not wrap.
\<close>

definition text_placed :: "elf_section \<Rightarrow> elf_segment \<Rightarrow> bool" where
  "text_placed sec segment \<longleftrightarrow>
     (let addr = int_to_size (section_address sec); len = PAGE_UP (segment_memsz segment)
      in section_offset sec - segment_offset segment = addr - segment_vaddr segment \<and>
         unat (addr - segment_vaddr segment) + unat (section_size sec) \<le> unat len \<and>
         unat (segment_vaddr segment) + unat len < 2 ^ 64)"

lemma segment_window_ok:
  assumes "mapping \<noteq> NULL" "fresh_block bl mapping (unat (PAGE_UP (segment_memsz segment)))"
    and "unat (segment_vaddr segment) + unat (PAGE_UP (segment_memsz segment)) < 2 ^ 64"
  shows "window_ok (segment_window segment mapping)"
  using assms by (simp add: window_ok_def segment_window_def fresh_block_iff)

text \<open>A window that starts at a distance into a sound one and ends inside it is sound.\<close>

lemma inner_window_ok:
  assumes "window_ok s" "unat d + unat n \<le> unat (wlength s)"
  shows "window_ok \<lparr>orig = orig s + d, data = data s + d, wlength = n\<rparr>"
proof -
  have b: "unat (orig s) + unat (wlength s) < 2 ^ 64" "unat (data s) + unat (wlength s) < 2 ^ 64"
    "data s \<noteq> NULL" using assms(1) by (auto simp: window_ok_def simp del: unat_lt64)
  have u: "unat (orig s + d) = unat (orig s) + unat d" "unat (data s + d) = unat (data s) + unat d"
    using b assms(2) by (intro unat_plus_nowrap; linarith)+
  have "unat (data s + d) \<noteq> 0" using u(2) b(3) by (simp add: unat_eq_0)
  then have "data s + d \<noteq> NULL" by (metis unat_0)
  moreover have "unat (orig s) + unat d + unat n < 2 ^ 64" "unat (data s) + unat d + unat n < 2 ^ 64"
    using b assms(2) by linarith+
  ultimately show ?thesis by (simp add: window_ok_def u)
qed

lemma text_window_inner:
  assumes "text_placed sec segment"
  shows "text_window sec segment mapping =
    (let s = segment_window segment mapping; d = int_to_size (section_address sec) - segment_vaddr segment
     in \<lparr>orig = orig s + d, data = data s + d, wlength = section_size sec\<rparr>)"
  using assms by (simp add: text_window_def segment_window_def text_placed_def Let_def)

lemma text_window_ok:
  assumes "text_placed sec segment" "window_ok (segment_window segment mapping)"
  shows "window_ok (text_window sec segment mapping)"
  unfolding text_window_inner [OF assms(1)] Let_def
  by (rule inner_window_ok [OF assms(2)])
    (use assms(1) in \<open>simp add: text_placed_def segment_window_def Let_def\<close>)

text \<open>A window backed by a part of the memory of another one.\<close>

definition window_inside :: "window \<Rightarrow> window \<Rightarrow> bool" where
  "window_inside t s \<longleftrightarrow>
     data t = data s + (orig t - orig s) \<and>
     unat (orig t - orig s) + unat (wlength t) \<le> unat (wlength s)"

lemma text_window_inside:
  "text_placed sec segment \<Longrightarrow> window_inside (text_window sec segment mapping) (segment_window segment mapping)"
  by (simp add: window_inside_def text_window_def segment_window_def text_placed_def Let_def)

lemma inside_view:
  assumes "window_ok s" "window_ok t" "window_inside t s" "window_contains (Some t) a"
  shows "window_contains (Some s) a" "fst (window_view (Some t) a) = fst (window_view (Some s) a)"
proof -
  let ?d = "unat (orig t - orig s)"
  have "orig t = orig s + of_nat ?d" "data t = data s + of_nat ?d"
    "?d + unat (wlength t) \<le> unat (wlength s)"
    using assms(3) by (simp_all add: window_inside_def)
  from wv.nested_view [OF assms(1,2) this assms(4)]
  show "window_contains (Some s) a" "fst (window_view (Some t) a) = fst (window_view (Some s) a)"
    by blast+
qed

section \<open>Serving a fault\<close>

lemma window_contains_shift:
  assumes "window_ok s"
  shows "window_contains (Some s) (orig s + x) \<longleftrightarrow> unat x < unat (wlength s)"
proof -
  have "(\<exists>k < unat (wlength s). orig s + x = orig s + of_nat k) \<longleftrightarrow> unat x < unat (wlength s)"
  proof
    assume "\<exists>k < unat (wlength s). orig s + x = orig s + of_nat k"
    then obtain k where k: "k < unat (wlength s)" "x = of_nat k" by auto
    then have "k < 2 ^ 64" using unat_lt64 [of "wlength s"] by linarith
    with k show "unat x < unat (wlength s)" by (simp add: unat_of_nat64)
  next
    assume "unat x < unat (wlength s)"
    then show "\<exists>k < unat (wlength s). orig s + x = orig s + of_nat k"
      by (intro exI [of _ "unat x"]) simp
  qed
  then show ?thesis using window_contains_offset [OF assms] by simp
qed

lemma window_view_shift:
  assumes "window_ok s" "unat x < unat (wlength s)"
  shows "window_view (Some s) (orig s + x) = (data s + x, Some (wlength s - x))"
  using window_view_inside [OF assms] by simp

text \<open>Two page multiples that differ, differ by a page.\<close>

lemma page_gap:
  fixes m n :: nat
  assumes "m mod 4096 = 0" "n mod 4096 = 0" "m < n"
  shows "m + 4096 \<le> n"
proof -
  obtain i j where "m = 4096 * i" "n = 4096 * j" using assms(1,2) by (auto simp: mod_eq_0_iff_dvd dvd_def)
  with assms(3) have "i + 1 \<le> j" by simp
  then have "4096 * (i + 1) \<le> 4096 * j" by (rule mult_le_mono2)
  with \<open>m = 4096 * i\<close> \<open>n = 4096 * j\<close> show ?thesis by simp
qed

lemma aligned_le_PAGE_DOWN:
  assumes "unat b mod 4096 = 0" "b \<le> a"
  shows "b \<le> PAGE_DOWN a"
proof -
  have "unat b = unat b div 4096 * 4096" using assms(1) by (metis add.right_neutral div_mult_mod_eq)
  also have "\<dots> \<le> unat a div 4096 * 4096"
    using assms(2) by (intro mult_le_mono1 div_le_mono) (simp add: word_le_nat_alt)
  also have "\<dots> = unat (PAGE_DOWN a)" by (simp add: unat_PAGE_DOWN minus_mod_eq_div_mult)
  finally show ?thesis by (simp add: word_le_nat_alt)
qed

text \<open>
  The page of an address, seen from an aligned base: it lies in the extent exactly when the
  address does, and then a whole page is left.
\<close>

lemma page_in_extent:
  fixes base a len :: size_t
  assumes "unat base mod 4096 = 0" "unat len mod 4096 = 0" "unat base + unat len < 2 ^ 64"
  shows "unat (PAGE_DOWN a - base) < unat len \<longleftrightarrow> base \<le> a \<and> unat (a - base) < unat len"
    "unat (PAGE_DOWN a - base) < unat len \<Longrightarrow> 4096 \<le> unat (len - (PAGE_DOWN a - base))"
proof -
  have small: "unat (PAGE_DOWN a) \<le> unat a" using PAGE_DOWN_le [of a] by (simp add: word_le_nat_alt)
  show iff: "unat (PAGE_DOWN a - base) < unat len \<longleftrightarrow> base \<le> a \<and> unat (a - base) < unat len"
  proof (cases "base \<le> a")
    case True
    note le = aligned_le_PAGE_DOWN [OF assms(1) True]
    have x: "unat (PAGE_DOWN a - base) = unat (PAGE_DOWN a) - unat base" "unat (a - base) = unat a - unat base"
      using le True by (simp_all add: unat_minus_nowrap)
    have m: "unat (PAGE_DOWN a - base) mod 4096 = 0"
      unfolding x using PAGE_DOWN_aligned [of a] assms(1) by (simp add: mod_diff_right_eq [symmetric] mod_eq_0_iff_dvd dvd_diff_nat)
    have "unat (a - base) < unat len" if "unat (PAGE_DOWN a - base) < unat len"
      using page_gap [OF m assms(2) that] PAGE_DOWN_near [of a] le True unfolding x
      by (simp add: word_le_nat_alt)
    with True x small show ?thesis by auto
  next
    case False
    then have "unat (PAGE_DOWN a) < unat base"
      using small by (simp add: word_le_nat_alt)
    then have "unat (PAGE_DOWN a - base) = 2 ^ 64 + unat (PAGE_DOWN a) - unat base"
      by (simp add: unat_sub_if_size word_size word_le_nat_alt)
    with assms(3) \<open>unat (PAGE_DOWN a) < unat base\<close> False show ?thesis
      unfolding two_pow_64 by linarith
  qed
  assume lt: "unat (PAGE_DOWN a - base) < unat len"
  with iff have True: "base \<le> a" by simp
  have m: "unat (PAGE_DOWN a - base) mod 4096 = 0"
    using aligned_le_PAGE_DOWN [OF assms(1) True] PAGE_DOWN_aligned [of a] assms(1)
    by (simp add: unat_minus_nowrap mod_eq_0_iff_dvd dvd_diff_nat)
  have "unat (len - (PAGE_DOWN a - base)) = unat len - unat (PAGE_DOWN a - base)"
    using lt by (intro unat_minus_nowrap) (simp add: word_le_nat_alt)
  with page_gap [OF m assms(2) lt] show "4096 \<le> unat (len - (PAGE_DOWN a - base))" by linarith
qed

lemma rave_relocate_eq:
  "code_segment h = Some seg \<Longrightarrow>
     rave_relocate (Some h) address =
       Some (RAVE_SUCCESS, Some (h\<lparr>reloc_offset := Some (orig seg - address)\<rparr>))"
  by (simp add: rave_relocate_def window_orig_def)

lemma rave_handle_fault_eq:
  assumes "code_segment h = Some seg" "reloc_offset h = Some (orig seg - base)" "window_ok seg"
    and "unat (wlength seg) mod 4096 = 0" "unat base mod 4096 = 0" "unat base + unat (wlength seg) < 2 ^ 64"
  shows "rave_handle_fault (Some h) a =
    Some (if base \<le> a \<and> unat (a - base) < unat (wlength seg) then data seg + (PAGE_DOWN a - base) else NULL)"
proof -
  let ?x = "PAGE_DOWN a - base"
  have a1: "PAGE_DOWN a + (orig seg - base) = orig seg + ?x" by simp
  have pg: "int_to_size PAGESZ = 4096" by (simp add: PAGESZ_def)
  note e = page_in_extent [OF assms(5,4,6), of a]
  show ?thesis
  proof (cases "unat ?x < unat (wlength seg)")
    case True
    have "\<not> wlength seg - ?x < 4096"
      using e(2) [OF True] by (simp add: word_less_nat_alt)
    with True e(1) show ?thesis
      using assms(1,2) window_contains_shift [OF assms(3), of ?x] window_view_shift [OF assms(3) True]
      by (simp add: rave_handle_fault_def a1 pg)
  next
    case False
    with e(1) show ?thesis
      using assms(1,2) window_contains_shift [OF assms(3), of ?x]
      by (auto simp: rave_handle_fault_def a1)
  qed
qed

section \<open>The accessors\<close>

lemma window_view_start:
  assumes "window_ok s" "wlength s \<noteq> 0"
  shows "window_view (Some s) (orig s) = (data s, Some (wlength s))"
proof -
  have "unat (0 :: size_t) < unat (wlength s)" using assms(2) by (simp add: unat_gt_0)
  from window_view_shift [OF assms(1) this] show ?thesis by simp
qed

lemma rave_get_code_eq:
  "code_segment h = Some seg \<Longrightarrow> window_ok seg \<Longrightarrow> wlength seg \<noteq> 0 \<Longrightarrow>
     rave_get_code (Some h) = Some (data seg, Some (wlength seg))"
  by (simp add: rave_get_code_def window_orig_def window_view_start)

lemma rave_get_text_eq:
  "code_text h = Some tw \<Longrightarrow> window_ok tw \<Longrightarrow> wlength tw \<noteq> 0 \<Longrightarrow>
     rave_get_text (Some h) = Some (data tw, Some (wlength tw)) \<and> rave_get_text_offset (Some h) = Some (orig tw)"
  by (simp add: rave_get_text_def rave_get_text_offset_def window_orig_def window_view_start)

end
