(* ===== verification/Rave_Analysis.thy ===== *)
theory Rave_Analysis
  imports Rave_Code Transform_Layout
begin

text \<open>
  What \<open>rave_init\<close> leaves in a handle: the functions the callback has added, all of them inside
  the text and well-formed, and the blocks the handle holds. \<open>rave_close\<close> gives those back.
\<close>

section \<open>Ownership across calls\<close>

lemma owns_compose:
  "owns B L ps w \<Longrightarrow> owns (set (live w)) (live_set w) qs w' \<Longrightarrow> owns B L (qs @ ps) w'"
  unfolding owns_def by auto

lemma owns_leak: "owns B L (p # ps) w \<Longrightarrow> owns B (insert p L) ps w"
  unfolding owns_def by auto

section \<open>A function of the metadata\<close>

text \<open>The text is small and lies low enough that the drifting addresses do not wrap.\<close>

definition text_small :: "window \<Rightarrow> bool" where
  "text_small tw \<longleftrightarrow>
     unat (wlength tw) \<le> 2 ^ 31 \<and> unat (orig tw) + 2 * unat (wlength tw) < 2 ^ 64"

text \<open>A function the transformer has accepted: it lies in the text, and this is what its code held.\<close>

definition analysed :: "'i dr_api \<Rightarrow> window \<Rightarrow> (ptr \<Rightarrow> byte) \<Rightarrow> 'i transformable \<Rightarrow> bool" where
  "analysed api tw m tf \<longleftrightarrow>
     func_within tw (tf_record tf) \<and>
     (\<exists>skip stop cs. function_found api m (fst (window_view (Some tw) (faddr (tf_record tf))))
        (tf_record tf) tf skip stop cs)"

lemma function_found_nonempty:
  assumes "function_found api m bytes f tf skip stop cs"
  shows "bytes < OFFSET bytes (flen f)"
proof -
  obtain walk og where s: "set_found api (test_instr_prologue api) m (OFFSET bytes (flen f)) bytes (faddr f)
      skip (prologue tf) stop walk og" and n: "2 \<le> tf_slots tf"
    using assms unfolding function_found_def by blast
  have "skip @ insns (prologue tf) @ stop \<noteq> []"
    using n by (auto simp: tf_slots_def)
  with s show ?thesis
    by (cases "skip @ insns (prologue tf) @ stop") (auto simp: set_found_def scan_found_def)
qed

lemma found_within:
  assumes "window_ok tw" "window_contains (Some tw) (faddr f)" "window_contains (Some tw) (faddr f + flen f)"
    and "function_found api m (fst (window_view (Some tw) (faddr f))) f tf skip stop cs"
  shows "func_within tw f"
proof -
  let ?k = "faddr f - orig tw"
  have i: "unat ?k < unat (wlength tw)" "unat (?k + flen f) < unat (wlength tw)"
    using window_contains_shift [OF assms(1), of ?k] window_contains_shift [OF assms(1), of "?k + flen f"]
      assms(2,3) by (simp_all add: algebra_simps)
  have v: "fst (window_view (Some tw) (faddr f)) = data tw + ?k"
    using window_view_shift [OF assms(1) i(1)] by simp
  have d: "unat (data tw + x) = unat (data tw) + unat x" if "unat x < unat (wlength tw)" for x
    using assms(1) that by (intro unat_plus_nowrap) (simp add: window_ok_def)
  have "data tw + ?k < data tw + (?k + flen f)"
    using function_found_nonempty [OF assms(4)] by (simp add: v OFFSET_def add.assoc)
  then have lt: "unat ?k < unat (?k + flen f)"
    using d [OF i(1)] d [OF i(2)] by (simp add: word_less_nat_alt)
  then have le: "?k \<le> ?k + flen f" by (simp add: word_le_nat_alt)
  from unat_minus_nowrap [OF this] have fl: "unat (flen f) = unat (?k + flen f) - unat ?k" by simp
  have "orig tw \<le> faddr f"
    using assms(1,2) by (simp add: window_contains_iff word_le_nat_alt)
  moreover have "0 < flen f" using fl lt by (simp add: word_less_nat_alt)
  moreover have "unat ?k + unat (flen f) \<le> unat (wlength tw)" using fl lt i(2) by linarith
  ultimately show ?thesis by (simp add: func_within_def)
qed

lemma within_bounds:
  assumes "window_ok tw" "text_small tw" "func_within tw f"
  shows "func_bounds f (fst (window_view (Some tw) (faddr f)))"
proof -
  let ?k = "faddr f - orig tw"
  have w: "orig tw \<le> faddr f" "unat ?k + unat (flen f) \<le> unat (wlength tw)" "0 < unat (flen f)"
    using assms(3) by (auto simp: func_within_def word_less_nat_alt)
  have "unat ?k < unat (wlength tw)" using w by linarith
  from window_view_shift [OF assms(1) this]
  have v: "fst (window_view (Some tw) (faddr f)) = data tw + ?k" by simp
  have b: "unat (data tw) + unat (wlength tw) < 2 ^ 64" using assms(1) unfolding window_ok_def by blast
  have dk: "unat (data tw + ?k) = unat (data tw) + unat ?k"
    using w b by (intro unat_plus_nowrap) linarith
  have fa: "unat (faddr f) = unat (orig tw) + unat ?k"
    using unat_minus_nowrap [OF w(1)] w(1) by (simp add: word_le_nat_alt)
  have s: "unat (wlength tw) \<le> 2 ^ 31" "unat (orig tw) + 2 * unat (wlength tw) < 2 ^ 64"
    using assms(2) unfolding text_small_def by blast+
  show ?thesis
    unfolding func_bounds_def v dk fa using s w b by (intro conjI; linarith)
qed

text \<open>An accepted function is well-formed; with a single candidate set it is ready to be permuted.\<close>

lemma analysed_wf:
  assumes "dr_advances api" "window_ok tw" "text_small tw" "analysed api tw m tf"
  shows "tf_wf api tf" "tf_sorted tf"
  using assms function_found_wf within_bounds unfolding analysed_def by blast+

lemma block_ok_inner:
  assumes "block_ok bl p n" "unat k + j \<le> n"
  shows "block_ok bl (p + k) j"
proof -
  obtain b s where b: "(b, s) \<in> set bl" "unat (p - b) + n \<le> s"
    using assms(1) by (auto simp: block_ok_def)
  have "unat (p + k - b) \<le> unat (p - b) + unat k"
    using mod_less_eq_dividend [of "unat (p - b) + unat k" "2 ^ 64"]
    by (simp add: unat_word_ariths(1) [of "p - b" k, symmetric, simplified] diff_add_eq)
  with b assms(2) show ?thesis
    unfolding block_ok_def by (intro bexI [of _ "(b, s)"]) auto
qed

lemma inside_block:
  assumes "window_ok s" "window_ok t" "window_inside t s" "(data s, unat (wlength s)) \<in> set bl"
  shows "block_ok bl (data t) (unat (wlength t))"
proof -
  have "block_ok bl (data s) (unat (wlength s))"
    unfolding block_ok_def using assms(4) by (rule bexI [rotated]) simp
  from block_ok_inner [OF this] assms(3) show ?thesis by (simp add: window_inside_def)
qed

lemma analysed_ready:
  assumes "dr_advances api" "window_ok tw" "text_small tw"
    and "func_within tw (tf_record tf)"
    and "function_found api m (fst (window_view (Some tw) (faddr (tf_record tf)))) (tf_record tf) tf skip stop [c]"
    and "block_ok (live w) (data tw) (unat (wlength tw))" "dr_keeps_length api (tf_insns tf)"
  shows "tf_ready api tw w tf"
proof -
  let ?f = "tf_record tf"
  let ?bytes = "fst (window_view (Some tw) (faddr ?f))"
  note fb = within_bounds [OF assms(2-4)]
  have fw: "function_window tw ?f = local_window ?f ?bytes"
    by (simp add: function_window_def local_window_def)
  note ok = function_window_ok [OF assms(2,4)]
  have "unat (faddr ?f - orig tw) + unat (flen ?f) \<le> unat (wlength tw)"
    using assms(4) unfolding func_within_def by blast
  then have "block_ok (live w) (data (function_window tw ?f)) (unat (flen ?f))"
    unfolding ok(2) using block_ok_inner [OF assms(6)] by blast
  then have "tf_placed api (function_window tw ?f) tf w"
    using ok(1) single_candidate_within [OF assms(1,5) fb]
    by (simp add: tf_placed_def fw) (simp add: local_window_def)
  then show ?thesis
    using function_found_wf(1) [OF assms(1,5) fb] assms(7) by (simp add: tf_ready_def)
qed

section \<open>The callback\<close>

text \<open>
  What every call of the callback keeps: the handle changes in its transformer only, no byte of
  memory changes, every accepted function is as it was found, and its blocks are the handle's,
  beside the blocks \<open>ps\<close> it had before. A leaked transformable ends up among the foreign blocks \<open>L\<close>.
\<close>

definition analysis_inv ::
  "'i dr_api \<Rightarrow> 'i rave_handle \<Rightarrow> ptr \<Rightarrow> window \<Rightarrow> blocks \<Rightarrow> ptr set \<Rightarrow> ptr list \<Rightarrow> (ptr \<Rightarrow> byte) \<Rightarrow>
     'i rave_handle \<times> world \<Rightarrow> bool" where
  "analysis_inv api h0 tp tw B L0 ps m s \<longleftrightarrow>
     (\<exists>t L. fst s = h0\<lparr>h_transform := Some (tp, Some t)\<rparr> \<and> mem (snd s) = m \<and>
        list_all (analysed api tw m) (transformables t) \<and> L0 \<subseteq> L \<and> NULL \<notin> L \<and>
        owns B L (concat (map tf_hold (transformables t)) @ ps) (snd s))"

lemma owns_not_NULL: "owns B L ps w \<Longrightarrow> NULL \<notin> L \<Longrightarrow> NULL \<notin> live_set w"
  by (auto simp: owns_def)

lemma process_function_keeps:
  fixes api :: "'i dr_api"
  assumes "code_text h0 = Some tw" "window_ok tw"
  shows "callback_keeps (analysis_inv api h0 tp tw B L0 ps m) (process_function fuel api)"
  unfolding callback_keeps_def
proof (intro allI impI)
  fix f :: func and s s' :: "'i rave_handle \<times> world" and rc
  assume inv: "analysis_inv api h0 tp tw B L0 ps m s"
  assume run: "process_function fuel api f s = Some (rc, s')"
  obtain h w where s: "s = (h, w)" by fastforce
  obtain t L where t: "h = h0\<lparr>h_transform := Some (tp, Some t)\<rparr>" "mem w = m"
      "list_all (analysed api tw m) (transformables t)" "L0 \<subseteq> L" "NULL \<notin> L"
      "owns B L (concat (map tf_hold (transformables t)) @ ps) w"
    using inv by (auto simp: analysis_inv_def s)
  let ?bytes = "fst (window_view (Some tw) (faddr f))"
  show "analysis_inv api h0 tp tw B L0 ps m s'"
  proof (cases "window_contains (Some tw) (faddr f) \<and> window_contains (Some tw) (faddr f + flen f)")
    case False
    then have "s' = s" using run by (auto simp: process_function_def s t(1) assms(1))
    with inv show ?thesis by simp
  next
    case True
    then obtain rc1 t1 w1 where
      add: "transform_add_function fuel api t f ?bytes w = Some (rc1, t1, w1)"
      and s': "s' = (h0\<lparr>h_transform := Some (tp, Some t1)\<rparr>, w1)"
      using run by (auto simp: process_function_def s t(1) assms(1) bind_eq_Some_conv)
    note comp = owns_compose [OF t(6)]
    from add_function_spec [OF add owns_not_NULL [OF t(6,5)]]
    consider
        (added) tf skip stop cs where "t1 = t\<lparr>transformables := transformables t @ [tf]\<rparr>" "mem w1 = mem w"
          "function_found api (mem w) ?bytes f tf skip stop cs"
          "owns (set (live w)) (live_set w) (tf_hold tf) w1"
      | (rejected) "t1 = t" "mem w1 = mem w" "owns (set (live w)) (live_set w) [] w1"
      | (leaked) lp where "t1 = t" "mem w1 = mem w" "owns (set (live w)) (live_set w) [lp] w1"
      unfolding add_post_def by (cases "rc1 = RAVE_SUCCESS") auto
    then show ?thesis
    proof cases
      case added
      have "tf_record tf = f" using added(3) by (simp add: function_found_def)
      then have "analysed api tw m tf"
        using added(3) t(2) found_within [OF assms(2) _ _ added(3)] True by (auto simp: analysed_def)
      moreover have "owns B L (concat (map tf_hold (transformables t1)) @ ps) w1"
        using comp [OF added(4)] by (subst owns_perm) (auto simp: added(1))
      ultimately show ?thesis
        unfolding analysis_inv_def using t added(1,2) s' by (intro exI [of _ t1] exI [of _ L]) simp
    next
      case rejected
      from comp [OF rejected(3)] rejected t s' show ?thesis
        unfolding analysis_inv_def by (intro exI [of _ t1] exI [of _ L]) simp
    next
      case leaked
      have "owns B (insert lp L) (concat (map tf_hold (transformables t)) @ ps) w1"
        using comp [OF leaked(3)] owns_leak by simp
      moreover have "lp \<noteq> NULL" using leaked(3) owns_head by blast
      ultimately show ?thesis
        unfolding analysis_inv_def using leaked t s' by (intro exI [of _ t1] exI [of _ "insert lp L"]) auto
    qed
  qed
qed

text \<open>The callback never reports a failure, and it rejects a function that ends where the text ends.\<close>

lemma process_function_status: "process_function fuel api f s = Some (rc, s') \<Longrightarrow> rc = RAVE_SUCCESS"
  by (auto simp: process_function_def case_prod_beta Let_def bind_eq_Some_conv split: if_splits option.splits)

lemma process_function_at_end:
  assumes "code_text h = Some tw" "faddr f + flen f = orig tw + wlength tw"
  shows "process_function fuel api f (h, w) = Some (RAVE_SUCCESS, h, w)"
proof -
  have "\<not> window_contains (Some tw) (orig tw + wlength tw)"
    by (simp add: window_contains_def CONTAINS_def OFFSET_def)
  with assms show ?thesis by (simp add: process_function_def)
qed

section \<open>Closing\<close>

text \<open>Of the blocks a function holds, the transformable itself is the first.\<close>

lemma tf_ptr_in_hold: "tf_ptr tf \<in> set (tf_hold tf)"
  by (simp add: tf_hold_def)

lemma insert_split:
  "H = insert p T \<Longrightarrow> p \<notin> T \<Longrightarrow> S \<subseteq> C \<Longrightarrow> H \<inter> C = {} \<Longrightarrow> P = C - S \<Longrightarrow>
     insert p P = (H \<union> C) - (T \<union> S)"
  by blast

lemma hold_split:
  assumes "distinct (concat (map tf_hold ts))"
  shows "set (map tf_ptr ts) = set (concat (map tf_hold ts)) - set (concat (map (tl \<circ> tf_hold) ts))"
  using assms
proof (induction ts)
  case (Cons tf ts)
  have hold: "set (tf_hold tf) = insert (tf_ptr tf) (set (tl (tf_hold tf)))" "tf_ptr tf \<notin> set (tl (tf_hold tf))"
    using Cons.prems by (simp_all add: tf_hold_def)
  have sub: "set (concat (map (tl \<circ> tf_hold) ts)) \<subseteq> set (concat (map tf_hold ts))"
    by (auto simp: tf_hold_def)
  have apart: "set (tf_hold tf) \<inter> set (concat (map tf_hold ts)) = {}"
    and "distinct (concat (map tf_hold ts))"
    using Cons.prems by auto
  then have "set (map tf_ptr ts) = set (concat (map tf_hold ts)) - set (concat (map (tl \<circ> tf_hold) ts))"
    using Cons.IH by blast
  from insert_split [OF hold sub apart this] show ?case by simp
qed simp

text \<open>
  What the operating system promises of \<open>munmap\<close>: the mapping it is given is gone when it succeeds and
  stays when it fails, and the heap is not touched.
\<close>

definition munmap_frame :: "os_api \<Rightarrow> bool" where
  "munmap_frame os \<longleftrightarrow>
     (\<forall>p n w. case os_munmap os p n w of (rc, w') \<Rightarrow>
        live w' = live w \<and> mappings w' = (if rc = 0 then removeAll (p, n) (mappings w) else mappings w))"

text \<open>
  The file of a binary after it was closed: it is unmapped, unless the call of \<open>munmap\<close> fails, which
  leaves it mapped and the binary with its address.
\<close>

definition file_closed :: "os_api \<Rightarrow> binary \<Rightarrow> binary \<Rightarrow> world \<Rightarrow> world \<Rightarrow> bool" where
  "file_closed os b b' w w' \<longleftrightarrow>
     (let p = bin_mapping b; n = int_to_size (file_size b)
      in if p = NULL then bin_mapping b' = NULL \<and> mappings w' = mappings w
         else
           \<exists>v. mappings v = mappings w \<and>
             (if fst (os_munmap os p n v) = 0
              then bin_mapping b' = NULL \<and> mappings w' = removeAll (p, n) (mappings w)
              else bin_mapping b' = p \<and> mappings w' = mappings w))"

lemma binary_close_frame:
  assumes "munmap_frame os"
  shows "\<exists>b' w'. binary_close os (Some b) w = (RAVE_SUCCESS, Some b', w') \<and> live w' = live w \<and>
    bin_elf b' = NULL \<and> file_closed os b b' w w'"
proof -
  let ?n = "int_to_size (file_size b)"
  obtain rc w1 where m: "os_munmap os (bin_mapping b) ?n w = (rc, w1)" by fastforce
  have "case os_munmap os (bin_mapping b) ?n w of (rc, w') \<Rightarrow> live w' = live w \<and>
      mappings w' = (if rc = 0 then removeAll (bin_mapping b, ?n) (mappings w) else mappings w)"
    using assms unfolding munmap_frame_def by (elim allE)
  then have w1: "live w1 = live w"
    "mappings w1 = (if rc = 0 then removeAll (bin_mapping b, ?n) (mappings w) else mappings w)"
    by (simp_all add: m)
  show ?thesis
    using m w1 by (auto simp: binary_close_def Let_def file_closed_def intro!: exI [of _ w])
qed

text \<open>Giving back memory leaves the mappings alone.\<close>

lemma free_mappings: "rave_free p w = Some w' \<Longrightarrow> mappings w' = mappings w"
  by (auto simp: rave_free_def split: if_splits)

lemma close_chain_mappings: "close_chain xs w = Some w' \<Longrightarrow> mappings w' = mappings w"
proof (induction xs arbitrary: w)
  case (Cons x xs)
  then show ?case
    by (cases x) (auto simp: bind_eq_Some_conv instr_destroy_def instr_touch_def log_fault_def
        dest: free_mappings split: if_splits)
qed simp

lemma close_epilogues_mappings: "close_epilogues ss w = Some w' \<Longrightarrow> mappings w' = mappings w"
proof (induction ss arbitrary: w)
  case (Cons s ss)
  then show ?case
    by (fastforce simp: bind_eq_Some_conv instr_set_close_def instr_set_destroy_def
        dest: free_mappings close_chain_mappings split: if_splits)
qed simp

lemma close_transformables_mappings: "close_transformables tfs w = Some w' \<Longrightarrow> mappings w' = mappings w"
proof (induction tfs arbitrary: w)
  case (Cons tf tfs)
  then show ?case
    by (fastforce simp: bind_eq_Some_conv transformable_close_def
        dest: free_mappings close_chain_mappings close_epilogues_mappings split: option.splits)
qed simp

lemma rave_close_owned:
  assumes "code_segment h = Some seg" "h_metadata h = Some (mp, Some m)" "h_binary h = Some b"
    and "h_transform h = Some (tp, Some t)" "munmap_frame (p_os pf)"
    and "owns B L (concat (map tf_hold (transformables t)) @ [data seg, mp, tp]) w"
  shows "\<exists>rc h' w' d' b'. rave_close pf (Some h) w d = Some (rc, Some h', w', d') \<and>
    rc = (if fst (dwarf_finish (p_dwarf pf) (dbg m) (lib d)) = DW_DLV_OK then 0 else errno_code RAVE_EDWARF) \<and>
    d' = d\<lparr>lib := snd (dwarf_finish (p_dwarf pf) (dbg m) (lib d))\<rparr> \<and>
    owns B L (map tf_ptr (transformables t)) w' \<and>
    code_segment h' = code_segment h \<and> h_binary h' = Some b' \<and> bin_elf b' = NULL \<and> file_closed (p_os pf) b b' w w'"
proof -
  let ?tfs = "concat (map tf_hold (transformables t))"
  have "owns B L (data seg # mp # ?tfs @ [tp]) w"
    using assms(6) by (subst (asm) owns_perm) simp_all
  then obtain w1 where w1: "rave_free (data seg) w = Some w1" "owns B L (mp # ?tfs @ [tp]) w1"
      "data seg \<noteq> NULL"
    using owns_free_head owns_head by meson
  then obtain w2 where w2: "rave_free mp w1 = Some w2" "owns B L (?tfs @ [tp]) w2" "mp \<noteq> NULL"
    using owns_free_head owns_head by meson
  obtain b' w3 where w3: "binary_close (p_os pf) (Some b) w2 = (RAVE_SUCCESS, Some b', w3)" "live w3 = live w2"
      "bin_elf b' = NULL" "file_closed (p_os pf) b b' w2 w3"
    using binary_close_frame [OF assms(5)] by blast
  have "owns B L (?tfs @ [tp]) w3" using w2(2) w3(2) owns_world by blast
  then obtain w4 where w4: "close_transformables (transformables t) w3 = Some w4"
      "owns B L (map tf_ptr (transformables t) @ [tp]) w4"
    using close_transformables_owned by blast
  then have "owns B L (tp # map tf_ptr (transformables t)) w4"
    by (subst (asm) owns_perm) simp_all
  then obtain w5 where w5: "rave_free tp w4 = Some w5" "owns B L (map tf_ptr (transformables t)) w5" "tp \<noteq> NULL"
    using owns_free_head owns_head by meson
  have maps: "mappings w2 = mappings w" "mappings w5 = mappings w3"
    using w1(1) w2(1) w4(1) w5(1) by (auto dest!: free_mappings close_transformables_mappings)
  then have closed: "file_closed (p_os pf) b b' w w5" using w3(4) by (simp only: file_closed_def maps)
  let ?r = "dwarf_finish (p_dwarf pf) (dbg m) (lib d)"
  have mc: "metadata_close (p_dwarf pf) mp (Some m) d =
      Some (if fst ?r = DW_DLV_OK then RAVE_SUCCESS else RAVE_EDWARF, d\<lparr>lib := snd ?r\<rparr>)"
    using w2(3) by (simp add: metadata_close_def case_prod_beta Let_def)
  show ?thesis
    using assms(1-4) w1 w2 w3 w4 w5 mc closed
    by (auto simp: rave_close_def window_get_def metadata_destroy_def transform_close_def transform_destroy_def)
qed

section \<open>Initialising\<close>

text \<open>The handle when its code is mapped, before any function is analysed.\<close>

definition staged :: "'i rave_handle \<Rightarrow> ptr \<Rightarrow> metadata \<Rightarrow> ptr \<Rightarrow> binary \<Rightarrow> 'i rave_handle" where
  "staged h mp m tp b =
     h\<lparr>h_binary := Some b, h_metadata := Some (mp, Some m),
       h_transform := Some (tp, Some \<lparr>tr_ptr = tp, transformables = []\<rparr>)\<rparr>"

text \<open>The stages of a successful \<open>rave_init\<close>.\<close>

definition init_stages ::
  "nat \<Rightarrow> ('i, 'd) platform \<Rightarrow> 'i rave_handle \<Rightarrow> string \<Rightarrow> world \<Rightarrow> 'd dwarf \<Rightarrow>
     ptr \<Rightarrow> ptr \<Rightarrow> binary \<Rightarrow> world \<Rightarrow> elf_section \<Rightarrow> elf_segment \<Rightarrow> metadata \<Rightarrow> 'd dwarf \<Rightarrow>
     'i rave_handle \<Rightarrow> world \<Rightarrow> bool" where
  "init_stages fuel pf h filename w d mp tp b w3 sec segment m d1 h6 w4 \<longleftrightarrow>
     (\<exists>w1 w2. metadata_create w = (mp, w1) \<and> mp \<noteq> NULL \<and>
        transform_create w1 = (tp, w2) \<and> tp \<noteq> NULL \<and>
        binary_init (p_os pf) (p_elf pf) (Option.bind (h_binary h) bin_header) filename w2 =
          (RAVE_SUCCESS, b, w3)) \<and>
     binary_find_section (p_elf pf) b ''.text'' = Some (RAVE_SUCCESS, Some sec) \<and>
     binary_find_segment (p_elf pf) b (int_to_size (section_address sec)) =
       Some (RAVE_SUCCESS, Some segment) \<and>
     metadata_init (p_dwarf pf) mp None (h_ptr h) b d = (RAVE_SUCCESS, Some m, d1) \<and>
     dr_set_isa_mode (p_dr pf) \<and>
     map_code_pages (staged h mp m tp b) sec segment w3 = Some (RAVE_SUCCESS, h6, w4)"

lemma init_transform_ok:
  "init_transform api tp = (RAVE_SUCCESS, tc) \<Longrightarrow>
     dr_set_isa_mode api \<and> tc = Some \<lparr>tr_ptr = tp, transformables = []\<rparr>"
  by (auto simp: init_transform_def transform_init_def split: if_splits)

lemma rave_init_err_status:
  "rave_init_err pf rc h w d = Some (rc', h', w', d') \<Longrightarrow> rc' = rc"
  by (auto simp: rave_init_err_def bind_eq_Some_conv)

lemma rave_init_stages:
  assumes "rave_init fuel pf (Some h) filename w d = Some (RAVE_SUCCESS, h', w', d')"
  obtains mp tp b w3 sec segment m d1 h6 w4 h1 where
    "init_stages fuel pf h filename w d mp tp b w3 sec segment m d1 h6 w4"
    "foreach_function (p_dwarf pf) m (process_function fuel (p_dr pf)) d1 (h6, w4) =
       Some (RAVE_SUCCESS, d', (h1, w'))" "h' = Some h1"
proof -
  obtain mp w1 where c1: "metadata_create w = (mp, w1)" by fastforce
  obtain tp w2 where c2: "transform_create w1 = (tp, w2)" by fastforce
  obtain rc b w3 where bi: "binary_init (p_os pf) (p_elf pf) (Option.bind (h_binary h) bin_header)
      filename w2 = (rc, b, w3)" by (metis prod_cases3)
  have nz: "mp \<noteq> NULL" "tp \<noteq> NULL" "rc = RAVE_SUCCESS"
    using assms by (auto simp: rave_init_def c1 c2 bi Let_def dest: rave_init_err_status split: if_splits)
  note step = rave_init_def c1 c2 bi nz Let_def bind_eq_Some_conv
  obtain sec where sec: "binary_find_section (p_elf pf) b ''.text'' = Some (RAVE_SUCCESS, Some sec)"
    using assms by (auto simp: step dest: rave_init_err_status split: if_splits)
  note step = step sec
  obtain segment where seg: "binary_find_segment (p_elf pf) b (int_to_size (section_address sec)) =
      Some (RAVE_SUCCESS, Some segment)"
    using assms by (auto simp: step split: if_splits)
  note step = step seg
  obtain rc2 mc d1 where mi: "metadata_init (p_dwarf pf) mp None (h_ptr h) b d = (rc2, mc, d1)"
    by (metis prod_cases3)
  obtain rc3 tc where it: "init_transform (p_dr pf) tp = (rc3, tc)" by fastforce
  note step = step mi it
  have ok: "rc2 = RAVE_SUCCESS" "rc3 = RAVE_SUCCESS"
    using assms by (auto simp: step dest: rave_init_err_status split: if_splits)
  note tc = init_transform_ok [OF it [unfolded ok(2)]]
  show thesis
    using assms that tc
    by (auto simp: step ok init_stages_def staged_def split: if_splits)
qed

text \<open>What the operating system promises of \<open>mmap\<close>, and the file of its text section.\<close>

definition mmap_frame :: "os_api \<Rightarrow> bool" where
  "mmap_frame os \<longleftrightarrow> (\<forall>n fd w. live (snd (os_mmap os n fd w)) = live w)"

definition text_sane :: "elf_api \<Rightarrow> bool" where
  "text_sane api \<longleftrightarrow>
     (\<forall>b sec segment.
        binary_find_section api b ''.text'' = Some (RAVE_SUCCESS, Some sec) \<longrightarrow>
        binary_find_segment api b (int_to_size (section_address sec)) =
          Some (RAVE_SUCCESS, Some segment) \<longrightarrow>
        text_placed sec segment)"

lemma map_file_frame:
  assumes "mmap_frame os" "map_file os b filename w = (rc, b', w')"
  shows "live w' = live w"
proof -
  have l: "live w1 = live w" if "os_mmap os n fd w = (p, w1)" for n fd p w1
    using assms(1) that unfolding mmap_frame_def by (metis snd_conv)
  show ?thesis
    using assms(2) by (auto simp: map_file_def Let_def split: if_splits option.splits prod.splits dest: l)
qed

lemma binary_init_frame:
  assumes "mmap_frame os" "binary_init os api old filename w = (rc, b, w')"
  shows "live w' = live w"
proof -
  obtain rc1 w1 where i: "init_libelf api w = (rc1, w1)" by fastforce
  have w1: "live w1 = live w"
    using i by (auto simp: init_libelf_def Let_def split: if_splits)
  obtain rc2 b2 w2 where m: "map_file os \<lparr>bin_elf = NULL, bin_header = old, bin_mapping = NULL, file_size = 0\<rparr>
      filename w1 = (rc2, b2, w2)" by (metis prod_cases3)
  have "w' = w1 \<or> w' = w2"
    using assms(2) by (auto simp: binary_init_def Let_def i m split: if_splits option.splits)
  then show ?thesis
    using w1 map_file_frame [OF assms(1) m] by auto
qed

text \<open>What holds of a handle from a successful \<open>rave_init\<close> on, beside the foreign blocks \<open>K\<close>.\<close>

definition handle_inv :: "'i rave_handle \<Rightarrow> window \<Rightarrow> window \<Rightarrow> 'i transform \<Rightarrow> ptr set \<Rightarrow> world \<Rightarrow> bool" where
  "handle_inv h seg tw t K w \<longleftrightarrow>
     code_segment h = Some seg \<and> code_text h = Some tw \<and>
     window_ok seg \<and> window_ok tw \<and> window_inside tw seg \<and> unat (wlength seg) mod 4096 = 0 \<and>
     (data seg, unat (wlength seg)) \<in> set (live w) \<and>
     (\<exists>mp m b tp B L. h_metadata h = Some (mp, Some m) \<and> h_binary h = Some b \<and>
        h_transform h = Some (tp, Some t) \<and> K \<subseteq> L \<and> NULL \<notin> L \<and>
        owns B L (concat (map tf_hold (transformables t)) @ [data seg, mp, tp]) w)"

lemma owns_claim:
  "owns B L ps w \<Longrightarrow> p \<in> L \<Longrightarrow> p \<noteq> NULL \<Longrightarrow> owns {b \<in> B. fst b \<noteq> p} (L - {p}) (p # ps) w"
  unfolding owns_def by force

lemma owns_malloc_foreign:
  assumes "owns B L ps w" "fresh_block (live w) p n" "live w' = (p, n) # live w" "p \<noteq> NULL"
  shows "owns (insert (p, n) B) (insert p L) ps w'"
proof -
  have "p \<notin> live_set w"
    using assms(2) by (auto simp: fresh_block_iff live_set_def list_all_iff)
  with assms show ?thesis by (auto simp: owns_def live_set_def)
qed

lemma stages_inv:
  assumes "init_stages fuel pf h filename w d mp tp b w3 sec segment m d1 h6 w4"
    and "mmap_frame (p_os pf)" "NULL \<notin> live_set w" "text_placed sec segment"
  obtains mapping where "mapping \<noteq> NULL" "h6 = (staged h mp m tp b)\<lparr>
      code_segment := Some (segment_window segment mapping), code_text := Some (text_window sec segment mapping)\<rparr>"
    "window_ok (segment_window segment mapping)" "mapping \<notin> live_set w"
    "analysis_inv api h6 tp (text_window sec segment mapping)
       (insert (mapping, unat (PAGE_UP (segment_memsz segment))) (set (live w)))
       (insert mapping (live_set w)) [mp, tp] (mem w4) (h6, w4)"
proof -
  let ?len = "unat (PAGE_UP (segment_memsz segment))"
  obtain w1 w2 where st: "metadata_create w = (mp, w1)" "mp \<noteq> NULL" "transform_create w1 = (tp, w2)" "tp \<noteq> NULL"
      "binary_init (p_os pf) (p_elf pf) (Option.bind (h_binary h) bin_header) filename w2 = (RAVE_SUCCESS, b, w3)"
      "map_code_pages (staged h mp m tp b) sec segment w3 = Some (RAVE_SUCCESS, h6, w4)"
    using assms(1) unfolding init_stages_def by blast
  have "owns (set (live w)) (live_set w) [tp, mp] w2"
    using st owns_malloc owns_self [OF assms(3)] unfolding metadata_create_def transform_create_def by blast
  then have "owns (set (live w)) (live_set w) [mp, tp] w2"
    by (subst (asm) owns_perm) simp_all
  then have own3: "owns (set (live w)) (live_set w) [mp, tp] w3"
    using binary_init_frame [OF assms(2) st(5)] owns_world by blast
  obtain mapping where mp: "mapping \<noteq> NULL" "h6 = (staged h mp m tp b)\<lparr>
      code_segment := Some (segment_window segment mapping), code_text := Some (text_window sec segment mapping)\<rparr>"
      "live w4 = (mapping, ?len) # live w3" "fresh_block (live w3) mapping ?len"
    using map_code_pages_SomeD [OF st(6)] by blast
  have own4: "owns (insert (mapping, ?len) (set (live w))) (insert mapping (live_set w)) [mp, tp] w4"
    using owns_malloc_foreign [OF own3 mp(4,3,1)] .
  have fresh: "mapping \<notin> live_set w"
    using mp(4) own3 by (auto simp: fresh_block_iff live_set_def list_all_iff owns_def)
  have "window_ok (segment_window segment mapping)"
    by (rule segment_window_ok [OF mp(1,4)]) (use assms(4) in \<open>simp add: text_placed_def Let_def\<close>)
  moreover have "analysis_inv api h6 tp (text_window sec segment mapping) (insert (mapping, ?len) (set (live w)))
      (insert mapping (live_set w)) [mp, tp] (mem w4) (h6, w4)"
    unfolding analysis_inv_def using own4 assms(3) mp(1)
    by (intro exI [of _ "\<lparr>tr_ptr = tp, transformables = []\<rparr>"] exI [of _ "insert mapping (live_set w)"])
      (auto simp: mp(2) staged_def)
  ultimately show thesis using that mp(1,2) fresh by blast
qed

text \<open>However the walk ends, the handle it leaves is sound.\<close>

lemma walk_inv:
  assumes "init_stages fuel pf h filename w d mp tp b w3 sec segment m d1 h6 w4"
    and each: "foreach_function (p_dwarf pf) m (process_function fuel (p_dr pf)) d1 (h6, w4) =
       Some (rc, d', (h1, w'))"
    and "mmap_frame (p_os pf)" "text_sane (p_elf pf)" "NULL \<notin> live_set w"
  shows "\<exists>seg tw t. handle_inv h1 seg tw t (live_set w) w' \<and>
    list_all (analysed (p_dr pf) tw (mem w')) (transformables t)"
proof -
  note st = assms(1)
  have placed: "text_placed sec segment"
    using st assms(4) unfolding init_stages_def text_sane_def by blast
  let ?len = "unat (PAGE_UP (segment_memsz segment))"
  obtain mapping where mp: "mapping \<noteq> NULL" "h6 = (staged h mp m tp b)\<lparr>
      code_segment := Some (segment_window segment mapping), code_text := Some (text_window sec segment mapping)\<rparr>"
    "window_ok (segment_window segment mapping)" "mapping \<notin> live_set w"
    "analysis_inv (p_dr pf) h6 tp (text_window sec segment mapping)
       (insert (mapping, ?len) (set (live w))) (insert mapping (live_set w)) [mp, tp] (mem w4) (h6, w4)"
    using stages_inv [OF st assms(3,5) placed] by blast
  let ?seg = "segment_window segment mapping" and ?tw = "text_window sec segment mapping"
  have tok: "window_ok ?tw" using text_window_ok [OF placed mp(3)] .
  have "code_text h6 = Some ?tw" by (simp add: mp(2))
  from dw.each_keeps [OF each process_function_keeps [OF this tok] mp(5)]
  have "analysis_inv (p_dr pf) h6 tp ?tw (insert (mapping, ?len) (set (live w)))
      (insert mapping (live_set w)) [mp, tp] (mem w4) (h1, w')" .
  then obtain t L where t: "h1 = h6\<lparr>h_transform := Some (tp, Some t)\<rparr>" "mem w' = mem w4"
      "list_all (analysed (p_dr pf) ?tw (mem w4)) (transformables t)"
      "insert mapping (live_set w) \<subseteq> L" "NULL \<notin> L"
      "owns (insert (mapping, ?len) (set (live w))) L (concat (map tf_hold (transformables t)) @ [mp, tp]) w'"
    unfolding analysis_inv_def by auto
  have block: "(mapping, ?len) \<in> set (live w')" using t(6) by (auto simp: owns_def)
  have "mapping \<in> L" using t(4) by simp
  from owns_claim [OF t(6) this mp(1)]
  have own: "owns {b \<in> insert (mapping, ?len) (set (live w)). fst b \<noteq> mapping} (L - {mapping})
      (concat (map tf_hold (transformables t)) @ [mapping, mp, tp]) w'"
    by (subst owns_perm [of _ "mapping # concat (map tf_hold (transformables t)) @ [mp, tp]"]) simp_all
  have "handle_inv h1 ?seg ?tw t (live_set w) w'"
    unfolding handle_inv_def
  proof (intro conjI exI)
    show "live_set w \<subseteq> L - {mapping}" "NULL \<notin> L - {mapping}" using t(4,5) mp(4) by auto
    show "owns {b \<in> insert (mapping, ?len) (set (live w)). fst b \<noteq> mapping} (L - {mapping})
        (concat (map tf_hold (transformables t)) @ [data ?seg, mp, tp]) w'"
      using own by (simp add: segment_window_def)
  qed (use t(1) mp(2,3) tok text_window_inside [OF placed] block PAGE_UP_aligned in
      \<open>simp_all add: staged_def segment_window_def\<close>)
  with t(2,3) show ?thesis by auto
qed

lemma rave_init_inv:
  assumes "rave_init fuel pf (Some h) filename w d = Some (RAVE_SUCCESS, h', w', d')"
    and "mmap_frame (p_os pf)" "text_sane (p_elf pf)" "NULL \<notin> live_set w"
  shows "\<exists>h1 seg tw t. h' = Some h1 \<and> handle_inv h1 seg tw t (live_set w) w' \<and>
    list_all (analysed (p_dr pf) tw (mem w')) (transformables t)"
  using rave_init_stages [OF assms(1)] walk_inv [OF _ _ assms(2-4)] by metis

end
