(* ===== verification/Transform_All.thy ===== *)
theory Transform_All
  imports Transform_Semantics
begin

text \<open>
  Many functions at once: when the functions do not overlap, permuting one leaves the code of the
  others alone, so that after \<open>transform_permute_all\<close> every function restores its registers.
\<close>

definition func_apart :: "func \<Rightarrow> func \<Rightarrow> bool" where
  "func_apart f g \<longleftrightarrow>
     unat (faddr f) + unat (flen f) \<le> unat (faddr g) \<or>
     unat (faddr g) + unat (flen g) \<le> unat (faddr f)"

lemma func_apart_sym: "func_apart f g \<longleftrightarrow> func_apart g f"
  by (auto simp: func_apart_def)

lemma byte_apart:
  fixes p q :: ptr
  assumes "unat p + m \<le> unat q \<or> unat q + n \<le> unat p" "unat q + n < 2 ^ 64" "unat p + m < 2 ^ 64" "k < m"
  shows "n \<le> unat (p + of_nat k - q)"
proof -
  have p: "unat (p + of_nat k) = unat p + k"
    using assms(3,4) by (intro unat_add_of_nat) linarith
  show ?thesis
  proof (cases "q \<le> p + of_nat k")
    case True
    from unat_minus_nowrap [OF this] assms True show ?thesis
      unfolding p word_le_nat_alt by linarith
  next
    case False
    then have "unat (p + of_nat k - q) = 2 ^ 64 + (unat p + k) - unat q"
      unfolding p [symmetric] by (simp add: unat_sub_if_size word_size word_le_nat_alt)
    with assms show ?thesis by linarith
  qed
qed

text \<open>The bytes of a set lie between the bounds of its function, in local memory.\<close>

lemma set_local_bounds:
  assumes "window_ok tw" "func_within tw (tf_record tf)" "tf_ready api tw w tf" "s \<in> set (tf_sets tf)"
  defines "fw \<equiv> function_window tw (tf_record tf)"
  shows "unat (data tw) + (unat (faddr (tf_record tf)) - unat (orig tw)) \<le> unat (set_at fw s)"
    "unat (set_at fw s) + isize api (insns s) \<le>
       unat (data tw) + (unat (faddr (tf_record tf)) - unat (orig tw)) + unat (flen (tf_record tf))"
    "unat (data tw) + (unat (faddr (tf_record tf)) - unat (orig tw)) + unat (flen (tf_record tf)) < 2 ^ 64"
proof -
  let ?f = "tf_record tf"
  note ok = function_window_ok [OF assms(1,2)]
  have w: "set_within api fw s" using assms(3,4) by (simp add: tf_ready_def tf_placed_def fw_def)
  have fw: "window_ok fw" "data fw = data tw + (faddr ?f - orig tw)" "wlength fw = flen ?f"
    using ok by (simp_all add: fw_def function_window_def)
  have r: "orig tw \<le> faddr ?f" "unat (faddr ?f - orig tw) + unat (flen ?f) \<le> unat (wlength tw)"
    using assms(2) by (simp_all add: func_within_def)
  have b: "unat (data tw) + unat (wlength tw) < 2 ^ 64" using assms(1) unfolding window_ok_def by blast
  have "unat (data fw) = unat (data tw) + unat (faddr ?f - orig tw)"
    unfolding fw(2) using r(2) b by (intro unat_plus_nowrap) linarith
  then have d: "unat (data fw) = unat (data tw) + (unat (faddr ?f) - unat (orig tw))"
    unfolding unat_minus_nowrap [OF r(1)] .
  note bounds = set_at_bounds [OF fw(1) w]
  show "unat (data tw) + (unat (faddr ?f) - unat (orig tw)) \<le> unat (set_at fw s)"
    using bounds(1) d by linarith
  show "unat (set_at fw s) + isize api (insns s) \<le>
      unat (data tw) + (unat (faddr ?f) - unat (orig tw)) + unat (flen ?f)"
    using bounds(2) d fw(3) by simp
  show "unat (data tw) + (unat (faddr ?f) - unat (orig tw)) + unat (flen ?f) < 2 ^ 64"
    unfolding d [symmetric] fw(3) [symmetric] using fw(1) unfolding window_ok_def by blast
qed

definition settled :: "'i dr_api \<Rightarrow> window \<Rightarrow> world \<Rightarrow> 'i transformable \<Rightarrow> bool" where
  "settled api tw w tf \<longleftrightarrow> func_within tw (tf_record tf) \<and> tf_ready api tw w tf \<and> tf_sorted tf"

lemma sets_apart:
  assumes "window_ok tw" "settled api tw w a" "settled api tw w b"
    and "func_apart (tf_record a) (tf_record b)" "s \<in> set (tf_sets a)" "u \<in> set (tf_sets b)"
    and "k < isize api (insns s)"
  shows "isize api (insns u) \<le>
    unat (set_at (function_window tw (tf_record a)) s + of_nat k -
      set_at (function_window tw (tf_record b)) u)"
proof -
  have wr: "func_within tw (tf_record a)" "tf_ready api tw w a" "func_within tw (tf_record b)" "tf_ready api tw w b"
    using assms(2,3) by (simp_all add: settled_def)
  note x = set_local_bounds [OF assms(1) wr(1,2) assms(5)]
    and y = set_local_bounds [OF assms(1) wr(3,4) assms(6)]
  have "unat (orig tw) \<le> unat (faddr (tf_record a))" "unat (orig tw) \<le> unat (faddr (tf_record b))"
    using wr(1,3) by (simp_all add: func_within_def word_le_nat_alt)
  with assms(4) x y show ?thesis
    unfolding func_apart_def by (intro byte_apart [OF _ _ _ assms(7)]; linarith)
qed

lemma code_permuted_other:
  assumes "window_ok tw" "settled api tw w a" "settled api tw w b"
    and "func_apart (tf_record a) (tf_record b)" "slot_perm (tf_slots b) q"
    and "code_permuted api (function_window tw (tf_record a)) p a m"
  shows "code_permuted api (function_window tw (tf_record a)) p a
    (permuted_mem api (function_window tw (tf_record b)) q b m)"
proof -
  let ?fa = "function_window tw (tf_record a)" and ?fb = "function_window tw (tf_record b)"
  have b: "tf_wf api b" "dr_keeps_length api (tf_insns b)"
    using assms(3) by (simp_all add: settled_def tf_ready_def)
  have "mem_get (permuted_mem api ?fb q b m) (set_at ?fa s) (isize api (insns s)) =
      mem_get m (set_at ?fa s) (isize api (insns s))" if "s \<in> set (tf_sets a)" for s
  proof (rule mem_get_cong)
    fix k assume k: "k < isize api (insns s)"
    show "permuted_mem api ?fb q b m (set_at ?fa s + of_nat k) = m (set_at ?fa s + of_nat k)"
      using sets_apart [OF assms(1-4) that _ k] by (intro permuted_mem_outside [OF b assms(5)]) blast
  qed
  with assms(6) show ?thesis by (simp add: code_permuted_def tf_sets_def)
qed

lemma code_permuted_others:
  assumes "window_ok tw" "settled api tw w a" "\<forall>b \<in> set tfs. settled api tw w b"
    and "\<forall>b \<in> set tfs. func_apart (tf_record a) (tf_record b)"
    and "list_all2 (\<lambda>tf t. slot_table (tf_slots tf) t) tfs ts"
    and "code_permuted api (function_window tw (tf_record a)) p a m"
  shows "code_permuted api (function_window tw (tf_record a)) p a (permuted_all api tw tfs ts m)"
  using assms(5,3,4,6)
proof (induction arbitrary: m rule: list_all2_induct)
  case (Cons b tfs t ts)
  have b: "settled api tw w b" "func_apart (tf_record a) (tf_record b)" using Cons.prems by simp_all
  then have "tf_slots b \<le> 2 ^ 31" using tf_wfD(2) unfolding settled_def tf_ready_def by blast
  from code_permuted_other [OF assms(1,2) b slot_table_perm [OF Cons.hyps(1) this] Cons.prems(3)] Cons
  show ?case by simp
qed simp

lemma permuted_all_code:
  assumes "window_ok tw" "\<forall>b \<in> set tfs. settled api tw w b"
    and "sorted_wrt (\<lambda>a b. func_apart (tf_record a) (tf_record b)) tfs"
    and "list_all2 (\<lambda>tf t. slot_table (tf_slots tf) t) tfs ts" "(tf, t) \<in> set (zip tfs ts)"
  shows "code_permuted api (function_window tw (tf_record tf)) (slots t) tf (permuted_all api tw tfs ts m)"
  using assms(4,2,3,5)
proof (induction arbitrary: m rule: list_all2_induct)
  case (Cons b tfs u ts)
  let ?fb = "function_window tw (tf_record b)"
  show ?case
  proof (cases "(tf, t) = (b, u)")
    case True
    have r: "tf_wf api b" "tf_placed api ?fb b w" "dr_keeps_length api (tf_insns b)" "tf_sorted b"
      using Cons.prems(1) by (simp_all add: settled_def tf_ready_def)
    from permuted_mem_code [OF r slot_table_perm [OF Cons.hyps(1) tf_wfD(2) [OF r(1)]]]
      code_permuted_others [OF assms(1) _ _ _ Cons.hyps(2), of api w b] Cons.prems True
    show ?thesis by simp
  next
    case False
    with Cons.prems(3) have "(tf, t) \<in> set (zip tfs ts)" by auto
    with Cons show ?thesis by simp
  qed
qed simp

text \<open>After all functions are permuted, each restores what it saves.\<close>

lemma permuted_all_restores:
  assumes "window_ok tw" "\<forall>b \<in> set tfs. settled api tw w b"
    and "sorted_wrt (\<lambda>a b. func_apart (tf_record a) (tf_record b)) tfs"
    and "list_all2 (\<lambda>tf t. slot_table (tf_slots tf) t) tfs ts"
    and "tf \<in> set tfs" "dr_roundtrip api (tf_insns tf)" "e \<in> set (epilogues tf)"
  shows "restores_regs api (function_window tw (tf_record tf)) (permuted_all api tw tfs ts m) tf e"
proof -
  obtain t where t: "(tf, t) \<in> set (zip tfs ts)"
    using assms(4,5) by (metis in_set_impl_in_set_zip1 list_all2_lengthD)
  then have "slot_table (tf_slots tf) t" using assms(4) by (auto simp: list_all2_iff)
  moreover have r: "tf_wf api tf" "dr_keeps_length api (tf_insns tf)"
    using assms(2,5) by (simp_all add: settled_def tf_ready_def)
  ultimately have "slot_perm (tf_slots tf) (slots t)" using slot_table_perm tf_wfD(2) by blast
  from code_restores [OF r assms(6) this permuted_all_code [OF assms(1-4) t] assms(7)] show ?thesis .
qed

end
