(* ===== verification/Event_System.thy ===== *)
theory Event_System
  imports Main
begin

text \<open>
  Systems that change state by events. A run is a list of events; a specification is a partial
  function that gives the next state, or \<open>None\<close> for an event it does not allow. The locale states
  when a system and a specification have the same runs.
\<close>

inductive event_run :: "('s \<Rightarrow> 'e \<Rightarrow> 's \<Rightarrow> bool) \<Rightarrow> 's \<Rightarrow> 'e list \<Rightarrow> 's \<Rightarrow> bool" for step where
  finished: "event_run step s [] s"
| more: "step s e s1 \<Longrightarrow> event_run step s1 es s2 \<Longrightarrow> event_run step s (e # es) s2"

inductive_simps run_Nil [simp]: "event_run step s [] s'"
inductive_simps run_Cons: "event_run step s (e # es) s'"

lemma run_append:
  "event_run step s (es @ fs) s' \<longleftrightarrow> (\<exists>s1. event_run step s es s1 \<and> event_run step s1 fs s')"
  by (induction es arbitrary: s) (auto simp: run_Cons)

fun spec_run :: "('a \<Rightarrow> 'e \<Rightarrow> 'a option) \<Rightarrow> 'a \<Rightarrow> 'e list \<Rightarrow> 'a option" where
  "spec_run spec a [] = Some a"
| "spec_run spec a (e # es) = Option.bind (spec a e) (\<lambda>a1. spec_run spec a1 es)"

locale event_refinement =
  fixes step :: "'s \<Rightarrow> 'e \<Rightarrow> 's \<Rightarrow> bool"
    and spec :: "'a \<Rightarrow> 'e \<Rightarrow> 'a option"
    and allowed :: "'e \<Rightarrow> bool"
    and rel :: "'s \<Rightarrow> 'a \<Rightarrow> bool"
  assumes forward: "rel s a \<Longrightarrow> allowed e \<Longrightarrow> step s e s' \<Longrightarrow> \<exists>a'. spec a e = Some a' \<and> rel s' a'"
    and backward: "rel s a \<Longrightarrow> allowed e \<Longrightarrow> spec a e = Some a' \<Longrightarrow> \<exists>s'. step s e s' \<and> rel s' a'"
begin

lemma run_forward:
  "event_run step s es s' \<Longrightarrow> rel s a \<Longrightarrow> list_all allowed es \<Longrightarrow> \<exists>a'. spec_run spec a es = Some a' \<and> rel s' a'"
proof (induction arbitrary: a rule: event_run.induct)
  case (more s e s1 es s2)
  have "allowed e" using more.prems(2) by simp
  with forward more.hyps(1) more.prems(1) obtain a1 where "spec a e = Some a1" "rel s1 a1" by blast
  with more.IH [of a1] more.prems(2) show ?case by simp
qed simp

lemma run_backward:
  "spec_run spec a es = Some a' \<Longrightarrow> rel s a \<Longrightarrow> list_all allowed es \<Longrightarrow> \<exists>s'. event_run step s es s' \<and> rel s' a'"
proof (induction es arbitrary: a s)
  case (Cons e es)
  then obtain a1 where a1: "spec a e = Some a1" "spec_run spec a1 es = Some a'"
    by (auto simp: bind_eq_Some_conv)
  have "allowed e" using Cons.prems(3) by simp
  with backward a1(1) Cons.prems(2) obtain s1 where "step s e s1" "rel s1 a1" by blast
  moreover from this Cons.IH [OF a1(2)] Cons.prems(3) obtain s' where "event_run step s1 es s'" "rel s' a'" by auto
  ultimately show ?case by (blast intro: event_run.more)
qed simp

theorem same_runs:
  assumes "rel s a" "list_all allowed es"
  shows "(\<exists>s'. event_run step s es s') \<longleftrightarrow> spec_run spec a es \<noteq> None"
  using run_forward [OF _ assms] run_backward [OF _ assms] by blast

end

end
