(* ===== verification/Rave_Api.thy ===== *)
theory Rave_Api
  imports Rave_Analysis Transform_All Event_System
begin

text \<open>
  The public operations of an initialised handle as a step relation, and what every sequence of
  them keeps: the handle goes on serving, randomisation never fails, no byte outside the sets of
  the accepted functions changes, and every fault is answered from the segment by the last
  relocation.
\<close>

section \<open>A serving handle\<close>

text \<open>
  The handle holds what \<open>rave_init\<close> has set up, and its functions can be permuted and do not
  overlap.
\<close>

definition serving ::
  "('i, 'd) platform \<Rightarrow> 'i rave_handle \<Rightarrow> window \<Rightarrow> window \<Rightarrow> 'i transform \<Rightarrow> ptr set \<Rightarrow> world \<Rightarrow> bool" where
  "serving pf h seg tw t K w \<longleftrightarrow>
     handle_inv h seg tw t K w \<and>
     (\<forall>tf \<in> set (transformables t). settled (p_dr pf) tw w tf \<and> dr_roundtrip (p_dr pf) (tf_insns tf)) \<and>
     sorted_wrt (\<lambda>a b. func_apart (tf_record a) (tf_record b)) (transformables t)"

definition outside_sets :: "'i dr_api \<Rightarrow> window \<Rightarrow> 'i transform \<Rightarrow> ptr \<Rightarrow> bool" where
  "outside_sets api tw t a \<longleftrightarrow>
     (\<forall>tf \<in> set (transformables t). \<forall>s \<in> set (tf_sets tf).
        isize api (insns s) \<le> unat (a - set_at (function_window tw (tf_record tf)) s))"

definition all_restore :: "'i dr_api \<Rightarrow> window \<Rightarrow> 'i transform \<Rightarrow> (ptr \<Rightarrow> byte) \<Rightarrow> bool" where
  "all_restore api tw t m \<longleftrightarrow>
     (\<forall>tf \<in> set (transformables t). \<forall>e \<in> set (epilogues tf).
        restores_regs api (function_window tw (tf_record tf)) m tf e)"

text \<open>What a permutation leaves of a function: everything but the order.\<close>

definition tf_shape :: "'i transformable \<Rightarrow> ptr list \<times> func \<times> 'i instr_set \<times> 'i instr_set list" where
  "tf_shape tf = (tf_hold tf, tf_record tf, prologue tf, epilogues tf)"

definition same_shape :: "'i transform \<Rightarrow> 'i transform \<Rightarrow> bool" where
  "same_shape t t' \<longleftrightarrow> map tf_shape (transformables t) = map tf_shape (transformables t')"

lemma same_shape_trans: "same_shape t u \<Longrightarrow> same_shape u v \<Longrightarrow> same_shape t v"
  by (simp add: same_shape_def)

lemma same_shape_all:
  assumes "same_shape t t'" "\<And>tf tf'. tf_shape tf = tf_shape tf' \<Longrightarrow> P tf \<longleftrightarrow> P tf'"
  shows "(\<forall>tf \<in> set (transformables t). P tf) \<longleftrightarrow> (\<forall>tf \<in> set (transformables t'). P tf)"
proof -
  have im: "tf_shape ` set (transformables t) = tf_shape ` set (transformables t')"
    using assms(1) unfolding same_shape_def by (metis set_map)
  have half: "\<forall>y \<in> B. P y" if "tf_shape ` A = tf_shape ` B" "\<forall>x \<in> A. P x" for A B
  proof
    fix y assume "y \<in> B"
    then have "tf_shape y \<in> tf_shape ` A" using that(1) by simp
    then obtain x where "x \<in> A" "tf_shape y = tf_shape x" by blast
    with that(2) assms(2) show "P y" by blast
  qed
  show ?thesis using half [OF im] half [OF im [symmetric]] by blast
qed

lemma tf_shape_eqD:
  "tf_shape tf = tf_shape tf' \<Longrightarrow>
     tf_hold tf = tf_hold tf' \<and> tf_record tf = tf_record tf' \<and> prologue tf = prologue tf' \<and>
     epilogues tf = epilogues tf' \<and> tf_sets tf = tf_sets tf'"
  by (simp add: tf_shape_def tf_sets_def)

lemma same_shape_outside: "same_shape t t' \<Longrightarrow> outside_sets api tw t a \<longleftrightarrow> outside_sets api tw t' a"
  unfolding outside_sets_def by (rule same_shape_all) (auto dest!: tf_shape_eqD)

lemma same_shape_restore: "same_shape t t' \<Longrightarrow> all_restore api tw t m \<longleftrightarrow> all_restore api tw t' m"
  unfolding all_restore_def
  by (rule same_shape_all) (auto dest!: tf_shape_eqD simp: restores_regs_def)

lemma permuted_tf_shape [simp]:
  "tf_order tf \<noteq> None \<Longrightarrow> tf_shape (permuted_tf tf t) = tf_shape tf"
  by (auto simp: tf_shape_def tf_hold_def permuted_tf_def order_hold_def split: option.splits)

lemma permuted_shapes:
  assumes "list_all2 P ts us" "\<forall>tf \<in> set ts. tf_order tf \<noteq> None"
  shows "map tf_shape (map2 permuted_tf ts us) = map tf_shape ts"
  using assms by (induction rule: list_all2_induct) simp_all

section \<open>Randomising\<close>

lemma serving_parts:
  assumes "serving pf h seg tw t K w"
  obtains mp m b tp B L where "code_segment h = Some seg" "code_text h = Some tw" "window_ok seg" "window_ok tw"
    "h_metadata h = Some (mp, Some m)" "h_binary h = Some b" "h_transform h = Some (tp, Some t)" "tp \<noteq> NULL"
    "K \<subseteq> L" "owns B L (concat (map tf_hold (transformables t)) @ [data seg, mp, tp]) w"
proof -
  obtain mp m b tp B L where p: "h_metadata h = Some (mp, Some m)" "h_binary h = Some b"
      "h_transform h = Some (tp, Some t)" "K \<subseteq> L"
      "owns B L (concat (map tf_hold (transformables t)) @ [data seg, mp, tp]) w"
    using assms unfolding serving_def handle_inv_def by blast
  moreover have "tp \<noteq> NULL" using p(5) by (auto simp: owns_def)
  ultimately show thesis using that assms unfolding serving_def handle_inv_def by blast
qed

lemma settled_permuted:
  assumes "settled api tw w tf" "slot_table (tf_slots tf) u" "live w' = live w"
  shows "settled api tw w' (permuted_tf tf u)"
proof -
  have "tf_ready api tw w' (permuted_tf tf u)"
    using assms permuted_tf_ready tf_ready_world [OF assms(3)] unfolding settled_def by blast
  then show ?thesis
    using assms(1) by (simp add: settled_def tf_sorted_def) (simp add: permuted_tf_def)
qed

lemma handle_inv_shape:
  assumes "handle_inv h seg tw t K w" "same_shape t t'" "live w' = live w" "h_transform h = Some (tp, Some t)"
  shows "handle_inv (h\<lparr>h_transform := Some (tp, Some t')\<rparr>) seg tw t' K w'"
proof -
  have "map tf_hold (transformables t') = map tf_hold (transformables t)"
    using assms(2) unfolding same_shape_def tf_shape_def by (metis (no_types, lifting) fst_conv list.map_comp map_eq_conv comp_def)
  with assms show ?thesis
    unfolding handle_inv_def using owns_world [OF assms(3)] by auto
qed

lemma serving_randomize:
  assumes "serving pf h seg tw t K w"
  shows "\<exists>h' t' w'. rave_randomize pf (Some h) w = Some (RAVE_SUCCESS, Some h', w') \<and>
    serving pf h' seg tw t' K w' \<and> same_shape t t' \<and> reloc_offset h' = reloc_offset h \<and>
    all_restore (p_dr pf) tw t (mem w') \<and>
    (\<forall>a. outside_sets (p_dr pf) tw t a \<longrightarrow> mem w' a = mem w a)"
proof -
  let ?api = "p_dr pf" and ?ts = "transformables t"
  obtain mp m b tp B L where h: "code_segment h = Some seg" "code_text h = Some tw" "window_ok seg" "window_ok tw"
    "h_metadata h = Some (mp, Some m)" "h_binary h = Some b" "h_transform h = Some (tp, Some t)" "tp \<noteq> NULL"
    "K \<subseteq> L" "owns B L (concat (map tf_hold ?ts) @ [data seg, mp, tp]) w"
    by (rule serving_parts [OF assms])
  have set: "\<forall>tf \<in> set ?ts. settled ?api tw w tf" "\<forall>tf \<in> set ?ts. dr_roundtrip ?api (tf_insns tf)"
    and apart: "sorted_wrt (\<lambda>a b. func_apart (tf_record a) (tf_record b)) ?ts"
    using assms unfolding serving_def by blast+
  have ready: "\<forall>tf \<in> set ?ts. tf_ready ?api tw w tf" using set(1) by (simp add: settled_def)
  obtain us k where us: "list_all2 (\<lambda>tf t. slot_table (tf_slots tf) t) ?ts us"
    "permute_list ?api tw ?ts w = Some (RAVE_SUCCESS, map2 permuted_tf ?ts us,
        w\<lparr>mem := permuted_all ?api tw ?ts us (mem w), nrand := k,
          faults := faults w @ concat (map one_past_reads ?ts)\<rparr>)" (is "_ = Some (_, _, ?w')")
    using permute_list_eq [OF ready] by blast
  let ?t' = "t\<lparr>transformables := map2 permuted_tf ?ts us\<rparr>"
  let ?h' = "h\<lparr>h_transform := Some (tp, Some ?t')\<rparr>"
  have run: "rave_randomize pf (Some h) w = Some (RAVE_SUCCESS, Some ?h', ?w')"
    using h us(2) by (simp add: rave_randomize_def transform_permute_all_def)
  have "\<forall>tf \<in> set ?ts. tf_order tf \<noteq> None"
    using ready unfolding tf_ready_def tf_wf_def by auto
  then have shape: "same_shape t ?t'"
    using permuted_shapes [OF us(1)] by (simp add: same_shape_def)
  have "handle_inv ?h' seg tw ?t' K ?w'"
    by (rule handle_inv_shape [OF _ shape _ h(7)]) (use assms in \<open>simp_all add: serving_def\<close>)
  moreover have "settled ?api tw ?w' tf \<and> dr_roundtrip ?api (tf_insns tf)" if mem: "tf \<in> set (transformables ?t')" for tf
  proof -
    obtain tf0 u where "(tf0, u) \<in> set (zip ?ts us)" "tf = permuted_tf tf0 u"
      using mem by auto
    moreover from this have "tf0 \<in> set ?ts" "slot_table (tf_slots tf0) u"
      using us(1) by (auto simp: list_all2_iff dest: set_zip_leftD)
    ultimately show ?thesis
      using set settled_permuted [of ?api tw w tf0 u ?w'] by (simp add: tf_insns_def)
  qed
  moreover have rec: "map tf_record xs = map (fst \<circ> snd) (map tf_shape xs)" for xs :: "'a transformable list"
    by (simp add: tf_shape_def)
  have "map tf_record (map2 permuted_tf ?ts us) = map tf_record ?ts"
    using shape unfolding same_shape_def rec by simp
  then have "sorted_wrt (\<lambda>a b. func_apart (tf_record a) (tf_record b)) (transformables ?t')"
    using apart unfolding sorted_wrt_map [of func_apart tf_record, symmetric] by simp
  ultimately have "serving pf ?h' seg tw ?t' K ?w'" unfolding serving_def by blast
  moreover have "all_restore ?api tw t (mem ?w')"
    unfolding all_restore_def using permuted_all_restores [OF h(4) set(1) apart us(1)] set(2) by simp
  moreover have "mem ?w' a = mem w a" if "outside_sets ?api tw t a" for a
    using permuted_all_outside [OF ready us(1)] that by (simp add: outside_sets_def)
  moreover have "reloc_offset ?h' = reloc_offset h" by simp
  ultimately show ?thesis using run shape by blast
qed

section \<open>Runs of the interface\<close>

text \<open>
  One call of a client, with what it observes. A call that is undefined in a state is no step
  from it.
\<close>

datatype api_event =
    Randomized rave_errno
  | Relocated uintptr
  | Faulted uintptr ptr

inductive rave_step ::
  "('i, 'd) platform \<Rightarrow> 'i rave_handle \<times> world \<Rightarrow> api_event \<Rightarrow> 'i rave_handle \<times> world \<Rightarrow> bool" for pf where
  randomize: "rave_randomize pf (Some h) w = Some (rc, Some h', w') \<Longrightarrow>
     rave_step pf (h, w) (Randomized rc) (h', w')"
| relocate: "rave_relocate (Some h) a = Some (rc, Some h') \<Longrightarrow> rave_step pf (h, w) (Relocated a) (h', w)"
| fault: "rave_handle_fault (Some h) a = Some p \<Longrightarrow> rave_step pf (h, w) (Faulted a p) (h, w)"

inductive_cases randomizeE: "rave_step pf (h, w) (Randomized rc) s'"
inductive_cases relocateE: "rave_step pf (h, w) (Relocated a) s'"
inductive_cases faultE: "rave_step pf (h, w) (Faulted a p) s'"

abbreviation rave_run ::
  "('i, 'd) platform \<Rightarrow> 'i rave_handle \<times> world \<Rightarrow> api_event list \<Rightarrow> 'i rave_handle \<times> world \<Rightarrow> bool" where
  "rave_run pf \<equiv> event_run (rave_step pf)"

fun is_randomized :: "api_event \<Rightarrow> bool" where
  "is_randomized (Randomized rc) = True"
| "is_randomized _ = False"

fun is_relocated :: "api_event \<Rightarrow> bool" where
  "is_relocated (Relocated a) = True"
| "is_relocated _ = False"

text \<open>Relocating changes nothing that the handle serves by.\<close>

lemma serving_relocated:
  "serving pf h seg tw t K w \<Longrightarrow> serving pf (h\<lparr>reloc_offset := r\<rparr>) seg tw t K w"
  by (simp add: serving_def handle_inv_def)

lemma serving_step:
  assumes "rave_step pf (h, w) e (h', w')" "serving pf h seg tw t K w"
  shows "\<exists>t'. serving pf h' seg tw t' K w' \<and> same_shape t t' \<and> (\<forall>rc. e = Randomized rc \<longrightarrow> rc = RAVE_SUCCESS) \<and>
    (if is_randomized e then all_restore (p_dr pf) tw t (mem w') else mem w' = mem w) \<and>
    (\<forall>a. outside_sets (p_dr pf) tw t a \<longrightarrow> mem w' a = mem w a) \<and>
    reloc_offset h' = (case e of Relocated b \<Rightarrow> Some (orig seg - b) | _ \<Rightarrow> reloc_offset h)"
proof -
  have seg: "code_segment h = Some seg" using assms(2) by (simp add: serving_def handle_inv_def)
  have refl: "same_shape t t" by (simp add: same_shape_def)
  show ?thesis
  proof (cases e)
    case (Randomized rc)
    with assms(1) have "rave_randomize pf (Some h) w = Some (rc, Some h', w')" by (auto elim: randomizeE)
    with serving_randomize [OF assms(2)] Randomized show ?thesis by fastforce
  next
    case (Relocated b)
    with assms(1) have "rave_relocate (Some h) b = Some (RAVE_SUCCESS, Some h')" "w' = w"
      by (auto elim!: relocateE simp: rave_relocate_def seg)
    with Relocated refl show ?thesis
      using serving_relocated [OF assms(2), of "Some (orig seg - b)"]
      by (auto simp: rave_relocate_eq [OF seg])
  next
    case (Faulted b p)
    with assms(1) have "h' = h" "w' = w" by (auto elim: faultE)
    with assms(2) Faulted refl show ?thesis by (intro exI [of _ t]) simp
  qed
qed

lemma serving_run:
  assumes "rave_run pf s es s'" "serving pf (fst s) seg tw t K (snd s)"
  shows "\<exists>t'. serving pf (fst s') seg tw t' K (snd s') \<and> same_shape t t' \<and>
    (\<forall>rc. Randomized rc \<in> set es \<longrightarrow> rc = RAVE_SUCCESS) \<and>
    (if list_ex is_randomized es then all_restore (p_dr pf) tw t (mem (snd s'))
     else mem (snd s') = mem (snd s)) \<and>
    (\<forall>a. outside_sets (p_dr pf) tw t a \<longrightarrow> mem (snd s') a = mem (snd s) a) \<and>
    (\<not> list_ex is_relocated es \<longrightarrow> reloc_offset (fst s') = reloc_offset (fst s))"
  using assms
proof (induction arbitrary: t rule: event_run.induct)
  case (finished s)
  then show ?case by (auto simp: same_shape_def)
next
  case (more s e s1 es s2)
  obtain h w h1 w1 where s: "s = (h, w)" "s1 = (h1, w1)" by (cases s, cases s1)
  obtain t1 where t1: "serving pf h1 seg tw t1 K w1" "same_shape t t1"
      "\<forall>rc. e = Randomized rc \<longrightarrow> rc = RAVE_SUCCESS"
      "if is_randomized e then all_restore (p_dr pf) tw t (mem w1) else mem w1 = mem w"
      "\<forall>a. outside_sets (p_dr pf) tw t a \<longrightarrow> mem w1 a = mem w a"
      "reloc_offset h1 = (case e of Relocated b \<Rightarrow> Some (orig seg - b) | _ \<Rightarrow> reloc_offset h)"
    using serving_step [of pf h w e h1 w1 seg tw t K] more.hyps(1) more.prems unfolding s fst_conv snd_conv
    by blast
  have reloc: "\<not> is_relocated e \<Longrightarrow> reloc_offset h1 = reloc_offset h"
    using t1(6) by (cases e) simp_all
  obtain t2 where t2: "serving pf (fst s2) seg tw t2 K (snd s2)" "same_shape t1 t2"
      "\<forall>rc. Randomized rc \<in> set es \<longrightarrow> rc = RAVE_SUCCESS"
      "if list_ex is_randomized es then all_restore (p_dr pf) tw t1 (mem (snd s2)) else mem (snd s2) = mem w1"
      "\<forall>a. outside_sets (p_dr pf) tw t1 a \<longrightarrow> mem (snd s2) a = mem w1 a"
      "\<not> list_ex is_relocated es \<longrightarrow> reloc_offset (fst s2) = reloc_offset h1"
    using more.IH [of t1] t1(1) unfolding s fst_conv snd_conv by blast
  show ?case
    using t1(3-5) t2 reloc same_shape_trans [OF t1(2) t2(2)] same_shape_outside [OF t1(2)]
      same_shape_restore [OF t1(2)]
    by (intro exI [of _ t2]) (auto simp: s split: if_splits)
qed

section \<open>The page server\<close>

text \<open>
  What the interface promises, over nothing but the segment's window: the state is the base of the
  last relocation, and a fault is answered with the page of the segment that belongs to its
  address, or with \<open>NULL\<close>.
\<close>

definition page_of :: "window \<Rightarrow> uintptr \<Rightarrow> uintptr \<Rightarrow> ptr" where
  "page_of seg base a =
     (if base \<le> a \<and> unat (a - base) < unat (wlength seg) then data seg + (PAGE_DOWN a - base) else NULL)"

fun page_server :: "window \<Rightarrow> uintptr option \<Rightarrow> api_event \<Rightarrow> uintptr option option" where
  "page_server seg base (Randomized rc) = (if rc = RAVE_SUCCESS then Some base else None)"
| "page_server seg base (Relocated b) = Some (Some b)"
| "page_server seg base (Faulted a p) =
     (case base of None \<Rightarrow> None | Some b \<Rightarrow> if p = page_of seg b a then Some base else None)"

definition base_ok :: "window \<Rightarrow> uintptr \<Rightarrow> bool" where
  "base_ok seg b \<longleftrightarrow> unat b mod 4096 = 0 \<and> unat b + unat (wlength seg) < 2 ^ 64"

fun_cases faulted_SomeE: "page_server seg base (Faulted a p) = Some base'"

fun event_ok :: "window \<Rightarrow> api_event \<Rightarrow> bool" where
  "event_ok seg (Relocated b) \<longleftrightarrow> base_ok seg b"
| "event_ok seg _ \<longleftrightarrow> True"

text \<open>The handle keeps the distance of the segment's address from the base.\<close>

definition at_base :: "'i rave_handle \<Rightarrow> window \<Rightarrow> uintptr option \<Rightarrow> bool" where
  "at_base h seg base \<longleftrightarrow>
     reloc_offset h = map_option (\<lambda>b. orig seg - b) base \<and> (\<forall>b. base = Some b \<longrightarrow> base_ok seg b)"

lemma serving_fault:
  assumes "serving pf h seg tw t K w" "at_base h seg base"
  shows "rave_handle_fault (Some h) a = map_option (\<lambda>b. page_of seg b a) base"
proof (cases base)
  case None
  with assms(2) show ?thesis by (simp add: rave_handle_fault_def at_base_def)
next
  case (Some b)
  have "code_segment h = Some seg" "window_ok seg" "unat (wlength seg) mod 4096 = 0"
    using assms(1) unfolding serving_def handle_inv_def by blast+
  with rave_handle_fault_eq [of h seg b a] assms(2) Some show ?thesis
    by (simp add: at_base_def base_ok_def page_of_def)
qed

definition at_service ::
  "('i, 'd) platform \<Rightarrow> window \<Rightarrow> window \<Rightarrow> ptr set \<Rightarrow> 'i rave_handle \<times> world \<Rightarrow> uintptr option \<Rightarrow> bool" where
  "at_service pf seg tw K s base \<longleftrightarrow>
     (\<exists>t. serving pf (fst s) seg tw t K (snd s)) \<and> at_base (fst s) seg base"

lemma at_service_parts:
  assumes "at_service pf seg tw K (h, w) base"
  shows "(\<exists>h1 w1. rave_randomize pf (Some h) w = Some (RAVE_SUCCESS, Some h1, w1) \<and> at_service pf seg tw K (h1, w1) base)"
    and "rave_relocate (Some h) b = Some (RAVE_SUCCESS, Some (h\<lparr>reloc_offset := Some (orig seg - b)\<rparr>))"
    and "base_ok seg b \<Longrightarrow> at_service pf seg tw K (h\<lparr>reloc_offset := Some (orig seg - b)\<rparr>, w) (Some b)"
    and "rave_handle_fault (Some h) a = map_option (\<lambda>b. page_of seg b a) base"
proof -
  obtain t where t: "serving pf h seg tw t K w" and base: "at_base h seg base"
    using assms by (auto simp: at_service_def)
  then have seg: "code_segment h = Some seg" by (simp add: serving_def handle_inv_def)
  obtain h1 t1 w1 where r: "rave_randomize pf (Some h) w = Some (RAVE_SUCCESS, Some h1, w1)"
      "serving pf h1 seg tw t1 K w1" "reloc_offset h1 = reloc_offset h"
    using serving_randomize [OF t] by blast
  then show "\<exists>h1 w1. rave_randomize pf (Some h) w = Some (RAVE_SUCCESS, Some h1, w1) \<and>
      at_service pf seg tw K (h1, w1) base"
    using base by (auto simp: at_service_def at_base_def)
  show "rave_relocate (Some h) b = Some (RAVE_SUCCESS, Some (h\<lparr>reloc_offset := Some (orig seg - b)\<rparr>))"
    by (rule rave_relocate_eq [OF seg])
  show "at_service pf seg tw K (h\<lparr>reloc_offset := Some (orig seg - b)\<rparr>, w) (Some b)" if "base_ok seg b"
    using serving_relocated [OF t] that by (auto simp: at_service_def at_base_def)
  show "rave_handle_fault (Some h) a = map_option (\<lambda>b. page_of seg b a) base"
    by (rule serving_fault [OF t base])
qed

text \<open>The runs of the handle are exactly the runs of the page server.\<close>

interpretation ps: event_refinement "rave_step pf" "page_server seg" "event_ok seg" "at_service pf seg tw K"
  for pf seg tw K
proof
  fix s s' :: "'a rave_handle \<times> world" and base e
  assume rel: "at_service pf seg tw K s base" and ok: "event_ok seg e" and step: "rave_step pf s e s'"
  obtain h w where s: "s = (h, w)" by fastforce
  note parts = at_service_parts [OF rel [unfolded s]]
  show "\<exists>base'. page_server seg base e = Some base' \<and> at_service pf seg tw K s' base'"
    using step rel ok parts(1,3) unfolding s
    by (cases e) (auto elim!: randomizeE relocateE faultE simp: parts(2,4) split: option.splits)
next
  fix s :: "'a rave_handle \<times> world" and base e base'
  assume rel: "at_service pf seg tw K s base" and ok: "event_ok seg e" and spec: "page_server seg base e = Some base'"
  obtain h w where s: "s = (h, w)" by fastforce
  note parts = at_service_parts [OF rel [unfolded s]]
  show "\<exists>s'. rave_step pf s e s' \<and> at_service pf seg tw K s' base'"
  proof (cases e)
    case (Randomized rc)
    with parts(1) spec show ?thesis unfolding s by (auto intro: rave_step.randomize split: if_splits)
  next
    case (Relocated b)
    with parts(3) [of b] spec ok rave_step.relocate [OF parts(2) [of b], of pf w] show ?thesis
      unfolding s by auto
  next
    case (Faulted a p)
    then have "rave_handle_fault (Some h) a = Some p" "base' = base"
      using spec parts(4) by (auto elim!: faulted_SomeE split: option.splits if_splits)
    with rel Faulted show ?thesis unfolding s by (auto intro: rave_step.fault)
  qed
qed

end
