(* ===== verification/Transform_Takes.thy ===== *)
theory Transform_Takes
  imports Transform_Supply
begin

text \<open>
  What the analysis of a function takes from the allocator: \<open>takes N k w w'\<close> says that at most \<open>k\<close>
  answers were used between \<open>w\<close> and \<open>w'\<close>, and that every block that is new is one of them, of at
  most \<open>N\<close> bytes. A supply for several functions in a row is used up one after the other.
\<close>

definition takes :: "nat \<Rightarrow> nat \<Rightarrow> world \<Rightarrow> world \<Rightarrow> bool" where
  "takes N k w w' \<longleftrightarrow>
     alloc w' = alloc w \<and> nalloc w \<le> nalloc w' \<and> nalloc w' \<le> nalloc w + k \<and>
     (\<forall>(b, s) \<in> set (live w').
        (b, s) \<in> set (live w) \<or> (\<exists>i. nalloc w \<le> i \<and> i < nalloc w' \<and> b = alloc w i \<and> s \<le> N))"

lemma takes_refl [simp, intro]: "takes N k w w"
  by (auto simp: takes_def)

lemma takes_mono: "takes N k w w' \<Longrightarrow> k \<le> l \<Longrightarrow> takes N l w w'"
  by (auto simp: takes_def)

lemma takes_trans:
  assumes "takes N k w w1" "takes N l w1 w2"
  shows "takes N (k + l) w w2"
proof -
  have n: "alloc w1 = alloc w" "nalloc w \<le> nalloc w1" "nalloc w1 \<le> nalloc w + k"
    "alloc w2 = alloc w1" "nalloc w1 \<le> nalloc w2" "nalloc w2 \<le> nalloc w1 + l"
    using assms by (simp_all add: takes_def)
  have "(b, s) \<in> set (live w) \<or> (\<exists>i. nalloc w \<le> i \<and> i < nalloc w2 \<and> b = alloc w i \<and> s \<le> N)"
    if "(b, s) \<in> set (live w2)" for b s
  proof -
    from that assms(2) consider "(b, s) \<in> set (live w1)"
      | i where "nalloc w1 \<le> i" "i < nalloc w2" "b = alloc w1 i" "s \<le> N"
      unfolding takes_def by blast
    then show ?thesis
    proof cases
      case 1
      with assms(1) have "(b, s) \<in> set (live w) \<or> (\<exists>i. nalloc w \<le> i \<and> i < nalloc w1 \<and> b = alloc w i \<and> s \<le> N)"
        unfolding takes_def by blast
      with n(5) show ?thesis using less_le_trans by blast
    next
      case 2
      with n(1,2) show ?thesis by (intro disjI2 exI [of _ i]) simp
    qed
  qed
  with n show ?thesis by (auto simp: takes_def)
qed

lemma takes_malloc:
  assumes "rave_malloc n w = (p, w')" "n \<le> N"
  shows "takes N 1 w w'"
  using assms by (auto simp: rave_malloc_def takes_def Let_def split: if_splits)

lemma takes_shrink:
  "alloc w' = alloc w \<Longrightarrow> nalloc w' = nalloc w \<Longrightarrow> set (live w') \<subseteq> set (live w) \<Longrightarrow> takes N 0 w w'"
  by (auto simp: takes_def)

lemma takes_free: "rave_free p w = Some w' \<Longrightarrow> takes N 0 w w'"
  by (rule takes_shrink) (auto simp: rave_free_def split: if_splits)

lemma takes_touch [simp]: "takes N 0 w (instr_touch p w)"
  by (rule takes_shrink) (simp_all add: instr_touch_def log_fault_def)

lemma takes_0_trans: "takes N 0 w w1 \<Longrightarrow> takes N 0 w1 w2 \<Longrightarrow> takes N 0 w w2"
  using takes_trans [of N 0 w w1 0 w2] by simp

lemma takes_close_chain: "close_chain ch w = Some w' \<Longrightarrow> takes N 0 w w'"
proof (induction ch arbitrary: w)
  case (Cons x ch)
  obtain p i where x: "x = (p, i)" by fastforce
  obtain w1 where w1: "rave_free p w = Some w1" "close_chain ch (instr_touch p w1) = Some w'"
    using Cons.prems x by (auto simp: bind_eq_Some_conv instr_destroy_def)
  from takes_free [OF w1(1)] takes_touch Cons.IH [OF w1(2)] show ?case
    by (blast intro: takes_0_trans)
qed simp

lemma takes_set_close: "instr_set_close self r w = Some (r', w') \<Longrightarrow> takes N 0 w w'"
  by (auto simp: instr_set_close_def bind_eq_Some_conv intro: takes_close_chain split: if_splits option.splits)

lemma takes_set_destroy: "instr_set_destroy self w = Some w' \<Longrightarrow> takes N 0 w w'"
  by (auto simp: instr_set_destroy_def intro: takes_free split: if_splits)

lemma takes_close_epilogues: "close_epilogues es w = Some w' \<Longrightarrow> takes N 0 w w'"
proof (induction es arbitrary: w)
  case (Cons s es)
  then show ?case
    by (auto simp: bind_eq_Some_conv)
      (blast intro: takes_0_trans takes_set_close takes_set_destroy)
qed simp

lemma takes_transformable_close: "transformable_close tf w = Some (tf', w') \<Longrightarrow> takes N 0 w w'"
  by (auto simp: transformable_close_def bind_eq_Some_conv Let_def split: option.splits)
    (blast intro: takes_0_trans takes_close_chain takes_close_epilogues takes_free)+

lemma takes_add_function_err:
  "add_function_err ret tf is contents self w = Some (rc, self', w') \<Longrightarrow> takes N 0 w w'"
  by (auto simp: add_function_err_def transformable_destroy_def bind_eq_Some_conv split: if_splits)
    (blast intro: takes_0_trans takes_set_close takes_set_destroy takes_transformable_close takes_free)+

text \<open>A supply that is not used up is left.\<close>

lemma supply_takes:
  assumes "has_supply w (k + K) N" "takes N k w w'"
  shows "has_supply w' K N"
  unfolding has_supply_def Let_def
proof (intro allI impI)
  fix i assume i: "i < K"
  obtain j where j: "nalloc w' = nalloc w + j" "j \<le> k"
    using assms(2) by (auto simp: takes_def nat_le_iff_add)
  have a: "alloc w' = alloc w" using assms(2) by (simp add: takes_def)
  let ?p = "\<lambda>i. alloc w (nalloc w + i)"
  have at: "?p m \<noteq> NULL \<and> unat (?p m) + N < 2 ^ 64 \<and> (\<forall>(b, s) \<in> set (live w). beside (?p m) N b s) \<and>
      (\<forall>l < m. beside (?p m) N (?p l) N)" if "m < k + K" for m
    using assms(1) that unfolding has_supply_def Let_def by blast
  have now: "alloc w' (nalloc w' + m) = ?p (j + m)" for m by (simp add: a j(1) add.assoc)
  have m: "j + i < k + K" using j(2) i by simp
  have old: "beside (?p (j + i)) N b s" if bs: "(b, s) \<in> set (live w')" for b s
  proof -
    from bs assms(2) consider "(b, s) \<in> set (live w)"
      | l where "nalloc w \<le> l" "l < nalloc w'" "b = alloc w l" "s \<le> N"
      unfolding takes_def by blast
    then show ?thesis
    proof cases
      case 1
      with at [OF m] show ?thesis by blast
    next
      case 2
      then obtain l' where l': "l = nalloc w + l'" "l' < j" by (auto simp: nat_le_iff_add j(1))
      with at [OF m] have "beside (?p (j + i)) N (?p l') N" by simp
      then show ?thesis using 2 l'(1) by (auto intro: beside_mono)
    qed
  qed
  show "alloc w' (nalloc w' + i) \<noteq> NULL \<and> unat (alloc w' (nalloc w' + i)) + N < 2 ^ 64 \<and>
      (\<forall>(b, s) \<in> set (live w'). beside (alloc w' (nalloc w' + i)) N b s) \<and>
      (\<forall>l < i. beside (alloc w' (nalloc w' + i)) N (alloc w' (nalloc w' + l)) N)"
    unfolding now using at [OF m] old by auto
qed

section \<open>The scan\<close>

lemma next_set_loop_takes:
  assumes "next_set_loop fuel api (Some test) limit walk og is instr w = Some ((rc, walk', og', r), w')"
    and "dr_advances api" "dr_instr_size api \<le> N"
  shows "\<exists>k. takes N k w w' \<and> k \<le> unat limit - unat walk \<and>
    (rc = RAVE_SUCCESS \<longrightarrow>
       unat walk \<le> unat walk' \<and> (walk < limit \<longrightarrow> unat walk < unat walk') \<and>
       k \<le> (unat limit - unat walk) - (unat limit - unat walk') \<and>
       (\<exists>s j. r = Some s \<and> nr_instrs s = nr_instrs is + of_nat j \<and> j \<le> unat limit - unat walk))"
  using assms(1)
proof (induction fuel arbitrary: walk og "is" instr w)
  case 0
  then show ?case by simp
next
  case (Suc fuel)
  note run = Suc.prems(1)
  obtain p i where d: "dr_decode api (mem w) walk og = (p, i)" by fastforce
  obtain instr1 w1 where c: "instr_create api w = (instr1, w1)" by fastforce
  let ?og = "og + int_to_size (dr_length api i)"
  let ?is = "is\<lparr>nr_instrs := nr_instrs is + 1, set_end := ?og, instrs := instrs is @ [(instr, i)]\<rparr>"
  have fin: "rc = RAVE_SUCCESS \<and> walk' = q \<and> r = Some is \<and> takes N 0 w w'"
    if "next_set_done q og'' is instr w = Some ((rc, walk', og', r), w')" for q og''
    using that by (auto simp: next_set_done_def instr_destroy_def bind_eq_Some_conv intro: takes_free)
  have err: "rc = ret \<and> takes N 0 v w'"
    if "next_set_err ret q og'' is' ins v = Some ((rc, walk', og', r), w')" for ret q og'' is' ins v
    using that by (auto simp: next_set_err_def instr_destroy_def bind_eq_Some_conv split: if_splits
        intro: takes_0_trans takes_free takes_set_close)
  show ?case
  proof (cases "walk < limit")
    case False
    with run fin [of walk og] show ?thesis by (intro exI [of _ 0]) (auto intro: exI [of _ 0])
  next
    case lt: True
    then have K: "unat walk < unat limit" by (simp add: word_less_nat_alt)
    show ?thesis
    proof (cases "p = NULL")
      case True
      with run lt d err [of RAVE_ETRANSFORM p og "is" instr w] show ?thesis
        by (intro exI [of _ 0]) auto
    next
      case False
      note adv = dr_advancesD [OF assms(2) d False]
      show ?thesis
      proof (cases "test i")
        case True
        have c1: "takes N 1 w w1" by (rule takes_malloc [OF c [unfolded instr_create_def] assms(3)])
        show ?thesis
        proof (cases "instr1 = NULL")
          case i0: True
          with run lt d False True c err [of RAVE_ENOMEM p ?og ?is NULL w1]
          have "rc = RAVE_ENOMEM" "takes N 0 w1 w'" by (simp_all add: Let_def)
          with takes_trans [OF c1, of 0 w'] K show ?thesis by (intro exI [of _ 1]) auto
        next
          case i0: False
          have "next_set_loop fuel api (Some test) limit p ?og ?is instr1 w1 = Some ((rc, walk', og', r), w')"
            using run lt d False True c i0 by (simp add: Let_def)
          from Suc.IH [OF this] obtain k where k: "takes N k w1 w'" "k \<le> unat limit - unat p"
            "rc = RAVE_SUCCESS \<Longrightarrow> unat p \<le> unat walk' \<and> k \<le> (unat limit - unat p) - (unat limit - unat walk') \<and>
               (\<exists>s j. r = Some s \<and> nr_instrs s = nr_instrs ?is + of_nat j \<and> j \<le> unat limit - unat p)"
            by blast
          show ?thesis
          proof (intro exI [of _ "1 + k"] conjI impI)
            show "takes N (1 + k) w w'" using takes_trans [OF c1 k(1)] .
            show "1 + k \<le> unat limit - unat walk" using k(2) adv K by linarith
            assume ok: "rc = RAVE_SUCCESS"
            show "unat walk \<le> unat walk'" "unat walk < unat walk'"
              "1 + k \<le> unat limit - unat walk - (unat limit - unat walk')"
              using k(3) [OF ok] adv K by linarith+
            obtain s j where "r = Some s" "nr_instrs s = nr_instrs ?is + of_nat j" "j \<le> unat limit - unat p"
              using k(3) [OF ok] by blast
            then show "\<exists>s j. r = Some s \<and> nr_instrs s = nr_instrs is + of_nat j \<and> j \<le> unat limit - unat walk"
              using adv K by (intro exI [of _ s] exI [of _ "Suc j"]) auto
          qed
        qed
      next
        case t: False
        show ?thesis
        proof (cases "nr_instrs is = 0")
          case True
          let ?js = "is\<lparr>set_start := ?og, set_end := ?og\<rparr>"
          have "next_set_loop fuel api (Some test) limit p ?og ?js instr w = Some ((rc, walk', og', r), w')"
            using run lt d False t True by (simp add: Let_def)
          from Suc.IH [OF this] obtain k where k: "takes N k w w'" "k \<le> unat limit - unat p"
            "rc = RAVE_SUCCESS \<Longrightarrow> unat p \<le> unat walk' \<and> k \<le> (unat limit - unat p) - (unat limit - unat walk') \<and>
               (\<exists>s j. r = Some s \<and> nr_instrs s = nr_instrs ?js + of_nat j \<and> j \<le> unat limit - unat p)"
            by blast
          show ?thesis
          proof (intro exI [of _ k] conjI impI)
            show "takes N k w w'" by (rule k(1))
            show "k \<le> unat limit - unat walk" using k(2) adv by linarith
            assume ok: "rc = RAVE_SUCCESS"
            show "unat walk \<le> unat walk'" "unat walk < unat walk'"
              "k \<le> unat limit - unat walk - (unat limit - unat walk')"
              using k(3) [OF ok] adv by linarith+
            obtain s j where "r = Some s" "nr_instrs s = nr_instrs ?js + of_nat j" "j \<le> unat limit - unat p"
              using k(3) [OF ok] by blast
            then show "\<exists>s j. r = Some s \<and> nr_instrs s = nr_instrs is + of_nat j \<and> j \<le> unat limit - unat walk"
              using adv by (intro exI [of _ s] exI [of _ j]) auto
          qed
        next
          case n: False
          with run lt d False t fin [of p ?og] have "rc = RAVE_SUCCESS" "walk' = p" "r = Some is" "takes N 0 w w'"
            by (simp_all add: Let_def)
          with adv show ?thesis by (intro exI [of _ 0]) (auto intro: exI [of _ 0])
        qed
      qed
    qed
  qed
qed

lemma next_set_takes:
  assumes "next_set fuel api walk limit og self contents (Some test) w = Some ((rc, walk', og', r), w')"
    and "dr_advances api" "dr_instr_size api \<le> N" "self \<noteq> NULL"
  shows "\<exists>k. takes N (1 + k) w w' \<and> k \<le> unat limit - unat walk \<and>
    (rc = RAVE_SUCCESS \<longrightarrow>
       unat walk \<le> unat walk' \<and> (walk < limit \<longrightarrow> unat walk < unat walk') \<and>
       k \<le> (unat limit - unat walk) - (unat limit - unat walk') \<and>
       (\<exists>s j. r = Some s \<and> nr_instrs s = of_nat j \<and> j \<le> unat limit - unat walk))"
proof -
  obtain instr w1 where c: "instr_create api w = (instr, w1)" by fastforce
  have c1: "takes N 1 w w1" by (rule takes_malloc [OF c [unfolded instr_create_def] assms(3)])
  show ?thesis
  proof (cases "instr = NULL")
    case True
    with assms(1,4) c have "rc = RAVE_ENOMEM" "w' = w1" by (simp_all add: next_set_def)
    with c1 show ?thesis by (intro exI [of _ 0]) simp
  next
    case False
    then have "next_set_loop fuel api (Some test) limit walk og (fresh_instr_set self og) instr w1 =
        Some ((rc, walk', og', r), w')"
      using assms(1,4) c by (simp add: next_set_def instr_set_init_def)
    from next_set_loop_takes [OF this assms(2,3)] obtain k where k: "takes N k w1 w'" "k \<le> unat limit - unat walk"
      "rc = RAVE_SUCCESS \<longrightarrow>
         unat walk \<le> unat walk' \<and> (walk < limit \<longrightarrow> unat walk < unat walk') \<and>
         k \<le> (unat limit - unat walk) - (unat limit - unat walk') \<and>
         (\<exists>s j. r = Some s \<and> nr_instrs s = nr_instrs (fresh_instr_set self og :: 'a instr_set) + of_nat j \<and>
            j \<le> unat limit - unat walk)"
      by blast
    with takes_trans [OF c1 k(1)] show ?thesis
      by (intro exI [of _ k]) (simp add: fresh_instr_set_def)
  qed
qed

section \<open>The hunt and the whole operation\<close>

lemma find_epilogues_takes:
  assumes "find_epilogues fuel inner api limit walk og tf is contents w = Some ((rc, walk', tf', is', contents'), w')"
    and "dr_advances api" "dr_instr_size api \<le> N" "sizeof_instr_set \<le> N" "is \<noteq> NULL"
  shows "takes N (3 * (unat limit - unat walk)) w w'"
  using assms(1,5)
proof (induction fuel arbitrary: walk og tf "is" contents w)
  case 0
  then show ?case by simp
next
  case (Suc fuel)
  show ?case
  proof (cases "walk < limit")
    case False
    with Suc.prems(1) have "w' = w" by simp
    then show ?thesis by (auto intro: takes_mono [OF takes_refl])
  next
    case lt: True
    obtain rc1 walk1 og1 r w1 where n:
      "next_set inner api walk limit og is contents (Some (test_instr_epilogue api)) w =
        Some ((rc1, walk1, og1, r), w1)"
      using Suc.prems(1) lt by (auto simp: bind_eq_Some_conv split: prod.splits)
    obtain k where k: "takes N (1 + k) w w1" "k \<le> unat limit - unat walk"
      "rc1 = RAVE_SUCCESS \<Longrightarrow> unat walk < unat walk1 \<and> k \<le> (unat limit - unat walk) - (unat limit - unat walk1)"
      "rc1 = RAVE_SUCCESS \<Longrightarrow> \<exists>s. r = Some s"
      using next_set_takes [OF n assms(2,3) Suc.prems(2)] lt by blast
    have K: "unat walk < unat limit" using lt by (simp add: word_less_nat_alt)
    show ?thesis
    proof (cases "rc1 = RAVE_SUCCESS")
      case False
      then have "w' = w1" using Suc.prems(1) lt n by simp
      with k(1,2) K show ?thesis by (auto intro: takes_mono)
    next
      case ok: True
      obtain s where s: "r = Some s" using k(4) [OF ok] by blast
      let ?og2 = "og1 + (set_end s - set_start s)"
      have fits: "2 + k + 3 * (unat limit - unat walk1) \<le> 3 * (unat limit - unat walk)"
        using k(3) [OF ok] K by linarith
      have rest: "takes N (3 * (unat limit - unat walk)) w w'"
        if "takes N j w1 w2" "j \<le> 1" "takes N (3 * (unat limit - unat walk1)) w2 w'" for j w2
      proof (rule takes_mono [OF takes_trans [OF takes_trans [OF k(1) that(1)] that(3)]])
        show "1 + k + j + 3 * (unat limit - unat walk1) \<le> 3 * (unat limit - unat walk)"
          using that(2) fits by linarith
      qed
      show ?thesis
      proof (cases "is_epilogue api (prologue tf) s")
        case e: True
        let ?tf = "tf\<lparr>epilogues := epilogues tf @ [s]\<rparr>"
        obtain is2 w2 where c: "instr_set_create w1 = (is2, w2)" by fastforce
        have c1: "takes N 1 w1 w2" by (rule takes_malloc [OF c [unfolded instr_set_create_def] assms(4)])
        show ?thesis
        proof (cases "is2 = NULL")
          case True
          then have "w' = w2" using Suc.prems(1) lt n ok s e c by (simp add: Let_def)
          with rest [OF c1 le_refl] show ?thesis by (auto intro: takes_mono [OF takes_refl])
        next
          case False
          have "find_epilogues fuel inner api limit walk1 ?og2 ?tf is2 None w2 =
              Some ((rc, walk', tf', is', contents'), w')"
            using Suc.prems(1) lt n ok s e c False by (simp add: Let_def)
          from rest [OF c1 le_refl Suc.IH [OF this False]] show ?thesis .
        qed
      next
        case e: False
        obtain contents2 w2 where c: "instr_set_close is (Some s) w1 = Some (contents2, w2)"
          and f: "find_epilogues fuel inner api limit walk1 ?og2 tf is contents2 w2 =
              Some ((rc, walk', tf', is', contents'), w')"
          using Suc.prems(1) lt n ok s e by (auto simp: bind_eq_Some_conv)
        from rest [OF takes_set_close [OF c] _ Suc.IH [OF f Suc.prems(2)]] show ?thesis by simp
      qed
    qed
  qed
qed

lemma order_size_le: "unat (4 * (of_nat j :: size_t)) \<le> 4 * j"
proof -
  have "4 * (of_nat j :: size_t) = of_nat (4 * j)" by simp
  then show ?thesis by (simp only: unat_of_nat) simp
qed

lemma add_function_takes:
  assumes "transform_add_function fuel api self rec bytes w = Some (rc, self', w')"
    and "dr_advances api" "unat bytes + unat (flen rec) < 2 ^ 64"
    and "dr_instr_size api \<le> N" "sizeof_transformable \<le> N" "4 * unat (flen rec) \<le> N"
  shows "takes N (4 + 3 * unat (flen rec)) w w'"
proof -
  let ?limit = "OFFSET bytes (flen rec)" and ?F = "unat (flen rec)"
  have lim: "unat ?limit - unat bytes = ?F"
    unfolding OFFSET_def using unat_plus_nowrap [OF assms(3)] by simp
  have setN: "sizeof_instr_set \<le> N" using assms(5) by (simp add: sizeof_instr_set_def sizeof_transformable_def)
  obtain tp w1 where c: "transformable_create w = (tp, w1)" by fastforce
  have c1: "takes N 1 w w1" by (rule takes_malloc [OF c [unfolded transformable_create_def] assms(5)])
  show ?thesis
  proof (cases "tp = NULL")
    case True
    with assms(1) c have "w' = w1" by (simp add: transform_add_function_def Let_def)
    with takes_mono [OF c1] show ?thesis by simp
  next
    case False
    let ?tf = "transformable_init tp rec :: 'a transformable"
    let ?is = "tp + offset_prologue"
    have pro: "set_ptr (prologue ?tf) = ?is" by (simp add: transformable_init_def fresh_instr_set_def)
    note isN = transformable_create_ptr [OF c False]
    obtain rc1 walk1 og1 r w2 where n: "next_set fuel api bytes ?limit (faddr rec) ?is (Some (prologue ?tf))
        (Some (test_instr_prologue api)) w1 = Some ((rc1, walk1, og1, r), w2)"
      using assms(1) c False pro
      by (auto simp: transform_add_function_def Let_def bind_eq_Some_conv split: prod.splits)
    obtain k where k: "takes N (1 + k) w1 w2" "k \<le> ?F"
      "rc1 = RAVE_SUCCESS \<Longrightarrow> unat bytes \<le> unat walk1 \<and> k \<le> ?F - (unat ?limit - unat walk1)"
      "rc1 = RAVE_SUCCESS \<Longrightarrow> \<exists>s j. r = Some s \<and> nr_instrs s = of_nat j \<and> j \<le> ?F"
      using next_set_takes [OF n assms(2,4) isN] unfolding lim by blast
    have w2: "takes N (2 + k) w w2" using takes_trans [OF c1 k(1)] by simp
    have upto: "takes N (4 + 3 * ?F) w v" if "takes N (2 + k) w v" for v
      by (rule takes_mono [OF that]) (use k(2) in linarith)
    show ?thesis
    proof (cases "rc1 = RAVE_SUCCESS")
      case False
      with assms(1) c \<open>tp \<noteq> NULL\<close> n pro have "w' = w2" by (simp add: transform_add_function_def Let_def)
      with upto [OF w2] show ?thesis by simp
    next
      case ok: True
      then obtain p j where p: "r = Some p" "nr_instrs p = of_nat j" "j \<le> ?F" using k(4) by blast
      note step = transform_add_function_def c \<open>tp \<noteq> NULL\<close> n pro ok p(1) Let_def
      let ?tf1 = "?tf\<lparr>prologue := p\<rparr>"
      show ?thesis
      proof (cases "nr_instrs p < 2")
        case True
        then have "add_function_err RAVE_ETRANSFORM ?tf1 NULL None self w2 = Some (rc, self', w')"
          using assms(1) by (simp add: step)
        from takes_trans [OF w2 takes_add_function_err [OF this]] upto show ?thesis by simp
      next
        case many: False
        obtain op w3 where m: "rave_malloc (unat (4 * nr_instrs p)) w2 = (op, w3)" by fastforce
        have "unat (4 * nr_instrs p) \<le> N"
          using order_size_le [of j] p(2,3) assms(6) by simp
        note w3 = takes_trans [OF w2 takes_malloc [OF m this]]
        have upto3: "takes N (4 + 3 * ?F) w v" if "takes N 0 w3 v" for v
          by (rule takes_mono [OF takes_trans [OF w3 that]]) (use k(2) in linarith)
        show ?thesis
        proof (cases "op = NULL")
          case True
          then have "add_function_err RAVE_ENOMEM ?tf1 NULL None self w3 = Some (rc, self', w')"
            using assms(1) many m by (simp add: step)
          from upto3 [OF takes_add_function_err [OF this]] show ?thesis .
        next
          case op: False
          let ?tf2 = "?tf1\<lparr>tf_order := Some (op, identity_order (nr_instrs p))\<rparr>"
          obtain "is" w4 where i: "instr_set_create w3 = (is, w4)" by fastforce
          note w4 = takes_trans [OF w3 takes_malloc [OF i [unfolded instr_set_create_def] setN]]
          show ?thesis
          proof (cases "is = NULL")
            case True
            then have e: "add_function_err RAVE_ENOMEM ?tf2 NULL None self w4 = Some (rc, self', w')"
              using assms(1) many m op i by (simp add: step)
            show ?thesis
              by (rule takes_mono [OF takes_trans [OF w4 takes_add_function_err [OF e]]]) (use k(2) in linarith)
          next
            case False
            obtain rc2 walk2 tf3 is2 contents2 w5 where f: "find_epilogues fuel fuel api ?limit walk1 og1 ?tf2 is None w4 =
                Some ((rc2, walk2, tf3, is2, contents2), w5)"
              using assms(1) many m op i False
              by (auto simp: step bind_eq_Some_conv split: prod.splits)
            note w5 = takes_trans [OF w4 find_epilogues_takes [OF f assms(2,4) setN False]]
            have "takes N 0 w5 w'"
            proof (cases "rc2 = RAVE_SUCCESS")
              case True
              obtain w6 where "instr_set_destroy is2 w5 = Some w6" "w' = w6 \<or>
                  add_function_err RAVE_ETRANSFORM tf3 NULL None self w6 = Some (rc, self', w')"
                using assms(1) many m op i False f True
                by (auto simp: step bind_eq_Some_conv split: if_splits)
              then show ?thesis
                by (metis takes_0_trans takes_add_function_err takes_set_destroy)
            next
              case bad: False
              then have "add_function_err rc2 tf3 is2 contents2 self w5 = Some (rc, self', w')"
                using assms(1) many m op i False f by (simp add: step)
              then show ?thesis by (rule takes_add_function_err)
            qed
            then show ?thesis
              by (rule takes_mono [OF takes_trans [OF w5]])
                (use k(3) [OF ok] lim in linarith)
          qed
        qed
      qed
    qed
  qed
qed

end
