(* ===== verification/Rave_Returns.thy ===== *)
theory Rave_Returns
  imports Rave_Analysis Transform_Takes
begin

text \<open>
  The analysis of all functions ends: with a decoder that advances, fuel for the longest function
  and enough memory, the callback succeeds on every function the metadata names, and \<open>rave_init\<close>
  succeeds once its earlier stages have.
\<close>

text \<open>What the analysis of a function may take, and what it asks of the function.\<close>

definition add_cost :: "func \<Rightarrow> nat" where
  "add_cost f = 4 + 3 * unat (flen f)"

definition walkable :: "nat \<Rightarrow> nat \<Rightarrow> func \<Rightarrow> bool" where
  "walkable fuel N f \<longleftrightarrow>
     unat (flen f) < fuel \<and> 4 * unat (flen f) \<le> N \<and> unat (faddr f) + unat (flen f) < 2 ^ 64"

lemma contained_bounds:
  assumes "window_ok tw" "text_small tw" "window_contains (Some tw) (faddr f)"
    and "window_contains (Some tw) (faddr f + flen f)" "unat (faddr f) + unat (flen f) < 2 ^ 64"
  shows "func_bounds f (fst (window_view (Some tw) (faddr f)))"
proof -
  obtain k where k: "k < unat (wlength tw)" "faddr f = orig tw + of_nat k"
    using assms(3) window_contains_offset [OF assms(1)] by blast
  obtain l where l: "l < unat (wlength tw)" "faddr f + flen f = orig tw + of_nat l"
    using assms(4) window_contains_offset [OF assms(1)] by blast
  have ok: "unat (orig tw) + unat (wlength tw) < 2 ^ 64" "unat (data tw) + unat (wlength tw) < 2 ^ 64"
    using assms(1) unfolding window_ok_def by blast+
  have small: "unat (wlength tw) \<le> 2 ^ 31" "unat (orig tw) + 2 * unat (wlength tw) < 2 ^ 64"
    using assms(2) unfolding text_small_def by blast+
  have "k < 2 ^ 64" "l < 2 ^ 64" using k(1) l(1) unat_lt64 [of "wlength tw"] by linarith+
  then have u: "unat (of_nat k :: ptr) = k" "unat (of_nat l :: ptr) = l"
    by (simp_all add: unat_of_nat64)
  have fa: "unat (faddr f) = unat (orig tw) + k"
    unfolding k(2) using k(1) ok(1) u(1) by (subst unat_plus_nowrap) linarith+
  have "unat (faddr f + flen f) = unat (orig tw) + l"
    unfolding l(2) using l(1) ok(1) u(2) by (subst unat_plus_nowrap) linarith+
  then have fl: "k + unat (flen f) = l"
    using unat_plus_nowrap [OF assms(5)] fa by simp
  have v: "fst (window_view (Some tw) (faddr f)) = data tw + of_nat k"
    using window_view_inside [OF assms(1) k(1)] k(2) by simp
  have dk: "unat (data tw + of_nat k) = unat (data tw) + k"
    using k(1) ok(2) u(1) by (subst unat_plus_nowrap) linarith+
  show ?thesis
    unfolding func_bounds_def v dk fa using fl k(1) l(1) ok small by (intro conjI; linarith)
qed

lemma process_function_total:
  assumes "code_text h = Some tw" "h_transform h = Some (tp, Some t)" "window_ok tw" "text_small tw"
    and "dr_advances api" "dr_instr_size api \<le> N" "sizeof_transformable \<le> N" "walkable fuel N f"
    and "has_supply w (add_cost f + K) N" "NULL \<notin> live_set w"
  shows "\<exists>h1 w1. process_function fuel api f (h, w) = Some (RAVE_SUCCESS, h1, w1) \<and> has_supply w1 K N"
proof (cases "window_contains (Some tw) (faddr f) \<and> window_contains (Some tw) (faddr f + flen f)")
  case False
  then have "process_function fuel api f (h, w) = Some (RAVE_SUCCESS, h, w)"
    using assms(1) by (auto simp: process_function_def)
  then show ?thesis using supply_less [OF assms(9), of K] by simp
next
  case True
  let ?bytes = "fst (window_view (Some tw) (faddr f))"
  have f: "unat (flen f) < fuel" "4 * unat (flen f) \<le> N" "unat (faddr f) + unat (flen f) < 2 ^ 64"
    using assms(8) unfolding walkable_def by blast+
  have b: "func_bounds f ?bytes"
    using contained_bounds [OF assms(3,4)] True f(3) by blast
  have "plenty api f w"
    unfolding plenty_def using assms(6,7,9) f(2) supply_less [of w "add_cost f + K" N "add_cost f"]
    by (intro exI [of _ N]) (simp add: add_cost_def)
  from add_function_returns_all [OF assms(5) f(1) b this assms(10), of t]
  obtain rc t1 w1 where a: "transform_add_function fuel api t f ?bytes w = Some (rc, t1, w1)" by blast
  have "takes N (add_cost f) w w1"
    unfolding add_cost_def
    by (rule add_function_takes [OF a assms(5) _ assms(6,7) f(2)]) (use b in \<open>simp add: func_bounds_def\<close>)
  from supply_takes [OF assms(9) this] a True assms(1,2) show ?thesis
    by (simp add: process_function_def)
qed

lemma each_function_total:
  assumes "code_text h0 = Some tw" "window_ok tw" "text_small tw"
    and "dr_advances api" "dr_instr_size api \<le> N" "sizeof_transformable \<le> N"
    and "analysis_inv api h0 tp tw B L0 ps m s" "\<forall>f \<in> set fs. walkable fuel N f"
    and "has_supply (snd s) (sum_list (map add_cost fs)) N"
  shows "\<exists>s'. each_function (process_function fuel api) fs s = Some (RAVE_SUCCESS, s') \<and>
    analysis_inv api h0 tp tw B L0 ps m s'"
  using assms(7-9)
proof (induction fs arbitrary: s)
  case (Cons f fs)
  obtain h w where s: "s = (h, w)" by fastforce
  obtain t L where t: "h = h0\<lparr>h_transform := Some (tp, Some t)\<rparr>" "NULL \<notin> L"
      "owns B L (concat (map tf_hold (transformables t)) @ ps) w"
    using Cons.prems(1) by (auto simp: analysis_inv_def s)
  have h: "code_text h = Some tw" "h_transform h = Some (tp, Some t)" by (simp_all add: t(1) assms(1))
  have "has_supply w (add_cost f + sum_list (map add_cost fs)) N" using Cons.prems(3) by (simp add: s)
  from process_function_total [OF h assms(2-6) _ this owns_not_NULL [OF t(3,2)], of fuel] Cons.prems(2)
  obtain h1 w1 where p: "process_function fuel api f (h, w) = Some (RAVE_SUCCESS, h1, w1)"
    "has_supply w1 (sum_list (map add_cost fs)) N" by auto
  have "analysis_inv api h0 tp tw B L0 ps m (h1, w1)"
    using process_function_keeps [OF assms(1,2)] p(1) Cons.prems(1) unfolding callback_keeps_def s by blast
  with Cons.IH [of "(h1, w1)"] Cons.prems(2) p show ?case by (simp add: s)
qed simp

section \<open>From the stages to the result\<close>

lemma rave_init_by_stages:
  assumes "init_stages fuel pf h filename w d mp tp b w3 sec segment m d1 h6 w4"
  shows "rave_init fuel pf (Some h) filename w d =
    do { (rc, d2, h7, w5) \<leftarrow> foreach_function (p_dwarf pf) m (process_function fuel (p_dr pf)) d1 (h6, w4);
         Some (rc, Some h7, w5, d2) }"
proof -
  obtain w1 w2 where st: "metadata_create w = (mp, w1)" "mp \<noteq> NULL" "transform_create w1 = (tp, w2)" "tp \<noteq> NULL"
      "binary_init (p_os pf) (p_elf pf) (Option.bind (h_binary h) bin_header) filename w2 = (RAVE_SUCCESS, b, w3)"
      "binary_find_section (p_elf pf) b ''.text'' = Some (RAVE_SUCCESS, Some sec)"
      "binary_find_segment (p_elf pf) b (int_to_size (section_address sec)) = Some (RAVE_SUCCESS, Some segment)"
      "metadata_init (p_dwarf pf) mp None (h_ptr h) b d = (RAVE_SUCCESS, Some m, d1)" "dr_set_isa_mode (p_dr pf)"
      "map_code_pages (staged h mp m tp b) sec segment w3 = Some (RAVE_SUCCESS, h6, w4)"
    using assms unfolding init_stages_def by blast
  have it: "init_transform (p_dr pf) tp = (RAVE_SUCCESS, Some \<lparr>tr_ptr = tp, transformables = []\<rparr>)"
    using st(9) by (simp add: init_transform_def transform_init_def)
  have "rave_init fuel pf (Some h) filename w d =
      do { (rc, h6, w4) \<leftarrow> map_code_pages (staged h mp m tp b) sec segment w3;
           if rc \<noteq> RAVE_SUCCESS then Some (rc, Some h6, w4, d1)
           else do { (rc, d2, h7, w5) \<leftarrow> foreach_function (p_dwarf pf) m (process_function fuel (p_dr pf)) d1 (h6, w4);
                     Some (rc, Some h7, w5, d2) } }"
    by (simp add: rave_init_def st(1-8) it staged_def cong: if_cong)
  then show ?thesis by (simp add: st(10))
qed

lemma rave_init_from_stages:
  assumes "init_stages fuel pf h filename w d mp tp b w3 sec segment m d1 h6 w4"
    and "foreach_function (p_dwarf pf) m (process_function fuel (p_dr pf)) d1 (h6, w4) = Some (rc, d2, h7, w5)"
  shows "rave_init fuel pf (Some h) filename w d = Some (rc, Some h7, w5, d2)"
  by (simp add: rave_init_by_stages [OF assms(1)] assms(2))

lemma rave_init_total:
  assumes "init_stages fuel pf h filename w d mp tp b w3 sec segment m d1 h6 w4"
    and "mmap_frame (p_os pf)" "NULL \<notin> live_set w" "text_placed sec segment"
    and "code_text h6 = Some tw" "text_small tw"
    and "dr_advances (p_dr pf)" "dr_instr_size (p_dr pf) \<le> N" "sizeof_transformable \<le> N"
    and "unit_links (p_dwarf pf) (dbg m) (lib d1) us l' DW_DLV_NO_ENTRY" "list_all (clean_unit (p_dwarf pf)) us"
    and "\<forall>f \<in> set (unit_functions (p_dwarf pf) us). walkable fuel N f"
    and "has_supply w4 (sum_list (map add_cost (unit_functions (p_dwarf pf) us))) N"
  shows "\<exists>h1 w' d'. rave_init fuel pf (Some h) filename w d = Some (RAVE_SUCCESS, Some h1, w', d')"
proof -
  let ?cb = "process_function fuel (p_dr pf)" and ?fs = "unit_functions (p_dwarf pf) us"
  obtain mapping B L where mp: "h6 = (staged h mp m tp b)\<lparr>
      code_segment := Some (segment_window segment mapping), code_text := Some (text_window sec segment mapping)\<rparr>"
    "window_ok (segment_window segment mapping)"
    "analysis_inv (p_dr pf) h6 tp (text_window sec segment mapping) B L [mp, tp] (mem w4) (h6, w4)"
    by (rule stages_inv [OF assms(1-4)]) blast
  have tw: "tw = text_window sec segment mapping" using mp(1) assms(5) by simp
  have "window_ok tw" unfolding tw by (rule text_window_ok [OF assms(4) mp(2)])
  from each_function_total [OF assms(5) this assms(6-9) mp(3) [folded tw] assms(12)] assms(13)
  obtain s' where s': "each_function ?cb ?fs (h6, w4) = Some (RAVE_SUCCESS, s')" by auto
  note eq = foreach_function_eq [OF assms(10), of ?cb "(h6, w4)"]
  have "map_option unit_outcome (visit_units (p_dwarf pf) ?cb us l' DW_DLV_NO_ENTRY (h6, w4)) =
      Some (RAVE_SUCCESS, s')"
    using visit_units_clean [OF assms(11) refl] s' by metis
  then obtain d' where "foreach_function (p_dwarf pf) m ?cb d1 (h6, w4) = Some (RAVE_SUCCESS, d', s')"
    using eq by (auto simp: map_option_eq_Some)
  from rave_init_from_stages [OF assms(1), of RAVE_SUCCESS d' "fst s'" "snd s'"] this show ?thesis by auto
qed

end
