(* ===== verification/Rave_Failures.thy ===== *)
theory Rave_Failures
  imports Rave_Analysis
begin

text \<open>
  How \<open>rave_init\<close> fails on a handle whose code is not mapped yet: the places it returns from, what
  it holds there, and which of its returns leave a handle that can be closed.
\<close>

section \<open>The stages\<close>

text \<open>A handle without its code window cannot be closed, which is what the label \<open>err\<close> does.\<close>

lemma rave_close_unmapped: "code_segment h = None \<Longrightarrow> rave_close pf (Some h) w d = None"
  by (simp add: rave_close_def)

lemma rave_init_err_unmapped: "code_segment h = None \<Longrightarrow> rave_init_err pf rc h w d = None"
  by (simp add: rave_init_err_def rave_close_unmapped)

lemma binary_init_mapped:
  "binary_init os api old filename w = (RAVE_SUCCESS, b, w') \<Longrightarrow> bin_mapping b \<noteq> NULL"
  by (auto simp: binary_init_def map_file_def Let_def split: if_splits option.splits prod.splits)

lemma find_segment_code:
  "find_segment_loop api elf phnum address i out = (rc, s) \<Longrightarrow>
     rc \<in> {RAVE_SUCCESS, RAVE_EPROGRAM_HEADER, RAVE_ENO_SEGMENT}"
proof (induction api elf phnum address i out rule: find_segment_loop.induct)
  case (1 api elf phnum address i out)
  from 1(3) show ?case
    by (subst (asm) find_segment_loop.simps)
      (auto simp: segment_init_def Let_def split: if_splits option.splits dest: 1(1,2))
qed

lemma map_code_pages_failD:
  assumes "map_code_pages self sec segment w = Some (rc, self', w')" "rc \<noteq> RAVE_SUCCESS"
  shows "self' = self" "live w' = live w" "rc \<in> {RAVE_ESEG_NOT_LOADABLE, RAVE_ENOMEM}"
  using assms
  by (auto simp: map_code_pages_def rave_calloc_def rave_malloc_def Let_def bind_eq_Some_conv
      split: if_splits option.splits prod.splits)

text \<open>What the handle has taken so far when \<open>rave_init\<close> returns before the code is mapped.\<close>

definition taken :: "'i rave_handle \<Rightarrow> ptr set" where
  "taken h = {p. p \<noteq> NULL \<and> ((\<exists>c. h_metadata h = Some (p, c)) \<or> (\<exists>c. h_transform h = Some (p, c)))}"

definition unmapped_failure :: "rave_errno \<Rightarrow> 'i rave_handle \<Rightarrow> bool" where
  "unmapped_failure rc h \<longleftrightarrow>
     code_segment h = None \<and>
     rc \<in> {RAVE_ENOMEM, RAVE_EPROGRAM_HEADER, RAVE_ENO_SEGMENT, RAVE_EDWARF, RAVE_ESEG_NOT_LOADABLE} \<and>
     (\<forall>b. h_binary h = Some b \<longrightarrow> bin_mapping b \<noteq> NULL)"

text \<open>A new handle is taken through the stages until one of them fails, or the walk ends.\<close>

lemma taken_simps [simp]:
  "h_metadata h = Some (mp, c) \<Longrightarrow> h_transform h = None \<Longrightarrow> taken h = {mp} - {NULL}"
  "h_metadata h = Some (mp, c) \<Longrightarrow> h_transform h = Some (tp, c') \<Longrightarrow> taken h = {mp, tp} - {NULL}"
  by (auto simp: taken_def)

lemma fresh_handle_simps [simp]:
  "h_ptr (fresh_handle p) = p" "h_binary (fresh_handle p) = None" "h_metadata (fresh_handle p) = None"
  "h_transform (fresh_handle p) = None" "code_segment (fresh_handle p) = None"
  by (simp_all add: fresh_handle_def)

text \<open>From the point where both blocks are there.\<close>

lemma rave_init_opened:
  fixes pf :: "('i, 'd) platform"
  assumes run: "rave_init fuel pf (Some (fresh_handle p)) filename w d = Some (rc, h', w', d')"
    and c: "metadata_create w = (mp, w1)" "mp \<noteq> NULL" "transform_create w1 = (tp, w2)" "tp \<noteq> NULL"
    and frame: "mmap_frame (p_os pf)"
  obtains (stop) h1 mc tc where "h' = Some h1" "live w' = live w2" "h_metadata h1 = Some (mp, mc)"
      "h_transform h1 = Some (tp, tc)" "unmapped_failure rc h1"
    | (walk) b w3 sec segment m d1 h6 w4 h1 where
      "init_stages fuel pf (fresh_handle p) filename w d mp tp b w3 sec segment m d1 h6 w4"
      "foreach_function (p_dwarf pf) m (process_function fuel (p_dr pf)) d1 (h6, w4) =
         Some (rc, d', (h1, w'))" "h' = Some h1"
proof -
  let ?h = "fresh_handle p :: 'i rave_handle"
  obtain rc1 b w3 where bi: "binary_init (p_os pf) (p_elf pf) None filename w2 = (rc1, b, w3)"
    by (metis prod_cases3)
  note live3 = binary_init_frame [OF frame bi]
  note step = rave_init_def c bi Let_def bind_eq_Some_conv rave_init_err_unmapped
  have rc1: "rc1 = RAVE_SUCCESS" using run by (auto simp: step split: if_splits)
  note step = step rc1 and mapped = binary_init_mapped [OF bi [unfolded rc1]]
  obtain sec where sec: "binary_find_section (p_elf pf) b ''.text'' = Some (RAVE_SUCCESS, Some sec)"
    using run by (auto simp: step split: if_splits)
  obtain rc2 sg where seg: "binary_find_segment (p_elf pf) b (int_to_size (section_address sec)) = Some (rc2, sg)"
    using run by (auto simp: step sec split: if_splits)
  note step = step sec seg
  obtain rc3 mc d1 where mi: "metadata_init (p_dwarf pf) mp None p b d = (rc3, mc, d1)" by (metis prod_cases3)
  obtain rc4 tc where it: "init_transform (p_dr pf) tp = (rc4, tc)" by fastforce
  consider "rc2 \<noteq> RAVE_SUCCESS" | "rc2 = RAVE_SUCCESS" "rc3 \<noteq> RAVE_SUCCESS"
    | (ready) segment m where "rc2 = RAVE_SUCCESS" "sg = Some segment" "rc3 = RAVE_SUCCESS" "mc = Some m"
    using run mi by (auto simp: step metadata_init_def split: if_splits prod.splits)
  then show thesis
  proof cases
    case 1
    then have "rc2 \<in> {RAVE_EPROGRAM_HEADER, RAVE_ENO_SEGMENT}"
      using seg find_segment_code by (fastforce simp: binary_find_segment_def split: option.splits)
    with 1 run mapped live3 show thesis by (intro stop) (auto simp: step unmapped_failure_def)
  next
    case 2
    then have "rc3 = RAVE_EDWARF" using mi c by (auto simp: metadata_init_def Let_def split: if_splits prod.splits)
    with 2 run mapped live3 mi show thesis by (intro stop) (auto simp: step unmapped_failure_def)
  next
    case ready
    note step = step ready mi it
    have rc4: "rc4 = RAVE_SUCCESS" using run by (auto simp: step split: if_splits)
    note tc = init_transform_ok [OF it [unfolded rc4]]
    note step = step rc4 staged_def
    have "map_code_pages (staged ?h mp m tp b) sec segment w3 \<noteq> None"
      using run tc by (auto simp: step)
    then obtain rc5 h6 w4 where
      mp5: "map_code_pages (staged ?h mp m tp b) sec segment w3 = Some (rc5, h6, w4)"
      by (metis not_None_eq prod_cases3)
    show thesis
    proof (cases "rc5 = RAVE_SUCCESS")
      case False
      note f = map_code_pages_failD [OF mp5 this]
      from run tc mp5 False have "rc = rc5" "h' = Some h6" "w' = w4" by (auto simp: step)
      with f mapped live3 show thesis
        by (intro stop [of h6 "Some m" "Some \<lparr>tr_ptr = tp, transformables = []\<rparr>"])
          (auto simp: unmapped_failure_def staged_def)
    next
      case True
      with run tc mp5 obtain h1 where
        "foreach_function (p_dwarf pf) m (process_function fuel (p_dr pf)) d1 (h6, w4) = Some (rc, d', (h1, w'))"
        "h' = Some h1" by (auto simp: step)
      with c bi rc1 sec seg ready mi tc mp5 True show thesis
        by (intro walk) (auto simp: init_stages_def)
    qed
  qed
qed

lemma rave_init_early:
  assumes run: "rave_init fuel pf (Some (fresh_handle p)) filename w d = Some (rc, h', w', d')"
    and frame: "mmap_frame (p_os pf)"
  obtains (early) h1 where "h' = Some h1" "unmapped_failure rc h1"
      "taken h1 \<inter> live_set w = {}" "live_set w' = live_set w \<union> taken h1" "set (live w) \<subseteq> set (live w')"
    | (walk) mp tp b w3 sec segment m d1 h6 w4 h1 where
      "init_stages fuel pf (fresh_handle p) filename w d mp tp b w3 sec segment m d1 h6 w4"
      "foreach_function (p_dwarf pf) m (process_function fuel (p_dr pf)) d1 (h6, w4) =
         Some (rc, d', (h1, w'))" "h' = Some h1"
proof -
  let ?h = "fresh_handle p :: 'a rave_handle"
  obtain mp w1 where c1: "metadata_create w = (mp, w1)" by fastforce
  note m1 = c1 [unfolded metadata_create_def]
  show thesis
  proof (cases "mp = NULL")
    case True
    with run have r: "rc = RAVE_ENOMEM" "h' = Some (?h\<lparr>h_metadata := Some (NULL, None)\<rparr>)" "w' = w1"
      by (auto simp: rave_init_def c1 Let_def)
    show thesis
      by (rule early [OF r(2)]) (use r(1,3) True live_set_malloc_NULL malloc_keeps m1 in
          \<open>auto simp: unmapped_failure_def\<close>)
  next
    case mp: False
    obtain tp w2 where c2: "transform_create w1 = (tp, w2)" by fastforce
    note m2 = c2 [unfolded transform_create_def]
    note l1 = live_set_malloc [OF m1 mp]
    have keep: "set (live w) \<subseteq> set (live w2)" using malloc_keeps [OF m1] malloc_keeps [OF m2] by blast
    show thesis
    proof (cases "tp = NULL")
      case True
      with run mp have r: "rc = RAVE_ENOMEM"
          "h' = Some (?h\<lparr>h_metadata := Some (mp, None), h_transform := Some (NULL, None)\<rparr>)" "w' = w2"
        by (auto simp: rave_init_def c1 c2 Let_def)
      have "live_set w2 = live_set w1" using m2 True by (intro live_set_malloc_NULL) simp
      then show thesis
        by (intro early [OF r(2)]) (use r(1,3) mp l1 keep in \<open>auto simp: unmapped_failure_def\<close>)
    next
      case tp: False
      note l2 = live_set_malloc [OF m2 tp]
      from run c1 mp c2 tp frame show thesis
      proof (cases rule: rave_init_opened)
        case (stop h1 mc tc)
        show thesis
        proof (rule early [OF stop(1,5)])
          have l: "live_set w' = insert tp (insert mp (live_set w))"
            using l1(2) l2(2) stop(2) by (simp add: live_set_def)
          show "live_set w' = live_set w \<union> taken h1" using l stop(3,4) mp tp by auto
          show "taken h1 \<inter> live_set w = {}" using stop(3,4) l1 l2 by auto
          show "set (live w) \<subseteq> set (live w')" using keep stop(2) by simp
        qed
      qed (rule walk)
    qed
  qed
qed

end
