(* ===== verification/Rave_Demo.thy ===== *)
theory Rave_Demo
  imports Rave_Api Rave_Returns Rave_Failures One_Byte_Decoder
begin

text \<open>
  A concrete platform: a file with a section \<open>.init\<close> and a section \<open>.text\<close>, whose only segment
  holds the six bytes \<open>push rbx; push rdi; nop; pop rdi; pop rbx; ret\<close> at \<open>0x401000\<close>, and one
  compilation unit that describes one function and one type. The properties of the loader and of
  the handle are applied to it.
\<close>

definition demo_body :: "byte list" where
  "demo_body = [0x53, 0x57, 0x90, 0x5f, 0x5b, 0xc3]"

definition demo_os :: os_api where
  "demo_os =
     \<lparr>os_open = (\<lambda>name. if name = ''a.out'' then 3 else - 1), os_fstat = (\<lambda>fd. Some 0x2000),
      os_mmap = (\<lambda>n fd w. (0x30000,
        w\<lparr>mem := mem_put 0x31000 demo_body (mem w), mappings := (0x30000, n) # mappings w\<rparr>)),
      os_close = (\<lambda>fd. 0),
      os_munmap = (\<lambda>p n w. (0, w\<lparr>mappings := removeAll (p, n) (mappings w)\<rparr>))\<rparr>"

definition demo_header :: elf_ehdr where
  "demo_header =
     \<lparr>e_type = 2, e_machine = 62, e_version = 1, e_entry = 0x401000, e_phoff = 64, e_shoff = 0x1200, e_flags = 0,
      e_ehsize = 64, e_phentsize = 56, e_phnum = 1, e_shentsize = 64, e_shnum = 4, e_shstrndx = 3\<rparr>"

definition demo_text_header :: elf_shdr where
  "demo_text_header =
     \<lparr>sh_name = 7, sh_type = 1, sh_flags = 6, sh_addr = 0x401000, sh_offset = 0x1000, sh_size = 16,
      sh_link = 0, sh_info = 0, sh_addralign = 16, sh_entsize = 0\<rparr>"

definition demo_segment_header :: elf_phdr where
  "demo_segment_header =
     \<lparr>p_type = 1, p_flags = 5, p_offset = 0x1000, p_vaddr = 0x401000, p_paddr = 0x401000, p_filesz = 16,
      p_memsz = 16, p_align = 0x1000\<rparr>"

definition demo_elf :: elf_api where
  "demo_elf =
     \<lparr>elf_version_ok = True, elf_memory = (\<lambda>p n. 0x40000), elf_kind = (\<lambda>e. 3),
      gelf_getclass = (\<lambda>e. 2),
      gelf_getehdr = (\<lambda>e. Some demo_header),
      elf_nextscn = (\<lambda>e s. if s = 0 then 1 else if s = 1 then 2 else 0),
      gelf_getshdr = (\<lambda>s. Some (if s = 1 then demo_text_header\<lparr>sh_name := 1\<rparr> else demo_text_header)),
      elf_strptr = (\<lambda>e n k. Some (if k = 1 then ''.init'' else ''.text'')),
      elf_getdata = (\<lambda>s. 0x41000),
      gelf_getphdr = (\<lambda>e i. if i = 0 then Some demo_segment_header else None)\<rparr>"

definition demo_dwarf :: "nat dwarf_api" where
  "demo_dwarf =
     \<lparr>dwarf_elf_init = (\<lambda>e l. (0, 0x42000, 0)),
      dwarf_next_cu_header = (\<lambda>g l. if l = 0 then (0, 1) else (- 1, l)),
      dwarf_siblingof = (\<lambda>g l die. if die = 0 then (0, 0x10) else if die = 0x20 then (0, 0x21) else (- 1, 0)),
      dwarf_child = (\<lambda>die. if die = 0x10 then (0, 0x20) else (- 1, 0)),
      dwarf_tag = (\<lambda>die. (0, if die = 0x20 then 0x2e else 0x24)),
      dwarf_lowpc = (\<lambda>die. if die = 0x20 then (0, 0x401000) else (- 1, 0)),
      dwarf_highpc = (\<lambda>die. if die = 0x20 then (0, 6, 1) else (- 1, 0, 0)),
      dwarf_finish = (\<lambda>g l. (0, l)), DW_FORM_CLASS_CONSTANT = 1\<rparr>"

definition demo_platform :: "(byte, nat) platform" where
  "demo_platform = \<lparr>p_os = demo_os, p_elf = demo_elf, p_dwarf = demo_dwarf, p_dr = one_byte_api\<rparr>"

text \<open>The same platform with debugging information libdwarf cannot open.\<close>

definition demo_unreadable :: "(byte, nat) platform" where
  "demo_unreadable = demo_platform\<lparr>p_dwarf := demo_dwarf\<lparr>dwarf_elf_init := (\<lambda>e l. (1, 0, 0))\<rparr>\<rparr>"

definition demo_start :: world where
  "demo_start =
     \<lparr>mem = (\<lambda>_. 0), live = [], alloc = (\<lambda>k. 0x100000 + 0x10000 * of_nat k), nalloc = 0,
      rands = (\<lambda>_. 1), nrand = 0, faults = [], libelf_initialized = False, mappings = []\<rparr>"

definition demo_reader :: "nat dwarf" where
  "demo_reader = \<lparr>lib = 0, released = []\<rparr>"

lemmas demo_apis = demo_os_def demo_elf_def demo_dwarf_def demo_platform_def

section \<open>The loader on it\<close>

definition demo_binary :: binary where
  "demo_binary =
     \<lparr>bin_elf = 0x40000, bin_header = Some demo_header,
      bin_mapping = 0x30000, file_size = 0x2000\<rparr>"

definition demo_section :: elf_section where
  "demo_section = \<lparr>sec_elf = 0x40000, sec_header = demo_text_header, sec_data = 0x41000, sec_name = ''.text''\<rparr>"

definition demo_segment :: elf_segment where
  "demo_segment = \<lparr>seg_elf = 0x40000, seg_header = demo_segment_header\<rparr>"

lemma demo_binary_init:
  "binary_init demo_os demo_elf old ''a.out'' w =
     (RAVE_SUCCESS, demo_binary,
      w\<lparr>libelf_initialized := True, mem := mem_put 0x31000 demo_body (mem w),
        mappings := (0x30000, 0x2000) # mappings w\<rparr>)"
proof (cases "libelf_initialized w")
  case True
  then have "w\<lparr>libelf_initialized := True\<rparr> = w" by simp
  with True show ?thesis
    by (simp add: binary_init_def init_libelf_def map_file_def demo_os_def demo_elf_def demo_binary_def demo_header_def
        ELF_K_ELF_def ET_EXEC_def ET_DYN_def check_arch_def EM_X86_64_def Let_def)
next
  case False
  then show ?thesis
    by (simp add: binary_init_def init_libelf_def map_file_def demo_os_def demo_elf_def demo_binary_def demo_header_def
        ELF_K_ELF_def ET_EXEC_def ET_DYN_def check_arch_def EM_X86_64_def Let_def)
qed

lemma demo_find_section: "binary_find_section demo_elf demo_binary ''.text'' = Some (RAVE_SUCCESS, Some demo_section)"
  by code_simp

lemma demo_find_segment:
  "binary_find_segment demo_elf demo_binary 0x401000 = Some (RAVE_SUCCESS, Some demo_segment)"
  by code_simp

lemma demo_placed: "text_placed demo_section demo_segment"
  by (simp add: text_placed_def demo_section_def demo_segment_def demo_text_header_def demo_segment_header_def
      section_address_def section_offset_def section_size_def segment_offset_def segment_vaddr_def
      segment_memsz_def PAGE_UP_def PAGE_DOWN_def PAGESZ_def)

text \<open>The process and the handle when the code is mapped.\<close>

lemma mem_put_zeros:
  assumes "\<And>a. unat (a - p) < length xs + n \<Longrightarrow> m a = 0" "length xs + n \<le> 2 ^ 64"
  shows "mem_put p (xs @ replicate n 0) m = mem_put p xs m"
  using assms(1) by (auto simp: mem_put_def fun_eq_iff nth_append)

definition demo_file :: "ptr \<Rightarrow> byte" where
  "demo_file = mem_put 0x31000 demo_body (\<lambda>_. 0)"

definition demo_loaded :: world where
  "demo_loaded =
     demo_start\<lparr>mem := mem_put 0x120000 demo_body demo_file,
       live := [(0x120000, 4096), (0x110000, 16), (0x100000, 16)], nalloc := 3, libelf_initialized := True,
       mappings := [(0x30000, 0x2000)]\<rparr>"

definition demo_metadata :: metadata where
  "demo_metadata = \<lparr>md_binary = 0x50000, dbg = 0x42000\<rparr>"

definition demo_mapped :: "byte rave_handle" where
  "demo_mapped =
     \<lparr>h_ptr = 0x50000, h_binary = Some demo_binary, h_metadata = Some (0x100000, Some demo_metadata),
      h_transform = Some (0x110000, Some \<lparr>tr_ptr = 0x110000, transformables = []\<rparr>),
      code_segment = Some \<lparr>orig = 0x401000, data = 0x120000, wlength = 4096\<rparr>,
      code_text = Some \<lparr>orig = 0x401000, data = 0x120000, wlength = 16\<rparr>, reloc_offset = None\<rparr>"

text \<open>The function that is accepted, as the transformer keeps it.\<close>

definition run_prologue :: "byte instr_set" where
  "run_prologue =
     \<lparr>set_ptr = 0x130020, set_start = 0x401000, set_end = 0x401002, nr_instrs = 2,
      instrs = [(0x140000, 0x53), (0x150000, 0x57)]\<rparr>"

definition run_epilogue :: "byte instr_set" where
  "run_epilogue =
     \<lparr>set_ptr = 0x180000, set_start = 0x401003, set_end = 0x401005, nr_instrs = 2,
      instrs = [(0x190000, 0x5f), (0x1a0000, 0x5b)]\<rparr>"

definition run_tf :: "byte transformable" where
  "run_tf =
     \<lparr>tf_ptr = 0x130000, tf_record = \<lparr>faddr = 0x401000, flen = 6\<rparr>, prologue = run_prologue,
      epilogues = [run_epilogue], tf_order = Some (0x170000, [0, 1])\<rparr>"

definition run_transform :: "byte transform" where
  "run_transform = \<lparr>tr_ptr = 0x110000, transformables = [run_tf]\<rparr>"

definition run_handle :: "byte rave_handle" where
  "run_handle = demo_mapped\<lparr>h_transform := Some (0x110000, Some run_transform)\<rparr>"

lemma demo_each_result:
  "map_option (\<lambda>(rc, d, h, w). (rc, lib d, released d, h, live w))
     (foreach_function demo_dwarf demo_metadata (process_function 7 one_byte_api) demo_reader
       (demo_mapped, demo_loaded)) =
   Some (RAVE_SUCCESS, 1, [0x20, 0x21, 0x10], run_handle,
     [(0x1a0000, 112), (0x190000, 112), (0x180000, 48), (0x170000, 8), (0x150000, 112), (0x140000, 112),
      (0x130000, 104), (0x120000, 4096), (0x110000, 16), (0x100000, 16)])"
  by code_simp

text \<open>Up to that point, \<open>rave_init\<close> is followed stage by stage.\<close>

lemma demo_len: "PAGE_UP (segment_memsz demo_segment) = 4096"
  by (simp add: demo_segment_def demo_segment_header_def segment_memsz_def PAGE_UP_def PAGE_DOWN_def PAGESZ_def)

lemma demo_windows:
  "segment_window demo_segment p = \<lparr>orig = 0x401000, data = p, wlength = 4096\<rparr>"
  "text_window demo_section demo_segment p = \<lparr>orig = 0x401000, data = p, wlength = 16\<rparr>"
  unfolding segment_window_def text_window_def demo_len
  by (simp_all add: demo_section_def demo_segment_def demo_segment_header_def demo_text_header_def
      segment_vaddr_def segment_offset_def section_address_def section_offset_def section_size_def)

lemma demo_file_zero:
  assumes "unat (a - 0x120000) < 4096"
  shows "demo_file a = 0"
proof -
  have "6 \<le> unat (0x120000 + of_nat (unat (a - 0x120000)) - (0x31000 :: ptr))"
    by (rule byte_apart [of _ 4096]) (use assms in simp_all)
  then have "6 \<le> unat (a - 0x31000)" by simp
  then show ?thesis by (simp add: demo_file_def mem_put_def demo_body_def)
qed

lemma demo_loaded_mem:
  "mem_put 0x120000 (loaded_bytes demo_file 0x31000 16 4096) demo_file = mem_put 0x120000 demo_body demo_file"
proof -
  have "mem_get demo_file 0x31000 16 = demo_body @ replicate 10 0" by code_simp
  then have "loaded_bytes demo_file 0x31000 16 4096 = demo_body @ replicate 4090 0"
    by (simp add: loaded_bytes_def flip: replicate_add)
  moreover have "mem_put 0x120000 (demo_body @ replicate 4090 0) demo_file = mem_put 0x120000 demo_body demo_file"
    by (rule mem_put_zeros) (simp_all add: demo_body_def demo_file_zero)
  ultimately show ?thesis by simp
qed

lemma demo_map_code:
  "map_code_pages
     (demo_mapped\<lparr>code_segment := None, code_text := None\<rparr>) demo_section demo_segment
     (demo_start\<lparr>mem := demo_file, live := [(0x110000, 16), (0x100000, 16)], nalloc := 2,
        libelf_initialized := True, mappings := [(0x30000, 0x2000)]\<rparr>) =
   Some (RAVE_SUCCESS, demo_mapped, demo_loaded)" (is "map_code_pages ?h _ _ ?w = _")
proof -
  let ?v = "?w\<lparr>nalloc := 3, live := [(0x120000, 4096), (0x110000, 16), (0x100000, 16)]\<rparr>"
  have "rave_malloc 4096 ?w = (0x120000, ?v)"
    unfolding rave_malloc_def demo_start_def Let_def
    by (simp add: fresh_block_def split del: if_split)
  then have c: "rave_calloc 1 (unat (PAGE_UP (segment_memsz demo_segment))) ?w =
      (0x120000, ?v\<lparr>mem := mem_put 0x120000 (replicate 4096 0) demo_file\<rparr>)"
    by (simp add: rave_calloc_def demo_len)
  have load: "segment_loadable demo_segment"
    by (simp add: segment_loadable_def demo_segment_def demo_segment_header_def PT_LOAD_def)
  have bin: "h_binary ?h = Some demo_binary" by (simp add: demo_mapped_def)
  have src: "file_bytes demo_binary demo_segment = 0x31000"
    by (simp add: file_bytes_def demo_binary_def demo_segment_def demo_segment_header_def segment_offset_def)
  have n: "segment_filesz demo_segment = 16"
    by (simp add: demo_segment_def demo_segment_header_def segment_filesz_def)
  have "4096 \<le> unat (0x31000 + of_nat k - (0x120000 :: ptr))" if "k < 16" for k
    by (rule byte_apart [of _ 16]) (use that in simp_all)
  then have apart: "file_apart demo_binary demo_segment 0x120000"
    by (simp add: file_apart_def src n demo_len)
  have "segment_filesz demo_segment \<le> PAGE_UP (segment_memsz demo_segment)"
    by (simp add: n demo_len)
  from map_code_pages_eq(1) [OF load bin c _ this apart, of demo_section] show ?thesis
    by (simp add: src n demo_len demo_loaded_mem demo_windows)
      (simp add: demo_mapped_def demo_loaded_def)
qed

text \<open>The stages of \<open>rave_init\<close> on the concrete file, and the whole of it.\<close>

definition demo_opened :: world where
  "demo_opened =
     demo_start\<lparr>mem := demo_file, live := [(0x110000, 16), (0x100000, 16)], nalloc := 2, libelf_initialized := True,
       mappings := [(0x30000, 0x2000)]\<rparr>"

lemma demo_stages:
  "init_stages fuel demo_platform (fresh_handle 0x50000) ''a.out'' demo_start demo_reader 0x100000 0x110000
     demo_binary demo_opened demo_section demo_segment demo_metadata demo_reader demo_mapped demo_loaded"
proof -
  let ?u = "demo_start\<lparr>live := [(0x100000, 16)], nalloc := Suc 0\<rparr>"
  let ?v = "demo_start\<lparr>live := [(0x110000, 16), (0x100000, 16)], nalloc := 2\<rparr>"
  have c1: "metadata_create demo_start = (0x100000, ?u)"
    by (simp add: metadata_create_def rave_malloc_def demo_start_def fresh_block_def sizeof_metadata_def)
  have c2: "transform_create ?u = (0x110000, ?v)"
    by (simp add: transform_create_def rave_malloc_def demo_start_def fresh_block_def sizeof_transform_def)
  have w3: "?v\<lparr>libelf_initialized := True, mem := mem_put 0x31000 demo_body (mem ?v),
      mappings := (0x30000, 0x2000) # mappings ?v\<rparr> = demo_opened"
    by (simp add: demo_opened_def demo_start_def demo_file_def)
  have addr: "int_to_size (section_address demo_section) = 0x401000"
    by (simp add: demo_section_def section_address_def demo_text_header_def)
  have p: "p_os demo_platform = demo_os" "p_elf demo_platform = demo_elf" "p_dwarf demo_platform = demo_dwarf"
    "p_dr demo_platform = one_byte_api" by (simp_all add: demo_platform_def)
  have f: "h_binary (fresh_handle 0x50000) = None" "h_ptr (fresh_handle 0x50000) = 0x50000"
    by (simp_all add: fresh_handle_def)
  have "metadata_init demo_dwarf 0x100000 None 0x50000 demo_binary demo_reader =
      (RAVE_SUCCESS, Some demo_metadata, demo_reader)"
    by (simp add: metadata_init_def demo_dwarf_def demo_reader_def demo_metadata_def DW_DLV_OK_def)
  moreover have "dr_set_isa_mode one_byte_api" by (simp add: one_byte_api_def)
  moreover have "staged (fresh_handle 0x50000) 0x100000 demo_metadata 0x110000 demo_binary =
      demo_mapped\<lparr>code_segment := None, code_text := None\<rparr>"
    by (simp add: staged_def fresh_handle_def demo_mapped_def)
  moreover have "binary_init demo_os demo_elf None ''a.out'' ?v = (RAVE_SUCCESS, demo_binary, demo_opened)"
    unfolding demo_binary_init w3 ..
  ultimately show ?thesis
    unfolding init_stages_def p f Option.bind.simps addr
    using c1 c2 demo_find_section demo_find_segment demo_map_code [folded demo_opened_def] by auto
qed

lemma demo_init:
  "\<exists>d w. rave_init 7 demo_platform (Some (fresh_handle 0x50000)) ''a.out'' demo_start demo_reader =
       Some (RAVE_SUCCESS, Some run_handle, w, d) \<and>
     foreach_function demo_dwarf demo_metadata (process_function 7 one_byte_api) demo_reader
       (demo_mapped, demo_loaded) = Some (RAVE_SUCCESS, d, run_handle, w)"
proof -
  obtain d w where each: "foreach_function demo_dwarf demo_metadata (process_function 7 one_byte_api) demo_reader
      (demo_mapped, demo_loaded) = Some (RAVE_SUCCESS, d, run_handle, w)"
    using demo_each_result by auto
  have "foreach_function (p_dwarf demo_platform) demo_metadata (process_function 7 (p_dr demo_platform)) demo_reader
      (demo_mapped, demo_loaded) = Some (RAVE_SUCCESS, d, run_handle, w)"
    using each by (simp add: demo_platform_def)
  from rave_init_from_stages [OF demo_stages this] each show ?thesis by blast
qed

text \<open>The allocator has enough blocks left for the analysis.\<close>

lemma demo_supply: "has_supply demo_loaded 22 112"
proof -
  have at: "unat (alloc demo_loaded (nalloc demo_loaded + i)) = 0x130000 + 0x10000 * i" if "i < 22" for i
    using that unat_of_nat64 [of "0x130000 + 0x10000 * i"] by (simp add: demo_loaded_def demo_start_def algebra_simps)
  show ?thesis
    unfolding has_supply_def Let_def
  proof (intro allI impI conjI)
    fix i :: nat
    assume i: "i < 22"
    note a = at [OF i]
    show "alloc demo_loaded (nalloc demo_loaded + i) \<noteq> NULL"
      using a by (metis add_is_0 unat_0 zero_neq_numeral)
    show "unat (alloc demo_loaded (nalloc demo_loaded + i)) + 112 < 2 ^ 64" using a i by simp
    show "\<forall>(b, s) \<in> set (live demo_loaded). beside (alloc demo_loaded (nalloc demo_loaded + i)) 112 b s"
      using a by (auto simp: beside_def demo_loaded_def)
    fix j assume "j < i"
    then show "beside (alloc demo_loaded (nalloc demo_loaded + i)) 112 (alloc demo_loaded (nalloc demo_loaded + j)) 112"
      using a at [of j] i by (auto simp: beside_def)
  qed
qed

section \<open>The handle serves\<close>

text \<open>The laws of the parameters, on the concrete ones.\<close>

lemma demo_mmap_frame: "mmap_frame demo_os"
  by (simp add: mmap_frame_def demo_os_def)

lemma demo_advances: "dr_advances one_byte_api"
proof -
  have "unat (p + 1) = unat p + 1" if "p + 1 \<noteq> NULL" for p :: ptr
    using that by (metis Suc_eq_plus1 unatSuc add.commute)
  then show ?thesis by (auto simp: dr_advances_def one_byte_api_def ilen_def)
qed

lemma demo_munmap_frame: "munmap_frame demo_os"
  by (simp add: munmap_frame_def demo_os_def)

lemma demo_text_sane: "text_sane demo_elf"
  unfolding text_sane_def
proof (intro allI impI)
  fix b sec segment
  assume sec: "binary_find_section demo_elf b ''.text'' = Some (RAVE_SUCCESS, Some sec)"
    and seg: "binary_find_segment demo_elf b (int_to_size (section_address sec)) = Some (RAVE_SUCCESS, Some segment)"
  obtain h where h: "bin_header b = Some h" using sec by (auto simp: binary_find_section_def split: option.splits)
  have "scn_chain demo_elf (bin_elf b) NULL [1, 2]" by (simp add: demo_elf_def)
  from sec [unfolded binary_find_section_def h option.case find_section_loop_hit [OF this]]
  obtain s n shdr where "gelf_getshdr demo_elf s = Some shdr" "s = 1 \<or> s = 2"
    "elf_strptr demo_elf (bin_elf b) (e_shstrndx h) (sh_name shdr) = Some n" "name_matches ''.text'' n"
    "section_init demo_elf (bin_elf b) shdr n s = (RAVE_SUCCESS, sec)"
    by (auto simp: Cons_eq_append_conv)
  then have "sec_header sec = demo_text_header"
    by (auto simp: demo_elf_def name_matches_def section_init_def Let_def split: if_splits)
  moreover from seg [unfolded binary_find_segment_def h option.case option.inject find_segment_loop_hit]
  have "seg_header segment = demo_segment_header"
    by (auto simp: segment_at_def demo_elf_def split: if_splits)
  ultimately show "text_placed sec segment"
    using demo_placed
    by (simp add: text_placed_def demo_section_def demo_segment_def section_address_def section_offset_def
        section_size_def segment_offset_def segment_vaddr_def segment_memsz_def)
qed

text \<open>Without readable debugging information \<open>rave_init\<close> stops before the code is mapped.\<close>

lemma demo_unreadable_result:
  "map_option (\<lambda>(rc, h, w, d). (rc, map_option (\<lambda>h. (h_metadata h, h_transform h, code_segment h)) h))
     (rave_init 7 demo_unreadable (Some (fresh_handle 0x50000)) ''a.out'' demo_start demo_reader) =
   Some (RAVE_EDWARF, Some (Some (0x100000, None), Some (0x110000, None), None))"
  by code_simp

lemma demo_unreadable_init:
  "\<exists>h w d. rave_init 7 demo_unreadable (Some (fresh_handle 0x50000)) ''a.out'' demo_start demo_reader =
       Some (RAVE_EDWARF, Some h, w, d) \<and> code_segment h = None \<and> taken h = {0x100000, 0x110000}"
  using demo_unreadable_result by auto

definition run_segment :: window where
  "run_segment = \<lparr>orig = 0x401000, data = 0x120000, wlength = 4096\<rparr>"

definition run_text :: window where
  "run_text = \<lparr>orig = 0x401000, data = 0x120000, wlength = 16\<rparr>"

lemma run_windows:
  "code_segment run_handle = Some run_segment" "code_text run_handle = Some run_text"
  "h_transform run_handle = Some (0x110000, Some run_transform)"
  by (simp_all add: run_handle_def demo_mapped_def run_segment_def run_text_def)

text \<open>The process after \<open>rave_init\<close>.\<close>

lemma run_start:
  "\<exists>w d. rave_init 7 demo_platform (Some (fresh_handle 0x50000)) ''a.out'' demo_start demo_reader =
       Some (RAVE_SUCCESS, Some run_handle, w, d) \<and>
     handle_inv run_handle run_segment run_text run_transform {} w"
proof -
  obtain w d where init: "rave_init 7 demo_platform (Some (fresh_handle 0x50000)) ''a.out'' demo_start demo_reader =
       Some (RAVE_SUCCESS, Some run_handle, w, d)"
    using demo_init by blast
  have laws: "mmap_frame (p_os demo_platform)" "text_sane (p_elf demo_platform)" "NULL \<notin> live_set demo_start"
    using demo_mmap_frame demo_text_sane by (simp_all add: demo_platform_def live_set_def demo_start_def)
  obtain seg tw t where inv: "handle_inv run_handle seg tw t (live_set demo_start) w"
    using rave_init_inv [OF init laws] by auto
  then have "seg = run_segment" "tw = run_text" "t = run_transform"
    using run_windows by (auto simp: handle_inv_def)
  moreover have "live_set demo_start = {}" by (simp add: live_set_def demo_start_def)
  ultimately show ?thesis using init inv by auto
qed

lemma run_wf: "tf_wf one_byte_api run_tf" "tf_sorted run_tf"
proof -
  have "slot_table (tf_slots run_tf) (map of_nat [0..<tf_slots run_tf])"
    by (rule slot_table_identity)
  then show "tf_wf one_byte_api run_tf"
    by (simp add: tf_wf_def tf_slots_def tf_sets_def run_tf_def run_prologue_def run_epilogue_def set_wf_def
        mirrors_def ilen_def one_byte_api_def upt_rec)
  show "tf_sorted run_tf"
    by (simp add: tf_sorted_def tf_sets_def run_tf_def run_prologue_def run_epilogue_def)
qed

lemma run_settled:
  assumes "(0x120000, 4096) \<in> set (live w)"
  shows "settled one_byte_api run_text w run_tf"
proof -
  have fw: "function_window run_text (tf_record run_tf) = \<lparr>orig = 0x401000, data = 0x120000, wlength = 6\<rparr>"
    by (simp add: function_window_def run_text_def run_tf_def window_view_def window_contains_def CONTAINS_def OFFSET_def)
  have "block_ok (live w) 0x120000 6"
    unfolding block_ok_def using assms by (rule bexI [rotated]) simp
  then have "tf_ready one_byte_api run_text w run_tf"
    unfolding tf_ready_def fw tf_placed_def using run_wf(1)
    by (simp add: window_ok_def tf_sets_def run_tf_def run_prologue_def run_epilogue_def set_within_def
        dr_keeps_length_def ilen_def one_byte_api_def)
  then show ?thesis
    using run_wf(2) by (simp add: settled_def func_within_def run_text_def run_tf_def)
qed

lemma run_roundtrip: "dr_roundtrip one_byte_api (tf_insns run_tf)"
proof -
  have "tf_insns run_tf \<subseteq> Collect one_byte_valid"
    by (simp add: tf_insns_def tf_sets_def run_tf_def run_prologue_def run_epilogue_def one_byte_valid_def)
  then show ?thesis
    by (auto simp: dr_roundtrip_def one_byte_api_def same_insn_def mem_get_def)
qed

text \<open>The callback leaves the memory as it was, and in it the function has one candidate set.\<close>

lemma run_memory:
  assumes "foreach_function demo_dwarf demo_metadata (process_function 7 one_byte_api) demo_reader
      (demo_mapped, demo_loaded) = Some (RAVE_SUCCESS, d, h, w)"
  shows "mem w = mem demo_loaded"
proof -
  have tw: "code_text demo_mapped = Some run_text" "window_ok run_text"
    by (simp_all add: demo_mapped_def run_text_def window_ok_def)
  have null: "NULL \<notin> live_set demo_loaded" by (simp add: live_set_def demo_loaded_def)
  let ?P = "analysis_inv one_byte_api demo_mapped 0x110000 run_text (set (live demo_loaded)) (live_set demo_loaded) []
      (mem demo_loaded)"
  have "?P (demo_mapped, demo_loaded)"
    unfolding analysis_inv_def using owns_self [OF null] null
    by (intro exI [of _ "\<lparr>tr_ptr = 0x110000, transformables = []\<rparr>"] exI [of _ "live_set demo_loaded"])
      (simp add: demo_mapped_def)
  then have "?P (h, w)"
    by (rule dw.each_keeps [OF assms process_function_keeps [OF tw]])
  then show ?thesis unfolding analysis_inv_def snd_conv by blast
qed

lemma run_found:
  "function_found one_byte_api (mem demo_loaded) 0x120000 (tf_record run_tf) run_tf
     [] [0x90] [([], run_epilogue, [0xc3])]"
proof -
  have pro: "set_found one_byte_api (test_instr_prologue one_byte_api) (mem demo_loaded)
      0x120006 0x120000 0x401000 [] run_prologue [0x90] 0x120003 0x401003" by code_simp
  have epi: "set_found one_byte_api (test_instr_epilogue one_byte_api) (mem demo_loaded)
      0x120006 0x120003 0x401003 [] run_epilogue [0xc3] 0x120006 0x401006" by code_simp
  have rec: "OFFSET 0x120000 (flen (tf_record run_tf)) = 0x120006" "faddr (tf_record run_tf) = 0x401000"
    by (simp_all add: OFFSET_def run_tf_def)
  have hunt: "hunted one_byte_api (mem demo_loaded) 0x120006 0x120003 0x401003
      [([], run_epilogue, [0xc3])] 0x120006"
    unfolding hunted.simps
    by (intro conjI exI [of _ "0x120006"] exI [of _ "0x401006"] epi)
      (simp_all add: run_epilogue_def)
  have "mirrors one_byte_api run_prologue run_epilogue"
    by (simp add: mirrors_def run_prologue_def run_epilogue_def one_byte_api_def)
  then have sets: "epilogues run_tf =
      filter (mirrors one_byte_api (prologue run_tf)) (map cand_set [([], run_epilogue, [0xc3])])"
    by (simp add: run_tf_def cand_set_def)
  have tf: "prologue run_tf = run_prologue" "tf_slots run_tf = 2" "epilogues run_tf \<noteq> []"
    "tf_order run_tf = Some (0x170000, map of_nat [0..<2])"
    by (simp_all add: run_tf_def tf_slots_def run_prologue_def upt_rec)
  show ?thesis
    unfolding function_found_def rec
  proof (intro conjI exI)
    show "set_found one_byte_api (test_instr_prologue one_byte_api) (mem demo_loaded)
        0x120006 0x120000 0x401000 [] (prologue run_tf) [0x90] 0x120003 0x401003"
      using pro tf(1) by simp
  qed (use hunt sets tf in simp_all)
qed

lemma run_serving:
  "\<exists>w d. rave_init 7 demo_platform (Some (fresh_handle 0x50000)) ''a.out'' demo_start demo_reader =
       Some (RAVE_SUCCESS, Some run_handle, w, d) \<and>
     serving demo_platform run_handle run_segment run_text run_transform {} w"
proof -
  obtain w d where r: "rave_init 7 demo_platform (Some (fresh_handle 0x50000)) ''a.out'' demo_start demo_reader =
       Some (RAVE_SUCCESS, Some run_handle, w, d)" "handle_inv run_handle run_segment run_text run_transform {} w"
    using run_start by blast
  then have "(0x120000, 4096) \<in> set (live w)" by (simp add: handle_inv_def run_segment_def)
  then have "serving demo_platform run_handle run_segment run_text run_transform {} w"
    using r(2) run_settled run_roundtrip by (simp add: serving_def run_transform_def demo_platform_def)
  with r(1) show ?thesis by blast
qed

end
