(* ===== verification/Binary_Print.thy ===== *)
theory Binary_Print
  imports Binary
begin

text \<open>
  The functions that print headers: \<open>section_print\<close> of \<open>section.c\<close>, \<open>segment_print\<close> of \<open>segment.c\<close>
  and \<open>binary_print\<close> of \<open>binary.c\<close>. Their value is what they write to the standard output. A reader
  of the dumps shows that no field is lost in them.
\<close>

section \<open>The formats\<close>

definition newline :: char where "newline = CHR 0x0A"

definition hex_digit :: "nat \<Rightarrow> char" where
  "hex_digit n = ''0123456789abcdef'' ! n"

text \<open>\<open>%jx\<close>\<close>

fun hex_string :: "nat \<Rightarrow> string" where
  "hex_string n = (if n < 16 then [hex_digit n] else hex_string (n div 16) @ [hex_digit (n mod 16)])"

declare hex_string.simps [simp del]

text \<open>\<open>%-20s\<close> pads a short string and leaves a long one as it is.\<close>

definition pad_right :: "nat \<Rightarrow> string \<Rightarrow> string" where
  "pad_right k s = s @ replicate (k - length s) CHR '' ''"

text \<open>The macro \<open>PRINT_FIELD\<close>: the field is converted to \<open>uintmax_t\<close> first.\<close>

definition print_field :: "string \<Rightarrow> 64 word \<Rightarrow> string" where
  "print_field name v =
     CHR 0x09 # pad_right 20 name @ '' 0x'' @ hex_string (unat v) @ [newline]"

definition section_print :: "elf_section \<Rightarrow> string" where
  "section_print self =
     (if sec_elf self = NULL then ''Emtpy section'' @ [newline]
      else
        let header = sec_header self
        in ''Section '' @ sec_name self @ [newline] @
           print_field ''type'' (ucast (sh_type header)) @
           print_field ''flags'' (sh_flags header) @
           print_field ''addr'' (sh_addr header) @
           print_field ''offset'' (sh_offset header) @
           print_field ''size'' (sh_size header) @
           print_field ''link'' (ucast (sh_link header)) @
           print_field ''info'' (ucast (sh_info header)) @
           print_field ''addralign'' (sh_addralign header) @
           print_field ''entsize'' (sh_entsize header))"

definition segment_print :: "elf_segment \<Rightarrow> string" where
  "segment_print self =
     (if seg_elf self = NULL then ''Emtpy segment'' @ [newline]
      else
        let header = seg_header self
        in ''Segment'' @ [newline] @
           print_field ''type'' (ucast (p_type header)) @
           print_field ''flags'' (ucast (p_flags header)) @
           print_field ''offset'' (p_offset header) @
           print_field ''vaddr'' (p_vaddr header) @
           print_field ''paddr'' (p_paddr header) @
           print_field ''filesz'' (p_filesz header) @
           print_field ''memsz'' (p_memsz header) @
           print_field ''align'' (p_align header))"

definition binary_print :: "binary \<Rightarrow> string option" where
  "binary_print self =
     do { header \<leftarrow> bin_header self;
          Some (''ELF Headers:'' @ [newline] @
            print_field ''type'' (ucast (e_type header)) @
            print_field ''machine'' (ucast (e_machine header)) @
            print_field ''version'' (ucast (e_version header)) @
            print_field ''entry'' (e_entry header) @
            print_field ''phoff'' (e_phoff header) @
            print_field ''shoff'' (e_shoff header) @
            print_field ''flags'' (ucast (e_flags header)) @
            print_field ''ehsize'' (ucast (e_ehsize header)) @
            print_field ''phentsize'' (ucast (e_phentsize header)) @
            print_field ''phnum'' (ucast (e_phnum header)) @
            print_field ''shentsize'' (ucast (e_shentsize header)) @
            print_field ''shnum'' (ucast (e_shnum header)) @
            print_field ''shstrndx'' (ucast (e_shstrndx header))) }"

section \<open>Reading a dump\<close>

fun text_lines :: "string \<Rightarrow> string list" where
  "text_lines [] = []"
| "text_lines (c # cs) =
     (if c = newline then [] # text_lines cs
      else case text_lines cs of [] \<Rightarrow> [[c]] | l # ls \<Rightarrow> (c # l) # ls)"

definition hex_digit_value :: "char \<Rightarrow> nat" where
  "hex_digit_value c = (if of_char c < (97 :: nat) then of_char c - 48 else of_char c - 87)"

definition hex_value :: "string \<Rightarrow> nat" where
  "hex_value = foldl (\<lambda>n c. 16 * n + hex_digit_value c) 0"

text \<open>A line is a tab, twenty columns for the name, a blank and \<open>0x\<close>, and the digits.\<close>

definition read_field :: "string \<Rightarrow> string \<times> nat" where
  "read_field l = (takeWhile (\<lambda>c. c \<noteq> CHR '' '') (drop 1 l), hex_value (drop 24 l))"

text \<open>The last \<open>k\<close> lines, since the name of a section may hold anything.\<close>

definition read_dump :: "nat \<Rightarrow> string \<Rightarrow> (string \<times> nat) list" where
  "read_dump k s = (let ls = text_lines s in map read_field (drop (length ls - k) ls))"

section \<open>The numbers\<close>

lemma less_16_cases:
  fixes n :: nat
  assumes "n < 16"
  shows "n \<in> {0, 1, 2, 3, 4, 5, 6, 7, 8, 9, 10, 11, 12, 13, 14, 15}"
  using assms by (simp only: insert_iff empty_iff) presburger

lemma hex_digit_value: "n < 16 \<Longrightarrow> hex_digit_value (hex_digit n) = n"
  by (drule less_16_cases) (elim insertE emptyE; simp add: hex_digit_def hex_digit_value_def)

lemma hex_digit_newline: "n < 16 \<Longrightarrow> hex_digit n \<noteq> newline"
  by (drule less_16_cases) (elim insertE emptyE; simp add: hex_digit_def newline_def)

lemma hex_string_newline: "newline \<notin> set (hex_string n)"
proof (induction n rule: hex_string.induct)
  case (1 n)
  then show ?case
    using hex_digit_newline [of n] hex_digit_newline [of "n mod 16"] by (subst hex_string.simps) auto
qed

lemma hex_value_string: "hex_value (hex_string n) = n"
proof (induction n rule: hex_string.induct)
  case (1 n)
  show ?case
  proof (cases "n < 16")
    case True
    then show ?thesis by (subst hex_string.simps) (simp add: hex_value_def hex_digit_value)
  next
    case False
    with 1 show ?thesis
      by (subst hex_string.simps) (simp add: hex_value_def hex_digit_value)
  qed
qed

section \<open>The lines\<close>

lemma text_lines_line: "newline \<notin> set l \<Longrightarrow> text_lines (l @ newline # s) = l # text_lines s"
  by (induction l) auto

lemma text_lines_append: "text_lines (s @ newline # t) = text_lines (s @ [newline]) @ text_lines t"
proof (induction s)
  case (Cons c s)
  have "text_lines (s @ [newline]) \<noteq> []"
    by (cases s) (auto split: list.splits)
  with Cons show ?case by (auto split: list.splits)
qed simp

text \<open>The names the code prints: short words.\<close>

definition field_name :: "string \<Rightarrow> bool" where
  "field_name n \<longleftrightarrow> length n \<le> 20 \<and> CHR '' '' \<notin> set n \<and> newline \<notin> set n"

definition field_line :: "string \<Rightarrow> 64 word \<Rightarrow> string" where
  "field_line n v = CHR 0x09 # pad_right 20 n @ '' 0x'' @ hex_string (unat v)"

lemma print_field_line: "print_field n v = field_line n v @ [newline]"
  by (simp add: print_field_def field_line_def)

lemma field_line_newline: "field_name n \<Longrightarrow> newline \<notin> set (field_line n v)"
  using hex_string_newline [of "unat v"]
  by (auto simp: field_line_def field_name_def pad_right_def newline_def)

lemma takeWhile_padded:
  assumes "CHR '' '' \<notin> set n"
  shows "takeWhile (\<lambda>c. c \<noteq> CHR '' '') (n @ replicate k CHR '' '' @ '' 0x'' @ t) = n"
  using assms by (cases k) (auto simp: takeWhile_append)

lemma read_field_line:
  assumes "field_name n"
  shows "read_field (field_line n v) = (n, unat v)"
proof -
  have len: "length (pad_right 20 n) = 20" using assms by (simp add: pad_right_def field_name_def)
  have "field_line n v = (CHR 0x09 # pad_right 20 n @ '' 0x'') @ hex_string (unat v)"
    by (simp add: field_line_def)
  then have "drop 24 (field_line n v) = hex_string (unat v)"
    by (simp only: drop_append) (simp add: len)
  moreover have "drop 1 (field_line n v) = n @ replicate (20 - length n) CHR '' '' @ '' 0x'' @ hex_string (unat v)"
    by (simp add: field_line_def pad_right_def)
  ultimately show ?thesis
    using assms takeWhile_padded by (simp add: read_field_def hex_value_string field_name_def)
qed

text \<open>Any title, and fields below it, are read back.\<close>

definition print_fields :: "(string \<times> 64 word) list \<Rightarrow> string" where
  "print_fields fs = concat (map (\<lambda>(n, v). print_field n v) fs)"

lemma print_fields_lines:
  "list_all (field_name \<circ> fst) fs \<Longrightarrow> text_lines (print_fields fs) = map (\<lambda>(n, v). field_line n v) fs"
proof (induction fs)
  case (Cons f fs)
  then show ?case
    by (cases f) (simp add: print_fields_def print_field_line text_lines_line field_line_newline)
qed (simp add: print_fields_def)

lemma read_dump_fields:
  assumes "list_all (field_name \<circ> fst) fs" "k = length fs"
  shows "read_dump k (title @ newline # print_fields fs) = map (\<lambda>(n, v). (n, unat v)) fs"
proof -
  have "read_field (field_line n v) = (n, unat v)" if "(n, v) \<in> set fs" for n v
    using assms(1) that by (force simp: list_all_iff intro: read_field_line)
  then have "map read_field (map (\<lambda>(n, v). field_line n v) fs) = map (\<lambda>(n, v). (n, unat v)) fs"
    by auto
  then show ?thesis
    unfolding read_dump_def text_lines_append [of title "print_fields fs"] print_fields_lines [OF assms(1)]
    by (simp add: assms(2))
qed

section \<open>The dumps\<close>

definition section_fields :: "elf_shdr \<Rightarrow> (string \<times> 64 word) list" where
  "section_fields h =
     [(''type'', ucast (sh_type h)), (''flags'', sh_flags h), (''addr'', sh_addr h), (''offset'', sh_offset h),
      (''size'', sh_size h), (''link'', ucast (sh_link h)), (''info'', ucast (sh_info h)),
      (''addralign'', sh_addralign h), (''entsize'', sh_entsize h)]"

definition segment_fields :: "elf_phdr \<Rightarrow> (string \<times> 64 word) list" where
  "segment_fields h =
     [(''type'', ucast (p_type h)), (''flags'', ucast (p_flags h)), (''offset'', p_offset h), (''vaddr'', p_vaddr h),
      (''paddr'', p_paddr h), (''filesz'', p_filesz h), (''memsz'', p_memsz h), (''align'', p_align h)]"

definition binary_fields :: "elf_ehdr \<Rightarrow> (string \<times> 64 word) list" where
  "binary_fields h =
     [(''type'', ucast (e_type h)), (''machine'', ucast (e_machine h)), (''version'', ucast (e_version h)),
      (''entry'', e_entry h), (''phoff'', e_phoff h), (''shoff'', e_shoff h), (''flags'', ucast (e_flags h)),
      (''ehsize'', ucast (e_ehsize h)), (''phentsize'', ucast (e_phentsize h)), (''phnum'', ucast (e_phnum h)),
      (''shentsize'', ucast (e_shentsize h)), (''shnum'', ucast (e_shnum h)), (''shstrndx'', ucast (e_shstrndx h))]"

lemmas header_fields = section_fields_def segment_fields_def binary_fields_def

lemma field_names:
  "list_all (field_name \<circ> fst) (section_fields sh)" "list_all (field_name \<circ> fst) (segment_fields ph)"
  "list_all (field_name \<circ> fst) (binary_fields eh)"
  by (simp_all add: header_fields field_name_def newline_def)

lemma section_print_fields:
  "sec_elf s \<noteq> NULL \<Longrightarrow>
     section_print s = (''Section '' @ sec_name s) @ newline # print_fields (section_fields (sec_header s))"
  by (simp add: section_print_def print_fields_def section_fields_def Let_def)

lemma segment_print_fields:
  "seg_elf g \<noteq> NULL \<Longrightarrow> segment_print g = ''Segment'' @ newline # print_fields (segment_fields (seg_header g))"
  by (simp add: segment_print_def print_fields_def segment_fields_def Let_def)

lemma binary_print_fields:
  "bin_header b = Some h \<Longrightarrow> binary_print b = Some (''ELF Headers:'' @ newline # print_fields (binary_fields h))"
  by (simp add: binary_print_def print_fields_def binary_fields_def)

lemma section_dump: "sec_elf s \<noteq> NULL \<Longrightarrow>
    read_dump 9 (section_print s) = map (\<lambda>(n, v). (n, unat v)) (section_fields (sec_header s))"
  by (subst section_print_fields, assumption, rule read_dump_fields [OF field_names(1)])
    (simp add: section_fields_def)

lemma segment_dump: "seg_elf g \<noteq> NULL \<Longrightarrow>
    read_dump 8 (segment_print g) = map (\<lambda>(n, v). (n, unat v)) (segment_fields (seg_header g))"
  by (subst segment_print_fields, assumption, rule read_dump_fields [OF field_names(2)])
    (simp add: segment_fields_def)

lemma binary_dump: "bin_header b = Some h \<Longrightarrow>
    map_option (read_dump 13) (binary_print b) = Some (map (\<lambda>(n, v). (n, unat v)) (binary_fields h))"
  by (simp only: binary_print_fields option.map option.inject, rule read_dump_fields [OF field_names(3)])
    (simp add: binary_fields_def)

text \<open>Widening a narrow field to \<open>uintmax_t\<close> keeps its value.\<close>

lemma unat_widened [simp]:
  "unat (ucast (x :: half) :: 64 word) = unat x" "unat (ucast (y :: elf_word) :: 64 word) = unat y"
  using unsigned_less [of x, where ?'a = nat] unsigned_less [of y, where ?'a = nat]
  by (simp_all add: unsigned_ucast_eq take_bit_nat_eq_self)

end
