(* ===== verification/Loader_Properties.thy ===== *)
theory Loader_Properties
  imports Rave_Demo Binary_Print
begin

text \<open>
  The contract of the loader: when a file is accepted, which section and which segment are found,
  what the dumps of the headers say, and which functions the metadata reader hands on. Each property is applied to the concrete
  platform of \<open>Rave_Demo\<close>.
\<close>

section \<open>The binary\<close>

text \<open>
  C22. \<open>binary_init\<close> succeeds exactly when libelf is or can be initialised, the file can be opened,
  examined, mapped and closed, libelf takes the mapping, and the header is one of an executable or
  shared object for x86-64. Of the two tests of the kind and the class one is enough: an ELF file of
  class 32 is accepted, and so is any file of class 64. The size of the file goes through an \<open>int\<close>.
\<close>

theorem binary_init_accepts:
  "binary_init os api old filename w = (RAVE_SUCCESS, b, w') \<longleftrightarrow>
     (\<exists>size p e h.
        (libelf_initialized w \<or> elf_version_ok api) \<and>
        os_open os filename \<noteq> - 1 \<and>
        os_fstat os (os_open os filename) = Some size \<and>
        os_mmap os (int_to_size (size_to_int size)) (os_open os filename)
          (w\<lparr>libelf_initialized := True\<rparr>) = (p, w') \<and> p \<noteq> NULL \<and>
        os_close os (os_open os filename) \<noteq> - 1 \<and>
        elf_memory api p (int_to_size (size_to_int size)) = e \<and> e \<noteq> NULL \<and>
        (elf_kind api e = ELF_K_ELF \<or> gelf_getclass api e = ELFCLASS64) \<and>
        gelf_getehdr api e = Some h \<and> (e_type h = ET_EXEC \<or> e_type h = ET_DYN) \<and>
        e_machine h = EM_X86_64 \<and>
        b = \<lparr>bin_elf = e, bin_header = Some h, bin_mapping = p, file_size = size_to_int size\<rparr>)"
proof -
  let ?w = "w\<lparr>libelf_initialized := True\<rparr>"
  have same: "?w = w" if "libelf_initialized w" using that by simp
  have lib: "init_libelf api w =
      (if libelf_initialized w \<or> elf_version_ok api then (RAVE_SUCCESS, ?w) else (RAVE_EELF_INIT, ?w))"
    using same by (auto simp: init_libelf_def Let_def)
  show ?thesis
  proof (cases "os_fstat os (os_open os filename)")
    case None
    then show ?thesis by (auto simp: binary_init_def lib map_file_def Let_def)
  next
    case (Some size)
    obtain p w1 where m: "os_mmap os (int_to_size (size_to_int size)) (os_open os filename) ?w = (p, w1)"
      by fastforce
    show ?thesis
      by (auto simp: binary_init_def lib map_file_def Let_def Some m check_arch_def split: option.splits)
  qed
qed

text \<open>
  C20. \<open>binary_find_section\<close> returns the first section whose name starts with the target, when no
  header before it is unreadable; \<open>strncmp\<close> with the target's length matches every longer name too,
  so that \<open>.text\<close> finds \<open>.text.unlikely\<close> when that comes first.
\<close>

theorem find_section_first:
  assumes "bin_header b = Some h" "scn_chain api (bin_elf b) NULL ss"
  shows "binary_find_section api b target = Some (RAVE_SUCCESS, Some sec) \<longleftrightarrow>
    (\<exists>pre s post shdr n.
       ss = pre @ s # post \<and> (\<forall>x \<in> set pre. scn_passed api (bin_elf b) (e_shstrndx h) target x) \<and>
       gelf_getshdr api s = Some shdr \<and>
       elf_strptr api (bin_elf b) (e_shstrndx h) (sh_name shdr) = Some n \<and>
       take (length target) n = target \<and> elf_getdata api s \<noteq> NULL \<and>
       sec = \<lparr>sec_elf = bin_elf b, sec_header = shdr, sec_data = elf_getdata api s, sec_name = n\<rparr>)"
  unfolding binary_find_section_def assms(1) option.case find_section_loop_hit [OF assms(2)]
  by (auto simp: section_init_def name_matches_def Let_def split: if_splits)

theorem find_section_first_witness:
  "\<exists>sec. binary_find_section demo_elf demo_binary ''.in'' = Some (RAVE_SUCCESS, Some sec) \<and> sec_name sec = ''.init''"
proof -
  have h: "bin_header demo_binary = Some demo_header"
    by (simp add: demo_binary_def)
  have c: "scn_chain demo_elf (bin_elf demo_binary) NULL [1, 2]" by (simp add: demo_elf_def)
  show ?thesis
    by (rule exI [of _ "\<lparr>sec_elf = 0x40000, sec_header = demo_text_header\<lparr>sh_name := 1\<rparr>, sec_data = 0x41000,
          sec_name = ''.init''\<rparr>"], rule conjI, subst find_section_first [OF h c])
      (rule exI [of _ "[]"], simp_all add: demo_elf_def demo_binary_def)
qed

text \<open>
  C21. \<open>binary_find_segment\<close> returns the segment of the first program header whose memory range
  holds the address, when every header before it is readable; it does not look at the type.
\<close>

theorem find_segment_first:
  assumes "bin_header b = Some h"
  shows "binary_find_segment api b address = Some (RAVE_SUCCESS, Some s) \<longleftrightarrow>
    (\<exists>k < unat (e_phnum h). segment_at api (bin_elf b) k = Some s \<and> segment_contains s address \<and>
       (\<forall>j < k. segment_passed api (bin_elf b) address j))"
  unfolding binary_find_segment_def assms option.case option.inject find_segment_loop_hit by auto

theorem find_segment_first_witness:
  "binary_find_segment demo_elf demo_binary 0x401005 = Some (RAVE_SUCCESS, Some demo_segment)"
proof -
  have h: "bin_header demo_binary = Some demo_header"
    by (simp add: demo_binary_def)
  show ?thesis
    by (subst find_segment_first [OF h], rule exI [of _ 0])
      (simp add: segment_at_def demo_elf_def demo_binary_def demo_header_def demo_segment_def demo_segment_header_def
        segment_contains_def)
qed

text \<open>A failed \<open>mmap\<close> answers with \<open>MAP_FAILED\<close>, the address -1, which the code takes for a mapping.\<close>

theorem map_failure_used:
  assumes "os_open os filename \<noteq> - 1" "os_fstat os (os_open os filename) = Some st_size"
    and "os_mmap os (int_to_size (size_to_int st_size)) (os_open os filename) w = (- 1, w')"
    and "os_close os (os_open os filename) \<noteq> - 1"
  shows "map_file os self filename w =
    (RAVE_SUCCESS, self\<lparr>file_size := size_to_int st_size, bin_mapping := - 1\<rparr>, w')"
  using assms by (simp add: map_file_def)

text \<open>\<open>segment_loadable\<close> looks at the lowest bit of the type, which many types other than \<open>PT_LOAD\<close> have.\<close>

theorem segment_loadable_odd: "segment_loadable s \<longleftrightarrow> odd (p_type (seg_header s))"
  by (simp add: segment_loadable_def PT_LOAD_def and_one_eq odd_iff_mod_2_eq_one)

text \<open>
  C23. The dumps of the headers lose nothing: from the lines that \<open>section_print\<close>, \<open>segment_print\<close> and
  \<open>binary_print\<close> write, whatever the name of the section is, a reader gets back the name and the value
  of every field, in the order of the struct (without \<open>e_ident\<close> and \<open>sh_name\<close>, which are not printed).
\<close>

theorem header_dumps_read_back:
  assumes "sec_elf s \<noteq> NULL" "seg_elf g \<noteq> NULL" "bin_header b = Some h"
  shows "read_dump 9 (section_print s) =
      [(''type'', unat (sh_type (sec_header s))), (''flags'', unat (sh_flags (sec_header s))),
       (''addr'', unat (sh_addr (sec_header s))), (''offset'', unat (sh_offset (sec_header s))),
       (''size'', unat (sh_size (sec_header s))), (''link'', unat (sh_link (sec_header s))),
       (''info'', unat (sh_info (sec_header s))), (''addralign'', unat (sh_addralign (sec_header s))),
       (''entsize'', unat (sh_entsize (sec_header s)))] \<and>
    read_dump 8 (segment_print g) =
      [(''type'', unat (p_type (seg_header g))), (''flags'', unat (p_flags (seg_header g))),
       (''offset'', unat (p_offset (seg_header g))), (''vaddr'', unat (p_vaddr (seg_header g))),
       (''paddr'', unat (p_paddr (seg_header g))), (''filesz'', unat (p_filesz (seg_header g))),
       (''memsz'', unat (p_memsz (seg_header g))), (''align'', unat (p_align (seg_header g)))] \<and>
    map_option (read_dump 13) (binary_print b) =
      Some [(''type'', unat (e_type h)), (''machine'', unat (e_machine h)), (''version'', unat (e_version h)),
       (''entry'', unat (e_entry h)), (''phoff'', unat (e_phoff h)), (''shoff'', unat (e_shoff h)),
       (''flags'', unat (e_flags h)), (''ehsize'', unat (e_ehsize h)), (''phentsize'', unat (e_phentsize h)),
       (''phnum'', unat (e_phnum h)), (''shentsize'', unat (e_shentsize h)), (''shnum'', unat (e_shnum h)),
       (''shstrndx'', unat (e_shstrndx h))]"
  unfolding section_dump [OF assms(1)] segment_dump [OF assms(2)] binary_dump [OF assms(3)]
  by (simp add: header_fields)

theorem header_dumps_read_back_witness:
  "section_print demo_section \<noteq> section_print (demo_section\<lparr>sec_header := demo_text_header\<lparr>sh_size := 17\<rparr>\<rparr>)"
proof
  let ?s = "demo_section\<lparr>sec_header := demo_text_header\<lparr>sh_size := 17\<rparr>\<rparr>"
  assume eq: "section_print demo_section = section_print ?s"
  have h: "sec_elf demo_section \<noteq> NULL" "sec_elf ?s \<noteq> NULL" "seg_elf demo_segment \<noteq> NULL"
    "bin_header demo_binary = Some demo_header"
    by (simp_all add: demo_section_def demo_segment_def demo_binary_def)
  show False
    using header_dumps_read_back [OF h(1,3,4), THEN conjunct1] header_dumps_read_back [OF h(2,3,4), THEN conjunct1]
    unfolding eq by (simp add: demo_section_def demo_text_header_def)
qed

section \<open>The metadata\<close>

text \<open>
  C13. When the whole tree can be read, \<open>foreach_function\<close> calls the callback on every subprogram
  that has a low and a high pc, once, in the order of the units and of the DIEs in them, and stops
  at the first call that fails. When none does, every DIE and every unit has been given back.
\<close>

theorem foreach_function_visits:
  assumes "unit_links api (dbg m) (lib d) us l' DW_DLV_NO_ENTRY" "list_all (clean_unit api) us"
  shows "map_option (\<lambda>(rc, d', s'). (rc, s')) (foreach_function api m cb d s) =
      each_function cb (unit_functions api us) s \<and>
    (\<forall>d' s'. foreach_function api m cb d s = Some (RAVE_SUCCESS, d', s') \<longrightarrow>
      released d' = released d @ filter (\<lambda>p. p \<noteq> NULL) (unit_dies us))"
proof
  note eq = foreach_function_eq [OF assms(1), of cb s]
  have "map_option (\<lambda>(rc, d', s'). (rc, s')) (foreach_function api m cb d s) =
      map_option unit_outcome (visit_units api cb us l' DW_DLV_NO_ENTRY s)"
    unfolding eq by (cases "visit_units api cb us l' DW_DLV_NO_ENTRY s") auto
  then show "map_option (\<lambda>(rc, d', s'). (rc, s')) (foreach_function api m cb d s) =
      each_function cb (unit_functions api us) s"
    using visit_units_clean [OF assms(2) refl] by metis
  show "\<forall>d' s'. foreach_function api m cb d s = Some (RAVE_SUCCESS, d', s') \<longrightarrow>
      released d' = released d @ filter (\<lambda>p. p \<noteq> NULL) (unit_dies us)"
    using eq visit_units_dies [of api cb us l' DW_DLV_NO_ENTRY s]
    by (auto simp: bind_eq_Some_conv release_all_def)
qed

theorem foreach_function_visits_witness:
  "map_option (\<lambda>(rc, d', s'). (rc, s'))
     (foreach_function demo_dwarf demo_metadata (\<lambda>f fs. Some (RAVE_SUCCESS, fs @ [f])) demo_reader []) =
   Some (RAVE_SUCCESS, [\<lparr>faddr = 0x401000, flen = 6\<rparr>])"
proof -
  let ?us = "[(1 :: nat, Some (0x10, [0x20, 0x21], DW_DLV_NO_ENTRY))]"
  have links: "unit_links demo_dwarf (dbg demo_metadata) (lib demo_reader) ?us 1 DW_DLV_NO_ENTRY" by code_simp
  have clean: "list_all (clean_unit demo_dwarf) ?us" by code_simp
  have "each_function (\<lambda>f fs. Some (RAVE_SUCCESS, fs @ [f])) (unit_functions demo_dwarf ?us) [] =
      Some (RAVE_SUCCESS, [\<lparr>faddr = 0x401000, flen = 6\<rparr>])" by code_simp
  then show ?thesis
    unfolding foreach_function_visits [OF links clean, THEN conjunct1] .
qed

text \<open>
  C24. At the first DIE that cannot be read, after readable DIEs and clean units, the walk ends with
  \<open>RAVE_EDWARF\<close>; the callback has been called on the functions before it only.
\<close>

theorem foreach_function_stops:
  assumes "unit_links api (dbg m) (lib d) (us @ (lu, Some (cu, dies @ die # dies', e1)) # us') l' e"
    and "list_all (clean_unit api) us" "list_all (readable api) dies" "\<not> readable api die"
  shows "map_option (\<lambda>(rc, d', s'). (rc, s')) (foreach_function api m cb d s) =
    do { (rc, s1) \<leftarrow> each_function cb (unit_functions api us @ die_functions api dies) s;
         Some (if rc \<noteq> RAVE_SUCCESS then rc else RAVE_EDWARF, s1) }"
proof -
  let ?us' = "(lu, Some (cu, dies @ die # dies', e1)) # us'"
  have "map_option (\<lambda>(rc, d', s'). (rc, s')) (foreach_function api m cb d s) =
      map_option unit_outcome (visit_units api cb (us @ ?us') l' e s)"
    unfolding foreach_function_eq [OF assms(1), of cb s]
    by (cases "visit_units api cb (us @ ?us') l' e s") auto
  also have "\<dots> = do { (rc, s1) \<leftarrow> each_function cb (unit_functions api us) s;
      if rc \<noteq> RAVE_SUCCESS then Some (rc, s1) else map_option unit_outcome (visit_units api cb ?us' l' e s1) }"
    by (rule visit_units_append [OF assms(2)])
  finally show ?thesis
    unfolding visit_units_unreadable [OF assms(3,4)] each_function_append
    by (cases "each_function cb (unit_functions api us) s") auto
qed

theorem foreach_function_stops_witness:
  "map_option (\<lambda>(rc, d', s'). (rc, s'))
     (foreach_function (demo_dwarf\<lparr>dwarf_tag := (\<lambda>die. (if die = 0x20 then 0 else 1, 0x2e))\<rparr>) demo_metadata
       (\<lambda>f fs. Some (RAVE_SUCCESS, fs @ [f])) demo_reader []) =
   Some (RAVE_EDWARF, [\<lparr>faddr = 0x401000, flen = 6\<rparr>])"
proof -
  let ?api = "demo_dwarf\<lparr>dwarf_tag := (\<lambda>die. (if die = 0x20 then 0 else 1, 0x2e))\<rparr>"
  have links: "unit_links ?api (dbg demo_metadata) (lib demo_reader)
      ([] @ (1, Some (0x10, [0x20] @ 0x21 # [], DW_DLV_NO_ENTRY)) # []) 1 DW_DLV_NO_ENTRY" by code_simp
  have dies: "list_all (clean_unit ?api) []" "list_all (readable ?api) [0x20]" "\<not> readable ?api 0x21"
    by code_simp+
  have "each_function (\<lambda>f fs. Some (RAVE_SUCCESS, fs @ [f]))
      (unit_functions ?api [] @ die_functions ?api [0x20]) [] = Some (RAVE_SUCCESS, [\<lparr>faddr = 0x401000, flen = 6\<rparr>])"
    by code_simp
  then show ?thesis unfolding foreach_function_stops [OF links dies] by simp
qed

end
