(* ===== verification/Rave_Pages.thy ===== *)
theory Rave_Pages
  imports Rave_Api Rave_Returns
begin

text \<open>
  What the client finds in a page it is answered with: the bytes of the file, but for the register
  saves and restores of the accepted functions.
\<close>

text \<open>The byte of the loaded segment at a distance from its start.\<close>

definition segment_byte :: "(ptr \<Rightarrow> byte) \<Rightarrow> binary \<Rightarrow> elf_segment \<Rightarrow> nat \<Rightarrow> byte" where
  "segment_byte m b segment k =
     (if k < unat (segment_filesz segment) then m (file_bytes b segment + of_nat k) else 0)"

definition file_fits :: "binary \<Rightarrow> elf_segment \<Rightarrow> ptr \<Rightarrow> bool" where
  "file_fits b segment mapping \<longleftrightarrow>
     segment_filesz segment \<le> PAGE_UP (segment_memsz segment) \<and> file_apart b segment mapping"

lemma loaded_byte:
  assumes "map_code_pages self sec segment w = Some (RAVE_SUCCESS, self', w')" "h_binary self = Some b"
    and "code_segment self' = Some seg" "file_fits b segment (data seg)"
    and "k < unat (PAGE_UP (segment_memsz segment))"
  shows "mem w' (data seg + of_nat k) = segment_byte (mem w) b segment k"
proof -
  let ?len = "unat (PAGE_UP (segment_memsz segment))"
  have load: "segment_loadable segment"
    using assms(1) by (auto simp: map_code_pages_def split: if_splits)
  obtain mapping w1 where c: "rave_calloc 1 ?len w = (mapping, w1)" by fastforce
  have nz: "mapping \<noteq> NULL"
    using assms(1) c load by (auto simp: map_code_pages_def Let_def split: if_splits)
  have seg: "data seg = mapping"
    using assms(1,3) c load nz assms(2)
    by (auto simp: map_code_pages_def Let_def bind_eq_Some_conv)
  have fits: "segment_filesz segment \<le> PAGE_UP (segment_memsz segment)" "file_apart b segment mapping"
    using assms(4) by (simp_all add: file_fits_def seg)
  have n: "unat (segment_filesz segment) \<le> ?len" using fits(1) by (simp add: word_le_nat_alt)
  have k: "unat (of_nat k :: ptr) = k"
    using assms(5) unat_lt64 [of "PAGE_UP (segment_memsz segment)"] by (intro unat_of_nat64) linarith
  have "w' = w1\<lparr>mem := mem_put mapping
      (loaded_bytes (mem w) (file_bytes b segment) (unat (segment_filesz segment)) ?len) (mem w)\<rparr>"
    using map_code_pages_eq(1) [OF load assms(2) c nz fits, of sec] assms(1) by simp
  then show ?thesis
    using assms(5) n by (simp add: seg mem_put_def k segment_byte_def loaded_bytes_def nth_append nth_mem_get)
qed

text \<open>The walk over the functions leaves the memory and the windows as they were.\<close>

lemma walk_unchanged:
  assumes "init_stages fuel pf h0 filename w0 d0 mp tp b w3 sec segment m d1 h6 w4"
    and "mmap_frame (p_os pf)" "NULL \<notin> live_set w0" "text_placed sec segment"
    and "foreach_function (p_dwarf pf) m (process_function fuel (p_dr pf)) d1 (h6, w4) = Some (rc, d', h, w)"
  shows "mem w = mem w4" "code_segment h = code_segment h6" "h_binary (staged h0 mp m tp b) = Some b"
    "code_segment h6 = Some (segment_window segment (data (the (code_segment h6))))"
proof -
  obtain mapping B L where mp: "h6 = (staged h0 mp m tp b)\<lparr>
      code_segment := Some (segment_window segment mapping), code_text := Some (text_window sec segment mapping)\<rparr>"
    "window_ok (segment_window segment mapping)"
    "analysis_inv (p_dr pf) h6 tp (text_window sec segment mapping) B L [mp, tp] (mem w4) (h6, w4)"
    by (rule stages_inv [OF assms(1-4)]) blast
  have tw: "code_text h6 = Some (text_window sec segment mapping)" by (simp add: mp(1))
  from dw.each_keeps [OF assms(5) process_function_keeps [OF tw text_window_ok [OF assms(4) mp(2)]] mp(3)]
  have "analysis_inv (p_dr pf) h6 tp (text_window sec segment mapping) B L [mp, tp] (mem w4) (h, w)" .
  then show "mem w = mem w4" "code_segment h = code_segment h6" by (auto simp: analysis_inv_def)
  show "h_binary (staged h0 mp m tp b) = Some b" by (simp add: staged_def)
  show "code_segment h6 = Some (segment_window segment (data (the (code_segment h6))))"
    by (simp add: mp(1) segment_window_def)
qed

lemma init_walk:
  assumes "init_stages fuel pf h filename w d mp tp b w3 sec segment m d1 h6 w4"
    and "rave_init fuel pf (Some h) filename w d = Some (rc, Some h7, w5, d2)"
  shows "foreach_function (p_dwarf pf) m (process_function fuel (p_dr pf)) d1 (h6, w4) = Some (rc, d2, h7, w5)"
  using assms(2) unfolding rave_init_by_stages [OF assms(1)] by (auto simp: bind_eq_Some_conv)

text \<open>The bytes of an answered page.\<close>

lemma served_byte:
  assumes stages: "init_stages fuel pf h0 filename w0 d0 mp tp b w3 sec segment m d1 h6 w4"
    and laws: "mmap_frame (p_os pf)" "NULL \<notin> live_set w0" "text_placed sec segment"
    and init: "rave_init fuel pf (Some h0) filename w0 d0 = Some (RAVE_SUCCESS, Some h, w, d')"
    and serve: "serving pf h seg tw t K w" and fits: "file_fits b segment (data seg)"
    and run: "rave_run pf (h, w) es (h', w')" and base: "at_base h' seg (Some base)"
    and fault: "rave_handle_fault (Some h') a = Some p" "p \<noteq> NULL"
    and k: "k < 4096" "outside_sets (p_dr pf) tw t (p + of_nat k)"
  shows "mem w' (p + of_nat k) = segment_byte (mem w3) b segment (unat (PAGE_DOWN a - base) + k)"
proof -
  note each = init_walk [OF stages init]
  note walk = walk_unchanged [OF stages laws each]
  obtain t' where serve': "serving pf h' seg tw t' K w'"
    and frame: "\<forall>a. outside_sets (p_dr pf) tw t a \<longrightarrow> mem w' a = mem w a"
    using serving_run [OF run, of seg tw t K] serve unfolding fst_conv snd_conv by blast
  have seg: "code_segment h = Some seg" "unat (wlength seg) mod 4096 = 0"
    using serve unfolding serving_def handle_inv_def by blast+
  have seg6: "code_segment h6 = Some seg" using walk(2) seg(1) by simp
  then have "seg = segment_window segment (data seg)" using walk(4) by simp
  then have len: "wlength seg = PAGE_UP (segment_memsz segment)" by (metis segment_window_def window.select_convs(3))
  let ?x = "PAGE_DOWN a - base"
  have "p = page_of seg base a" using serving_fault [OF serve' base, of a] fault(1) by simp
  then have p: "p = data seg + ?x" "base \<le> a" "unat (a - base) < unat (wlength seg)"
    using fault(2) by (auto simp: page_of_def split: if_splits)
  have b: "unat base mod 4096 = 0" "unat base + unat (wlength seg) < 2 ^ 64"
    using base by (simp_all add: at_base_def base_ok_def)
  note ext = page_in_extent [OF b(1) seg(2) b(2), of a]
  have x: "unat ?x < unat (wlength seg)" using ext(1) p(2,3) by blast
  have "unat (wlength seg - ?x) = unat (wlength seg) - unat ?x"
    using x by (intro unat_minus_nowrap) (simp add: word_le_nat_alt)
  then have in_page: "unat ?x + k < unat (wlength seg)" using ext(2) [OF x] k(1) by linarith
  have at: "p + of_nat k = data seg + of_nat (unat ?x + k)" by (simp add: p(1))
  have "map_code_pages (staged h0 mp m tp b) sec segment w3 = Some (RAVE_SUCCESS, h6, w4)"
    using stages unfolding init_stages_def by blast
  from loaded_byte [OF this walk(3) seg6 fits, of "unat ?x + k"] in_page len
  have "mem w4 (p + of_nat k) = segment_byte (mem w3) b segment (unat ?x + k)" by (simp only: at)
  with frame k(2) walk(1) show ?thesis by simp
qed

end
