(* ===== verification/Rave_Places.thy ===== *)
theory Rave_Places
  imports Rave_Api Transform_Drift
begin

text \<open>
  The functions of a serving handle in the local copy of the code, by the places their instructions
  really have: a function in whose code a single candidate was found is recorded where it is, and no
  other function's permutation reaches into it.
\<close>

text \<open>Where the code of a function lies in the copy.\<close>

definition func_bytes :: "window \<Rightarrow> func \<Rightarrow> ptr" where
  "func_bytes tw rec = fst (window_view (Some tw) (faddr rec))"

lemma function_window_local: "function_window tw rec = local_window rec (func_bytes tw rec)"
  by (simp add: function_window_def local_window_def func_bytes_def)

lemma sorted_wrt_pair:
  assumes "sorted_wrt P xs" "x \<in> set xs" "y \<in> set xs" "\<And>a b. P a b \<Longrightarrow> P b a"
  shows "x = y \<or> P x y"
  using assms(1-3)
proof (induction xs)
  case (Cons z zs)
  then show ?case using assms(4) by auto
qed simp

lemma func_bytes_bounds:
  assumes "window_ok tw" "func_within tw rec"
  shows "unat (func_bytes tw rec) = unat (data tw) + (unat (faddr rec) - unat (orig tw))"
    "unat (func_bytes tw rec) + unat (flen rec) < 2 ^ 64" "unat (orig tw) \<le> unat (faddr rec)"
proof -
  have r: "orig tw \<le> faddr rec" "unat (faddr rec - orig tw) + unat (flen rec) \<le> unat (wlength tw)"
    using assms(2) by (simp_all add: func_within_def)
  show "unat (orig tw) \<le> unat (faddr rec)" using r(1) by (simp add: word_le_nat_alt)
  have b: "unat (data tw) + unat (wlength tw) < 2 ^ 64" using assms(1) unfolding window_ok_def by blast
  have d: "func_bytes tw rec = data tw + (faddr rec - orig tw)"
    using function_window_ok(2) [OF assms] by (simp add: function_window_local local_window_def)
  have "unat (func_bytes tw rec) = unat (data tw) + unat (faddr rec - orig tw)"
    unfolding d using r(2) b by (intro unat_plus_nowrap) linarith
  then show "unat (func_bytes tw rec) = unat (data tw) + (unat (faddr rec) - unat (orig tw))"
    unfolding unat_minus_nowrap [OF r(1)] .
  then show "unat (func_bytes tw rec) + unat (flen rec) < 2 ^ 64"
    using r b unat_minus_nowrap [OF r(1)] by linarith
qed

text \<open>The sets of one function stay clear of every byte of another.\<close>

lemma other_function_apart:
  assumes "window_ok tw" "func_within tw rec" "settled api tw w tf" "func_apart rec (tf_record tf)"
    and "s \<in> set (tf_sets tf)" "k < unat (flen rec)"
  shows "isize api (insns s) \<le> unat (func_bytes tw rec + of_nat k - set_at (function_window tw (tf_record tf)) s)"
proof -
  have tf: "func_within tw (tf_record tf)" "tf_ready api tw w tf" using assms(3) by (simp_all add: settled_def)
  note x = func_bytes_bounds [OF assms(1,2)] and y = set_local_bounds [OF assms(1) tf assms(5)]
    and z = func_bytes_bounds(3) [OF assms(1) tf(1)]
  from assms(4) x y z show ?thesis
    unfolding func_apart_def by (intro byte_apart [OF _ _ _ assms(6)]; linarith)
qed

lemma serving_function:
  assumes "serving pf h seg tw t K w" "tf \<in> set (transformables t)"
  shows "window_ok tw" "settled (p_dr pf) tw w tf" "func_within tw (tf_record tf)"
    "\<And>b. b \<in> set (transformables t) \<Longrightarrow> b = tf \<or> func_apart (tf_record tf) (tf_record b)"
proof -
  show "window_ok tw" "settled (p_dr pf) tw w tf"
    using assms unfolding serving_def handle_inv_def by blast+
  then show "func_within tw (tf_record tf)" by (simp add: settled_def)
  have "sorted_wrt (\<lambda>a b. func_apart (tf_record a) (tf_record b)) (transformables t)"
    using assms(1) unfolding serving_def by blast
  then show "b = tf \<or> func_apart (tf_record tf) (tf_record b)" if "b \<in> set (transformables t)" for b
    using sorted_wrt_pair [OF _ assms(2) that] func_apart_sym by blast
qed

lemma own_sets_suffice:
  assumes "serving pf h seg tw t K w" "tf \<in> set (transformables t)" "k < unat (flen (tf_record tf))"
    and "\<forall>s \<in> set (tf_sets tf). isize (p_dr pf) (insns s) \<le>
      unat (func_bytes tw (tf_record tf) + of_nat k - set_at (function_window tw (tf_record tf)) s)"
  shows "outside_sets (p_dr pf) tw t (func_bytes tw (tf_record tf) + of_nat k)"
  unfolding outside_sets_def
proof (intro ballI)
  note own = serving_function [OF assms(1,2)]
  fix b s
  assume b: "b \<in> set (transformables t)" and s: "s \<in> set (tf_sets b)"
  show "isize (p_dr pf) (insns s) \<le>
      unat (func_bytes tw (tf_record tf) + of_nat k - set_at (function_window tw (tf_record b)) s)"
  proof (cases "b = tf")
    case False
    then have "func_apart (tf_record tf) (tf_record b)" using own(4) [OF b] by blast
    from other_function_apart [OF own(1,3) serving_function(2) [OF assms(1) b] this s assms(3)] show ?thesis .
  qed (use assms(4) s in simp)
qed

text \<open>A function whose single candidate was found in its code, in a serving handle.\<close>

lemma single_places:
  assumes "serving pf h seg tw t K w" "tf \<in> set (transformables t)" "dr_advances (p_dr pf)" "text_small tw"
    and "function_found (p_dr pf) m (func_bytes tw (tf_record tf)) (tf_record tf) tf skip stop [(between, e, rest)]"
  defines "i \<equiv> isize (p_dr pf) skip" and "j \<equiv> isize (p_dr pf) (skip @ insns (prologue tf) @ stop @ between)"
    and "fw \<equiv> function_window tw (tf_record tf)" and "bytes \<equiv> func_bytes tw (tf_record tf)"
  shows "epilogues tf = [e]" "set_at fw (prologue tf) = bytes + of_nat i" "set_at fw e = bytes + of_nat j"
    "i + isize (p_dr pf) (insns (prologue tf)) \<le> unat (flen (tf_record tf))"
    "j + isize (p_dr pf) (insns e) \<le> unat (flen (tf_record tf))"
    "unat (flen (tf_record tf)) \<le> 2 ^ 31"
proof -
  note own = serving_function [OF assms(1,2)]
  have b: "func_bounds (tf_record tf) bytes"
    using within_bounds [OF own(1) assms(4) own(3)] by (simp add: bytes_def func_bytes_def)
  then show "unat (flen (tf_record tf)) \<le> 2 ^ 31" unfolding func_bounds_def by blast
  show "epilogues tf = [e]" "set_at fw (prologue tf) = bytes + of_nat i" "set_at fw e = bytes + of_nat j"
    "i + isize (p_dr pf) (insns (prologue tf)) \<le> unat (flen (tf_record tf))"
    "j + isize (p_dr pf) (insns e) \<le> unat (flen (tf_record tf))"
    using single_candidate_places [OF assms(3,5) b [unfolded bytes_def]]
    unfolding fw_def bytes_def i_def j_def function_window_local by blast+
qed

text \<open>A byte that belongs to no prologue and no epilogue, by their places in the code.\<close>

definition outside_code :: "'i dr_api \<Rightarrow> (ptr \<Rightarrow> byte) \<Rightarrow> window \<Rightarrow> 'i transform \<Rightarrow> ptr \<Rightarrow> bool" where
  "outside_code api m tw t a \<longleftrightarrow>
     (\<forall>tf \<in> set (transformables t). \<exists>skip stop between e rest.
        let rec = tf_record tf; bytes = func_bytes tw rec; pro = insns (prologue tf)
        in function_found api m bytes rec tf skip stop [(between, e, rest)] \<and>
           isize api pro \<le> unat (a - (bytes + of_nat (isize api skip))) \<and>
           isize api (insns e) \<le> unat (a - (bytes + of_nat (isize api (skip @ pro @ stop @ between)))))"

lemma outside_code_sets:
  assumes "serving pf h seg tw t K w" "dr_advances (p_dr pf)" "text_small tw" "outside_code (p_dr pf) m tw t a"
  shows "outside_sets (p_dr pf) tw t a"
  unfolding outside_sets_def
proof (intro ballI)
  fix tf s
  assume tf: "tf \<in> set (transformables t)" and s: "s \<in> set (tf_sets tf)"
  obtain skip stop between e rest where
    f: "function_found (p_dr pf) m (func_bytes tw (tf_record tf)) (tf_record tf) tf skip stop [(between, e, rest)]"
    and out: "isize (p_dr pf) (insns (prologue tf)) \<le>
        unat (a - (func_bytes tw (tf_record tf) + of_nat (isize (p_dr pf) skip)))"
      "isize (p_dr pf) (insns e) \<le> unat (a - (func_bytes tw (tf_record tf) +
        of_nat (isize (p_dr pf) (skip @ insns (prologue tf) @ stop @ between))))"
    using assms(4) tf unfolding outside_code_def Let_def by blast
  note places = single_places [OF assms(1) tf assms(2,3) f]
  have "s = prologue tf \<or> s = e" using s places(1) by (auto simp: tf_sets_def)
  with out show "isize (p_dr pf) (insns s) \<le> unat (a - set_at (function_window tw (tf_record tf)) s)"
    unfolding places(2,3) [symmetric] by blast
qed

text \<open>
  After any run with a randomisation in it: such a function restores its registers, by the code at
  the places of its prologue and its epilogue, and the rest of it is as it was.
\<close>

lemma single_function_run:
  assumes run: "rave_run pf (h, w) es (h', w')" and serve: "serving pf h seg tw t K w"
    and "list_ex is_randomized es" and tf: "tf \<in> set (transformables t)"
    and dr: "dr_advances (p_dr pf)" "text_small tw"
    and f: "function_found (p_dr pf) m (func_bytes tw (tf_record tf)) (tf_record tf) tf skip stop [(between, e, rest)]"
  defines "i \<equiv> isize (p_dr pf) skip" and "j \<equiv> isize (p_dr pf) (skip @ insns (prologue tf) @ stop @ between)"
    and "bytes \<equiv> func_bytes tw (tf_record tf)"
  shows "restores_regs (p_dr pf) (function_window tw (tf_record tf)) (mem w') tf e"
    "k < unat (flen (tf_record tf)) \<Longrightarrow>
       k < i \<or> i + isize (p_dr pf) (insns (prologue tf)) \<le> k \<Longrightarrow> k < j \<or> j + isize (p_dr pf) (insns e) \<le> k \<Longrightarrow>
       mem w' (bytes + of_nat k) = mem w (bytes + of_nat k)"
proof -
  note places = single_places [OF serve tf dr f]
  obtain t' where r: "all_restore (p_dr pf) tw t (mem w')"
    "\<forall>a. outside_sets (p_dr pf) tw t a \<longrightarrow> mem w' a = mem w a"
    using serving_run [OF run, of seg tw t K] serve assms(3) unfolding fst_conv snd_conv by auto
  show "restores_regs (p_dr pf) (function_window tw (tf_record tf)) (mem w') tf e"
    using r(1) tf places(1) by (auto simp: all_restore_def)
  assume k: "k < unat (flen (tf_record tf))"
    "k < i \<or> i + isize (p_dr pf) (insns (prologue tf)) \<le> k" "k < j \<or> j + isize (p_dr pf) (insns e) \<le> k"
  have "isize (p_dr pf) (insns s) \<le> unat (bytes + of_nat k - set_at (function_window tw (tf_record tf)) s)"
    if "s \<in> set (tf_sets tf)" for s
  proof -
    have "s = prologue tf \<or> s = e" using that places(1) by (auto simp: tf_sets_def)
    then show ?thesis
    proof
      assume s: "s = prologue tf"
      show ?thesis
        unfolding s places(2) bytes_def
        by (rule offset_apart) (use k places(4,6) in \<open>auto simp: i_def\<close>)
    next
      assume s: "s = e"
      show ?thesis
        unfolding s places(3) bytes_def
        by (rule offset_apart) (use k places(5,6) in \<open>auto simp: j_def\<close>)
    qed
  qed
  then have "outside_sets (p_dr pf) tw t (bytes + of_nat k)"
    unfolding bytes_def by (intro own_sets_suffice [OF serve tf k(1)]) blast
  with r(2) show "mem w' (bytes + of_nat k) = mem w (bytes + of_nat k)" by blast
qed

end
