(* ===== verification/Rave_Properties.thy ===== *)
theory Rave_Properties
  imports Rave_Demo Rave_Pages Rave_Places
begin

text \<open>
  The contract of the library as its client sees it: what \<open>rave_init\<close> sets up, what every sequence
  of calls keeps, and where the handle's operations go wrong. Each property is applied to the
  concrete platform of \<open>Rave_Demo\<close>.
\<close>

section \<open>Loading the code\<close>

text \<open>
  C12. A loadable segment is mapped into a fresh, zeroed block of whole pages, and the bytes of the
  file are copied to its start: every byte of the block is the byte of the file at the same offset,
  or zero behind the end of the file's part. The two windows are laid over that block, and nothing
  else in memory changes.
\<close>

theorem map_code_pages_loads:
  assumes "segment_loadable segment" "h_binary self = Some b"
    and "rave_calloc 1 (unat (PAGE_UP (segment_memsz segment))) w = (mapping, w1)" "mapping \<noteq> NULL"
    and "segment_filesz segment \<le> PAGE_UP (segment_memsz segment)" "file_apart b segment mapping"
  shows "\<exists>self' w'. map_code_pages self sec segment w = Some (RAVE_SUCCESS, self', w') \<and>
    code_segment self' = Some (segment_window segment mapping) \<and>
    code_text self' = Some (text_window sec segment mapping) \<and>
    live w' = (mapping, unat (PAGE_UP (segment_memsz segment))) # live w \<and>
    (\<forall>a. mem w' a =
       (let k = unat (a - mapping)
        in if k < unat (segment_filesz segment) then mem w (file_bytes b segment + of_nat k)
           else if k < unat (PAGE_UP (segment_memsz segment)) then 0 else mem w a))"
proof -
  have le: "unat (segment_filesz segment) \<le> unat (PAGE_UP (segment_memsz segment))"
    using assms(5) by (simp add: word_le_nat_alt)
  show ?thesis
    unfolding map_code_pages_eq(1) [OF assms]
    using map_code_pages_eq(2) [OF assms] le
    by (auto simp: mem_put_def loaded_bytes_def nth_append nth_mem_get Let_def)
qed

theorem map_code_pages_loads_witness:
  "\<exists>h w'. map_code_pages (demo_mapped\<lparr>code_segment := None, code_text := None\<rparr>) demo_section demo_segment
     (demo_start\<lparr>mem := demo_file\<rparr>) = Some (RAVE_SUCCESS, h, w') \<and>
     mem w' 0x100001 = 0x57 \<and> mem w' 0x100006 = 0"
proof -
  let ?w = "demo_start\<lparr>mem := demo_file\<rparr>"
  have load: "segment_loadable demo_segment"
    by (simp add: segment_loadable_def demo_segment_def demo_segment_header_def PT_LOAD_def)
  have bin: "h_binary (demo_mapped\<lparr>code_segment := None, code_text := None\<rparr>) = Some demo_binary"
    by (simp add: demo_mapped_def)
  have src: "file_bytes demo_binary demo_segment = 0x31000"
    by (simp add: file_bytes_def demo_binary_def demo_segment_def demo_segment_header_def segment_offset_def)
  have n: "segment_filesz demo_segment = 16"
    by (simp add: demo_segment_def demo_segment_header_def segment_filesz_def)
  have "rave_malloc 4096 ?w = (0x100000, ?w\<lparr>nalloc := 1, live := [(0x100000, 4096)]\<rparr>)"
    unfolding rave_malloc_def demo_start_def Let_def
    by (simp add: fresh_block_def split del: if_split)
  then have c: "rave_calloc 1 (unat (PAGE_UP (segment_memsz demo_segment))) ?w =
      (0x100000, ?w\<lparr>nalloc := 1, live := [(0x100000, 4096)], mem := mem_put 0x100000 (replicate 4096 0) demo_file\<rparr>)"
    by (simp add: rave_calloc_def demo_len)
  have "4096 \<le> unat (0x31000 + of_nat k - (0x100000 :: ptr))" if "k < 16" for k
    by (rule byte_apart [of _ 16]) (use that in simp_all)
  then have apart: "file_apart demo_binary demo_segment 0x100000"
    by (simp add: file_apart_def src n demo_len)
  have fits: "segment_filesz demo_segment \<le> PAGE_UP (segment_memsz demo_segment)"
    by (simp add: n demo_len)
  have "(0x100000 :: ptr) \<noteq> NULL" by simp
  from map_code_pages_loads [OF load bin c this fits apart, of demo_section, unfolded src n demo_len]
  obtain h w' where r: "map_code_pages (demo_mapped\<lparr>code_segment := None, code_text := None\<rparr>) demo_section
      demo_segment ?w = Some (RAVE_SUCCESS, h, w')"
    "\<forall>a. mem w' a = (let k = unat (a - 0x100000) in if k < unat (16 :: size_t) then mem ?w (0x31000 + of_nat k)
        else if k < unat (4096 :: size_t) then 0 else mem ?w a)"
    by blast
  from r(2) [rule_format, of "0x100001"] r(2) [rule_format, of "0x100006"] r(1) show ?thesis
    by (intro exI [of _ h] exI [of _ w']) (simp add: demo_file_def mem_put_def demo_body_def)
qed

text \<open>
  The address of a section goes through an \<open>int\<close> on its way to the windows: it comes out as it
  was exactly when it lies in the lowest or the highest two gigabytes.
\<close>

theorem section_address_truncates:
  "int_to_size (section_address sec) = sh_addr (sec_header sec) \<longleftrightarrow>
     - (2 ^ 31) \<le> sint (sh_addr (sec_header sec)) \<and> sint (sh_addr (sec_header sec)) < 2 ^ 31"
proof -
  define x where "x = sh_addr (sec_header sec)"
  have "int_to_size (size_to_int x) = (of_int (signed_take_bit 31 (sint x)) :: size_t)"
    by (rule bit_word_eqI) (auto simp: bit_simps min_def)
  moreover have "(of_int (signed_take_bit 31 (sint x)) :: size_t) = x \<longleftrightarrow> signed_take_bit 31 (sint x) = sint x"
  proof
    assume "(of_int (signed_take_bit 31 (sint x)) :: size_t) = x"
    then have "sint x = sint (of_int (signed_take_bit 31 (sint x)) :: size_t)" by simp
    then show "signed_take_bit 31 (sint x) = sint x" by (simp add: signed_of_int)
  qed simp
  ultimately show ?thesis
    by (simp add: section_address_def x_def signed_take_bit_int_eq_self_iff)
qed

section \<open>Analysing the functions\<close>

text \<open>
  C38. A function whose end is the end of the text section is passed over: the test wants the address
  behind its last byte to lie inside the section too. The callback reports success and leaves the
  handle as it was, so that such a function is never randomised.
\<close>

theorem last_function_skipped:
  assumes "code_text h = Some tw" "unat (faddr f - orig tw) + unat (flen f) = unat (wlength tw)"
  shows "process_function fuel api f (h, w) = Some (RAVE_SUCCESS, h, w)"
proof -
  have "(faddr f - orig tw) + flen f = wlength tw"
    using assms(2) unat_plus_nowrap [of "faddr f - orig tw" "flen f"] unat_lt64 [of "wlength tw"]
    by (simp add: word_unat_eq_iff)
  then have "faddr f + flen f = orig tw + wlength tw" by (simp add: algebra_simps)
  then show ?thesis by (rule process_function_at_end [OF assms(1)])
qed

theorem last_function_skipped_witness:
  "process_function 7 one_byte_api \<lparr>faddr = 0x401000, flen = 16\<rparr> (demo_mapped, demo_loaded) =
     Some (RAVE_SUCCESS, demo_mapped, demo_loaded)"
proof -
  have "code_text demo_mapped = Some run_text" by (simp add: demo_mapped_def run_text_def)
  from last_function_skipped [OF this, of "\<lparr>faddr = 0x401000, flen = 16\<rparr>"] show ?thesis
    by (simp add: run_text_def)
qed

text \<open>
  C9. After a successful \<open>rave_init\<close> the segment's and the text's windows are sound, the second
  inside the first and the first whole pages of a live block; every function that was accepted lies
  inside the text, was found in its code and is well-formed; and the handle holds its blocks
  beside what was live before.
\<close>

theorem rave_init_establishes:
  assumes "rave_init fuel pf (Some h) filename w d = Some (RAVE_SUCCESS, h', w', d')"
    and "mmap_frame (p_os pf)" "text_sane (p_elf pf)" "NULL \<notin> live_set w" "dr_advances (p_dr pf)"
  shows "\<exists>h1 seg tw t. h' = Some h1 \<and> handle_inv h1 seg tw t (live_set w) w' \<and>
    (\<forall>tf \<in> set (transformables t). analysed (p_dr pf) tw (mem w') tf) \<and>
    (text_small tw \<longrightarrow> (\<forall>tf \<in> set (transformables t). tf_wf (p_dr pf) tf \<and> tf_sorted tf))"
proof -
  obtain h1 seg tw t where r: "h' = Some h1" "handle_inv h1 seg tw t (live_set w) w'"
    "\<forall>tf \<in> set (transformables t). analysed (p_dr pf) tw (mem w') tf"
    using rave_init_inv [OF assms(1-4)] by (auto simp: list_all_iff)
  have "window_ok tw" using r(2) by (simp add: handle_inv_def)
  from analysed_wf [OF assms(5) this] r show ?thesis by blast
qed

theorem rave_init_establishes_witness:
  "\<exists>w d. rave_init 7 demo_platform (Some (fresh_handle 0x50000)) ''a.out'' demo_start demo_reader =
       Some (RAVE_SUCCESS, Some run_handle, w, d) \<and>
     analysed one_byte_api run_text (mem w) run_tf"
proof -
  obtain w d where init: "rave_init 7 demo_platform (Some (fresh_handle 0x50000)) ''a.out'' demo_start demo_reader =
       Some (RAVE_SUCCESS, Some run_handle, w, d)"
    using demo_init by blast
  have laws: "mmap_frame (p_os demo_platform)" "text_sane (p_elf demo_platform)" "NULL \<notin> live_set demo_start"
    "dr_advances (p_dr demo_platform)"
    using demo_mmap_frame demo_text_sane demo_advances
    by (simp_all add: demo_platform_def live_set_def demo_start_def)
  from rave_init_establishes [OF init laws] obtain seg tw t where
    "handle_inv run_handle seg tw t (live_set demo_start) w"
    "\<forall>tf \<in> set (transformables t). analysed (p_dr demo_platform) tw (mem w) tf" by auto
  then have "analysed (p_dr demo_platform) run_text (mem w) run_tf"
    using run_windows by (auto simp: handle_inv_def run_transform_def)
  with init show ?thesis by (auto simp: demo_platform_def)
qed

text \<open>
  C10. When the file, its text section and segment, libdwarf and DynamoRIO are in order and the code is
  mapped (the stages up to the walk), \<open>rave_init\<close> comes back with success: whatever the functions
  hold, with a decoder that advances, fuel for the longest of them, a finite tree of readable DIEs,
  and memory for the analysis.
\<close>

theorem rave_init_returns:
  assumes "init_stages fuel pf h filename w d mp tp b w3 sec segment m d1 h6 w4"
    and "mmap_frame (p_os pf)" "NULL \<notin> live_set w" "text_placed sec segment"
    and "code_text h6 = Some tw" "text_small tw"
    and "dr_advances (p_dr pf)" "dr_instr_size (p_dr pf) \<le> N" "sizeof_transformable \<le> N"
    and "unit_links (p_dwarf pf) (dbg m) (lib d1) us l' DW_DLV_NO_ENTRY" "list_all (clean_unit (p_dwarf pf)) us"
    and "\<forall>f \<in> set (unit_functions (p_dwarf pf) us). walkable fuel N f"
    and "has_supply w4 (sum_list (map add_cost (unit_functions (p_dwarf pf) us))) N"
  shows "\<exists>h1 w' d'. rave_init fuel pf (Some h) filename w d = Some (RAVE_SUCCESS, Some h1, w', d')"
  by (rule rave_init_total [OF assms])

theorem rave_init_returns_witness:
  "\<exists>h1 w' d'. rave_init 7 demo_platform (Some (fresh_handle 0x50000)) ''a.out'' demo_start demo_reader =
     Some (RAVE_SUCCESS, Some h1, w', d')"
proof (rule rave_init_returns [OF demo_stages])
  let ?us = "[(1 :: nat, Some (0x10, [0x20, 0x21], DW_DLV_NO_ENTRY))]"
  have dw: "p_dwarf demo_platform = demo_dwarf" by (simp add: demo_platform_def)
  have fs: "unit_functions demo_dwarf ?us = [\<lparr>faddr = 0x401000, flen = 6\<rparr>]" by code_simp
  show "unit_links (p_dwarf demo_platform) (dbg demo_metadata) (lib demo_reader) ?us 1 DW_DLV_NO_ENTRY"
    unfolding dw by code_simp
  show "list_all (clean_unit (p_dwarf demo_platform)) ?us" unfolding dw by code_simp
  show "\<forall>f \<in> set (unit_functions (p_dwarf demo_platform) ?us). walkable 7 112 f"
    unfolding dw fs by (simp add: walkable_def)
  show "has_supply demo_loaded (sum_list (map add_cost (unit_functions (p_dwarf demo_platform) ?us))) 112"
    unfolding dw fs using demo_supply by (simp add: add_cost_def)
  show "code_text demo_mapped = Some run_text" by (simp add: demo_mapped_def run_text_def)
  show "text_small run_text" by (simp add: text_small_def run_text_def)
qed (use demo_mmap_frame demo_placed demo_advances in
    \<open>simp_all add: demo_platform_def live_set_def demo_start_def one_byte_api_def sizeof_transformable_def\<close>)

text \<open>
  C11. If in addition every accepted function had a single candidate set (the addresses of later ones
  drift), the functions do not overlap, the text is small, and the encoder keeps the lengths and
  meaning of its instructions, then the handle serves: it can be randomised, relocated and asked for
  pages from then on.
\<close>

theorem rave_init_serves:
  assumes "rave_init fuel pf (Some h) filename w d = Some (RAVE_SUCCESS, Some h1, w', d')"
    and "mmap_frame (p_os pf)" "text_sane (p_elf pf)" "NULL \<notin> live_set w" "dr_advances (p_dr pf)"
    and "code_text h1 = Some tw" "text_small tw" "h_transform h1 = Some (tp, Some t)"
    and "sorted_wrt (\<lambda>a b. func_apart (tf_record a) (tf_record b)) (transformables t)"
    and "\<forall>tf \<in> set (transformables t). \<exists>skip stop c.
      function_found (p_dr pf) (mem w') (fst (window_view (Some tw) (faddr (tf_record tf)))) (tf_record tf)
        tf skip stop [c] \<and>
      dr_keeps_length (p_dr pf) (tf_insns tf) \<and> dr_roundtrip (p_dr pf) (tf_insns tf)"
  shows "\<exists>seg. serving pf h1 seg tw t (live_set w) w'"
proof -
  obtain seg tw0 t0 where inv0: "handle_inv h1 seg tw0 t0 (live_set w) w'"
    and an0: "list_all (analysed (p_dr pf) tw0 (mem w')) (transformables t0)"
    using rave_init_inv [OF assms(1-4)] by blast
  have "tw0 = tw" "t0 = t" using inv0 assms(6,8) by (auto simp: handle_inv_def)
  with inv0 an0 have inv: "handle_inv h1 seg tw t (live_set w) w'"
    and an: "list_all (analysed (p_dr pf) tw (mem w')) (transformables t)" by simp_all
  have ok: "window_ok seg" "window_ok tw" "window_inside tw seg" "(data seg, unat (wlength seg)) \<in> set (live w')"
    using inv by (auto simp: handle_inv_def)
  note blk = inside_block [OF ok]
  have "settled (p_dr pf) tw w' tf" if tf: "tf \<in> set (transformables t)" for tf
  proof -
    obtain skip stop c where f: "function_found (p_dr pf) (mem w')
        (fst (window_view (Some tw) (faddr (tf_record tf)))) (tf_record tf) tf skip stop [c]"
      "dr_keeps_length (p_dr pf) (tf_insns tf)"
      using assms(10) tf by blast
    have an1: "analysed (p_dr pf) tw (mem w') tf" using an tf by (simp add: list_all_iff)
    then have "func_within tw (tf_record tf)" by (simp add: analysed_def)
    with analysed_ready [OF assms(5) ok(2) assms(7) this f(1) blk f(2)]
      analysed_wf [OF assms(5) ok(2) assms(7) an1]
    show ?thesis by (simp add: settled_def)
  qed
  with inv assms(9,10) show ?thesis unfolding serving_def by blast
qed

theorem rave_init_serves_witness:
  "\<exists>w d seg. rave_init 7 demo_platform (Some (fresh_handle 0x50000)) ''a.out'' demo_start demo_reader =
       Some (RAVE_SUCCESS, Some run_handle, w, d) \<and>
     serving demo_platform run_handle seg run_text run_transform {} w"
proof -
  obtain w d where init: "rave_init 7 demo_platform (Some (fresh_handle 0x50000)) ''a.out'' demo_start demo_reader =
       Some (RAVE_SUCCESS, Some run_handle, w, d)" and mem: "mem w = mem demo_loaded"
    using demo_init run_memory by blast
  have live: "live_set demo_start = {}" by (simp add: live_set_def demo_start_def)
  have laws: "mmap_frame (p_os demo_platform)" "text_sane (p_elf demo_platform)" "NULL \<notin> live_set demo_start"
    "dr_advances (p_dr demo_platform)"
    using demo_mmap_frame demo_text_sane demo_advances live by (simp_all add: demo_platform_def)
  have small: "text_small run_text" by (simp add: text_small_def run_text_def)
  have view: "fst (window_view (Some run_text) (faddr (tf_record run_tf))) = 0x120000"
    by (simp add: run_tf_def run_text_def window_view_def window_contains_def CONTAINS_def OFFSET_def)
  have keeps: "dr_keeps_length one_byte_api (tf_insns run_tf)"
    by (simp add: dr_keeps_length_def ilen_def one_byte_api_def)
  have tfs: "transformables run_transform = [run_tf]" by (simp add: run_transform_def)
  have dr: "p_dr demo_platform = one_byte_api" by (simp add: demo_platform_def)
  have "\<exists>seg. serving demo_platform run_handle seg run_text run_transform (live_set demo_start) w"
  proof (rule rave_init_serves [OF init laws run_windows(2) small run_windows(3)])
    show "\<forall>tf \<in> set (transformables run_transform). \<exists>skip stop c.
        function_found (p_dr demo_platform) (mem w) (fst (window_view (Some run_text) (faddr (tf_record tf))))
          (tf_record tf) tf skip stop [c] \<and>
        dr_keeps_length (p_dr demo_platform) (tf_insns tf) \<and> dr_roundtrip (p_dr demo_platform) (tf_insns tf)"
      unfolding tfs dr mem list.set ball_simps insert_iff view
      using run_found keeps run_roundtrip by blast
  qed (simp add: tfs)
  with init live show ?thesis by auto
qed

section \<open>Sequences of calls\<close>

text \<open>
  C4. Whatever sequence of calls a client makes on a serving handle, every randomisation succeeds,
  the handle goes on serving the same functions, and no byte outside their prologues and epilogues
  changes.
\<close>

theorem api_run_serves:
  assumes "rave_run pf (h, w) es (h', w')" "serving pf h seg tw t K w"
  shows "\<exists>t'. serving pf h' seg tw t' K w' \<and> same_shape t t' \<and>
    (\<forall>rc. Randomized rc \<in> set es \<longrightarrow> rc = RAVE_SUCCESS) \<and>
    (\<forall>a. outside_sets (p_dr pf) tw t a \<longrightarrow> mem w' a = mem w a)"
  using serving_run [OF assms(1), of seg tw t K] assms(2) unfolding fst_conv snd_conv by blast

text \<open>
  C2. After any calls of a client on a serving handle, with a randomisation among them, a function in
  whose code there is a single run of pops restores its registers, by the code that lies where its
  prologue and its epilogue were decoded: whatever the body leaves in the registers, the epilogue
  undoes what the prologue did. The rest of the function is as it was.
\<close>

theorem api_run_restores:
  assumes "rave_run pf (h, w) es (h', w')" "serving pf h seg tw t K w" "list_ex is_randomized es"
    and "tf \<in> set (transformables t)" "dr_advances (p_dr pf)" "text_small tw"
    and "function_found (p_dr pf) (mem w) (func_bytes tw (tf_record tf)) (tf_record tf) tf
      skip stop [(between, e, rest)]"
  shows "let bytes = func_bytes tw (tf_record tf); limit = OFFSET bytes (flen (tf_record tf));
      fw = function_window tw (tf_record tf); pro = insns (prologue tf); epi = insns e;
      i = isize (p_dr pf) skip; j = isize (p_dr pf) (skip @ pro @ stop @ between)
    in code_at (p_dr pf) (mem w) limit bytes (faddr (tf_record tf))
        (skip @ pro @ stop @ between @ epi @ rest) limit \<and>
      epilogues tf = [e] \<and> set_at fw (prologue tf) = bytes + of_nat i \<and> set_at fw e = bytes + of_nat j \<and>
      restores_regs (p_dr pf) fw (mem w') tf e \<and>
      (\<forall>k < unat (flen (tf_record tf)).
        (k < i \<or> i + isize (p_dr pf) pro \<le> k) \<and> (k < j \<or> j + isize (p_dr pf) epi \<le> k) \<longrightarrow>
          mem w' (bytes + of_nat k) = mem w (bytes + of_nat k))"
  using single_candidate_code [OF assms(5,7)] single_places(1-3) [OF assms(2,4,5,6,7)]
    single_function_run [OF assms]
  unfolding Let_def by blast

text \<open>
  C3. The handle refines a page server that knows the base of the last relocation and nothing else:
  a sequence of answers can be observed exactly when each randomisation succeeds and each fault is
  answered with its page of the segment at the current base, or with \<open>NULL\<close> outside it. In
  particular no call gets stuck but a fault before the first relocation.
\<close>

theorem api_refines_page_server:
  assumes "serving pf h seg tw t K w" "at_base h seg base" "list_all (event_ok seg) es"
  shows "(\<exists>s. rave_run pf (h, w) es s) \<longleftrightarrow> spec_run (page_server seg) base es \<noteq> None"
proof (rule ps.same_runs [OF _ assms(3)])
  show "at_service pf seg tw K (h, w) base" using assms(1,2) by (auto simp: at_service_def)
qed

text \<open>The concrete handle, randomised, relocated, randomised again, and asked for two pages.\<close>

abbreviation demo_calls :: "api_event list" where
  "demo_calls \<equiv> [Randomized RAVE_SUCCESS, Relocated 0x7f0000, Randomized RAVE_SUCCESS,
     Faulted 0x7f0123 0x120000, Faulted 0x7f1000 NULL]"

lemma demo_calls_served: "spec_run (page_server run_segment) None demo_calls = Some (Some 0x7f0000)"
  by (simp add: page_of_def run_segment_def PAGE_DOWN_def PAGESZ_def)

lemma demo_at_base: "at_base run_handle run_segment None"
  by (simp add: at_base_def run_handle_def demo_mapped_def)

lemma demo_calls_ok: "list_all (event_ok run_segment) demo_calls"
  by (simp add: base_ok_def run_segment_def)

lemma demo_run:
  "\<exists>w d h' w'. rave_init 7 demo_platform (Some (fresh_handle 0x50000)) ''a.out'' demo_start demo_reader =
       Some (RAVE_SUCCESS, Some run_handle, w, d) \<and>
     serving demo_platform run_handle run_segment run_text run_transform {} w \<and>
     mem w = mem demo_loaded \<and> rave_run demo_platform (run_handle, w) demo_calls (h', w') \<and>
     at_service demo_platform run_segment run_text {} (h', w') (Some 0x7f0000)"
proof -
  obtain w d where init: "rave_init 7 demo_platform (Some (fresh_handle 0x50000)) ''a.out'' demo_start demo_reader =
       Some (RAVE_SUCCESS, Some run_handle, w, d)" and mem: "mem w = mem demo_loaded"
    using demo_init run_memory by blast
  with run_serving have w: "serving demo_platform run_handle run_segment run_text run_transform {} w" by auto
  then have "at_service demo_platform run_segment run_text {} (run_handle, w) None"
    using demo_at_base by (auto simp: at_service_def)
  from ps.run_backward [OF demo_calls_served this demo_calls_ok] init mem w show ?thesis by auto
qed

text \<open>Its function, by the places of its code.\<close>

lemma demo_places:
  "text_small run_text" "func_bytes run_text (tf_record run_tf) = 0x120000"
  "transformables run_transform = [run_tf]" "insns (prologue run_tf) = [0x53, 0x57]"
  "insns run_epilogue = [0x5f, 0x5b]" "unat (flen (tf_record run_tf)) = 6"
  by (simp_all add: text_small_def run_text_def func_bytes_def run_tf_def window_view_def window_contains_def
      CONTAINS_def OFFSET_def run_transform_def run_prologue_def run_epilogue_def)

lemma decoded_size: "isize one_byte_api xs = length xs"
  by (induction xs) (simp_all add: ilen_def one_byte_api_def)

lemma demo_body_outside: "outside_sets (p_dr demo_platform) run_text run_transform 0x120002"
proof -
  have fw: "function_window run_text (tf_record run_tf) = \<lparr>orig = 0x401000, data = 0x120000, wlength = 6\<rparr>"
    by (simp add: function_window_def run_text_def run_tf_def window_view_def window_contains_def CONTAINS_def OFFSET_def)
  have "(2 :: ptr) \<le> - 1" by simp
  then have far: "Suc (Suc 0) \<le> unat (- 1 :: ptr)" by (simp add: word_le_nat_alt del: word_n1_ge)
  show ?thesis
    by (simp add: outside_sets_def run_transform_def tf_sets_def fw)
      (simp add: run_tf_def run_prologue_def run_epilogue_def demo_platform_def one_byte_api_def ilen_def
        set_at_def far)
qed

lemma demo_body_apart: "outside_code (p_dr demo_platform) (mem demo_loaded) run_text run_transform 0x120002"
proof -
  have "(2 :: ptr) \<le> - 1" by simp
  then have far: "Suc (Suc 0) \<le> unat (- 1 :: ptr)" by (simp add: word_le_nat_alt del: word_n1_ge)
  have "p_dr demo_platform = one_byte_api" by (simp add: demo_platform_def)
  with run_found far show ?thesis
    unfolding outside_code_def demo_places Let_def
    by (intro ballI exI [of _ "[]"] exI [of _ "[0x90]"] exI [of _ "[]"] exI [of _ run_epilogue] exI [of _ "[0xc3]"])
      (simp add: demo_places ilen_def one_byte_api_def)
qed

theorem api_refines_page_server_witness:
  "\<exists>w s. rave_run demo_platform (run_handle, w) demo_calls s"
proof -
  obtain w where w: "serving demo_platform run_handle run_segment run_text run_transform {} w"
    using run_serving by blast
  from api_refines_page_server [OF this demo_at_base demo_calls_ok] demo_calls_served
  show ?thesis by blast
qed

theorem api_run_serves_witness:
  "\<exists>w h' w' t'. rave_run demo_platform (run_handle, w) demo_calls (h', w') \<and>
     serving demo_platform h' run_segment run_text t' {} w' \<and> mem w' 0x120002 = mem w 0x120002"
proof -
  obtain w h' w' where r: "serving demo_platform run_handle run_segment run_text run_transform {} w"
     "rave_run demo_platform (run_handle, w) demo_calls (h', w')"
    using demo_run by blast
  from api_run_serves [OF r(2,1)] r(2) demo_body_outside show ?thesis by blast
qed

theorem api_run_restores_witness:
  "\<exists>w h' w'. rave_run demo_platform (run_handle, w) demo_calls (h', w') \<and>
     restores_regs one_byte_api (function_window run_text (tf_record run_tf)) (mem w') run_tf run_epilogue \<and>
     set_at (function_window run_text (tf_record run_tf)) run_epilogue = 0x120003 \<and>
     mem w' 0x120005 = mem w 0x120005"
proof -
  obtain w h' w' where r: "serving demo_platform run_handle run_segment run_text run_transform {} w"
     "mem w = mem demo_loaded" "rave_run demo_platform (run_handle, w) demo_calls (h', w')"
    using demo_run by blast
  have dr: "p_dr demo_platform = one_byte_api" by (simp add: demo_platform_def)
  have f: "function_found (p_dr demo_platform) (mem w) (func_bytes run_text (tf_record run_tf)) (tf_record run_tf)
      run_tf [] [0x90] [([], run_epilogue, [0xc3])]"
    using run_found by (simp add: dr r(2) demo_places)
  have adv: "dr_advances (p_dr demo_platform)" using demo_advances by (simp add: dr)
  have ex: "list_ex is_randomized demo_calls" and tf: "run_tf \<in> set (transformables run_transform)"
    by (simp_all add: demo_places)
  note all = api_run_restores [OF r(3,1) ex tf adv demo_places(1) f, unfolded Let_def dr demo_places decoded_size]
  have "restores_regs one_byte_api (function_window run_text (tf_record run_tf)) (mem w') run_tf run_epilogue"
    "set_at (function_window run_text (tf_record run_tf)) run_epilogue = 0x120003"
    using all by simp_all
  moreover have "mem w' 0x120005 = mem w 0x120005"
    using all by (elim conjE allE [of _ 5]) simp
  ultimately show ?thesis using r(3) by blast
qed

text \<open>
  C5. From the file to the client. A handle is initialised and serves, every accepted function has a
  single run of pops in its code, and the block the code is loaded into does not overlap the
  mapped file. Then, after any calls, a byte of a page that a fault is answered with, relocated to a
  page-aligned base, is the byte of the file at the same place of the segment, or zero behind the
  file's part, unless it lies in a prologue or an epilogue, where these are in the code.
\<close>

theorem served_page_is_the_file:
  assumes "init_stages fuel pf h0 filename w0 d0 mp tp b w3 sec segment m d1 h6 w4"
    and "mmap_frame (p_os pf)" "NULL \<notin> live_set w0" "text_placed sec segment"
    and "rave_init fuel pf (Some h0) filename w0 d0 = Some (RAVE_SUCCESS, Some h, w, d')"
    and "serving pf h seg tw t K w" "file_fits b segment (data seg)"
    and "rave_run pf (h, w) es (h', w')" "at_base h' seg (Some base)"
    and "rave_handle_fault (Some h') a = Some p" "p \<noteq> NULL" "k < 4096"
    and "dr_advances (p_dr pf)" "text_small tw" "outside_code (p_dr pf) (mem w) tw t (p + of_nat k)"
  shows "mem w' (p + of_nat k) = segment_byte (mem w3) b segment (unat (PAGE_DOWN a - base) + k)"
  by (rule served_byte [OF assms(1-12) outside_code_sets [OF assms(6,13-15)]])

theorem served_page_is_the_file_witness:
  "\<exists>w d h' w'. rave_init 7 demo_platform (Some (fresh_handle 0x50000)) ''a.out'' demo_start demo_reader =
       Some (RAVE_SUCCESS, Some run_handle, w, d) \<and>
     rave_run demo_platform (run_handle, w) demo_calls (h', w') \<and> mem w' 0x120002 = 0x90"
proof -
  obtain w d h' w' where init: "rave_init 7 demo_platform (Some (fresh_handle 0x50000)) ''a.out'' demo_start demo_reader =
       Some (RAVE_SUCCESS, Some run_handle, w, d)" and w: "serving demo_platform run_handle run_segment run_text run_transform {} w"
    and mem: "mem w = mem demo_loaded" and run: "rave_run demo_platform (run_handle, w) demo_calls (h', w')"
    and at: "at_service demo_platform run_segment run_text {} (h', w') (Some 0x7f0000)"
    using demo_run by blast
  have base: "at_base h' run_segment (Some 0x7f0000)" using at by (simp add: at_service_def)
  have fault: "rave_handle_fault (Some h') 0x7f0123 = Some 0x120000"
    using at_service_parts(4) [OF at] by (simp add: page_of_def run_segment_def PAGE_DOWN_def PAGESZ_def)
  have laws: "mmap_frame (p_os demo_platform)" "NULL \<notin> live_set demo_start"
    using demo_mmap_frame by (simp_all add: demo_platform_def live_set_def demo_start_def)
  have n: "segment_filesz demo_segment = 16" and src: "file_bytes demo_binary demo_segment = 0x31000"
    by (simp_all add: demo_segment_def demo_segment_header_def segment_filesz_def file_bytes_def demo_binary_def
        segment_offset_def)
  have "4096 \<le> unat (0x31000 + of_nat k - (0x120000 :: ptr))" if "k < 16" for k
    by (rule byte_apart [of _ 16]) (use that in simp_all)
  then have fits: "file_fits demo_binary demo_segment (data run_segment)"
    by (simp add: file_fits_def file_apart_def src n demo_len run_segment_def)
  have adv: "dr_advances (p_dr demo_platform)" using demo_advances by (simp add: demo_platform_def)
  have "mem w' (0x120000 + of_nat 2) = segment_byte (mem demo_opened) demo_binary demo_segment
      (unat (PAGE_DOWN 0x7f0123 - (0x7f0000 :: size_t)) + 2)"
    by (rule served_page_is_the_file [OF demo_stages laws demo_placed init w fits run base fault _ _ adv demo_places(1)])
      (use demo_body_apart mem in simp_all)
  then have "mem w' 0x120002 = 0x90"
    by (simp add: segment_byte_def n src demo_opened_def demo_file_def mem_put_def demo_body_def PAGE_DOWN_def PAGESZ_def)
  with init run show ?thesis by blast
qed

section \<open>Closing\<close>

text \<open>
  C14. \<open>rave_close\<close> on a handle that was initialised, and used in any way since, succeeds unless
  libdwarf fails, which is finished in either case. The loaded code, the metadata, the transformer
  and the blocks of the functions are given back, but for the transformables, which stay live; the
  blocks that were live beside the handle's are not touched. The file is unmapped and its mapping
  forgotten, unless \<open>munmap\<close> fails: then it stays mapped and no one is told. The handle must not be
  closed again.
\<close>

theorem rave_close_releases:
  assumes "handle_inv h seg tw t K w" "munmap_frame (p_os pf)"
  shows "\<exists>rc h' w' d' mp m b b'. rave_close pf (Some h) w d = Some (rc, Some h', w', d') \<and>
    h_metadata h = Some (mp, Some m) \<and> h_binary h = Some b \<and> h_binary h' = Some b' \<and>
    (let (done, l) = dwarf_finish (p_dwarf pf) (dbg m) (lib d)
     in rc = (if done = DW_DLV_OK then 0 else errno_code RAVE_EDWARF) \<and> d' = d\<lparr>lib := l\<rparr>) \<and>
    bin_elf b' = NULL \<and> file_closed (p_os pf) b b' w w' \<and>
    K \<subseteq> live_set w' \<and>
    live_set w' = live_set w -
      (set (concat (map (tl \<circ> tf_hold) (transformables t))) \<union>
       {data seg, mp, fst (the (h_transform h))}) \<and>
    rave_close pf (Some h') w' d' = None"
proof -
  obtain mp m b tp B L where h: "code_segment h = Some seg" "h_metadata h = Some (mp, Some m)"
    "h_binary h = Some b" "h_transform h = Some (tp, Some t)" "K \<subseteq> L"
    "owns B L (concat (map tf_hold (transformables t)) @ [data seg, mp, tp]) w"
    using assms(1) unfolding handle_inv_def by blast
  from rave_close_owned [OF h(1-4) assms(2) h(6)]
  obtain rc h' w' d' b' where c: "rave_close pf (Some h) w d = Some (rc, Some h', w', d')"
    "rc = (if fst (dwarf_finish (p_dwarf pf) (dbg m) (lib d)) = DW_DLV_OK then 0 else errno_code RAVE_EDWARF)"
    "owns B L (map tf_ptr (transformables t)) w'" "code_segment h' = code_segment h"
    "d' = d\<lparr>lib := snd (dwarf_finish (p_dwarf pf) (dbg m) (lib d))\<rparr>"
    "h_binary h' = Some b'" "bin_elf b' = NULL" "file_closed (p_os pf) b b' w w'"
    by blast
  have live: "live_set w = L \<union> set (concat (map tf_hold (transformables t)) @ [data seg, mp, tp])"
    "live_set w' = L \<union> set (map tf_ptr (transformables t))"
    and null: "NULL \<notin> set (concat (map tf_hold (transformables t)) @ [data seg, mp, tp])"
    and apart: "L \<inter> set (concat (map tf_hold (transformables t)) @ [data seg, mp, tp]) = {}"
    and dist: "distinct (concat (map tf_hold (transformables t)) @ [data seg, mp, tp])"
    using h(6) c(3) unfolding owns_def by blast+
  let ?H = "set (concat (map tf_hold (transformables t)))" and ?E = "{data seg, mp, tp}"
  let ?R = "set (concat (map (tl \<circ> tf_hold) (transformables t)))"
  have ptrs: "set (map tf_ptr (transformables t)) = ?H - ?R"
    by (rule hold_split) (use dist in simp)
  have sets: "live_set w = L \<union> (?H \<union> ?E)" "L \<inter> (?H \<union> ?E) = {}" "?H \<inter> ?E = {}"
    using live(1) apart dist by auto
  have live': "live_set w' = L \<union> (?H - ?R)" unfolding live(2) ptrs ..
  have "data seg \<in> ?E" by simp
  then have "data seg \<notin> live_set w'" unfolding live' using sets(2,3) by blast
  then have "rave_close pf (Some h') w' d' = None"
    using null c(4) h(1) by (simp add: rave_close_def window_get_def rave_free_def mem_live_set [symmetric])
  moreover have "live_set w' = live_set w - (?R \<union> ?E)"
  proof -
    have "?R \<subseteq> ?H" by (auto simp: tf_hold_def)
    with sets show ?thesis unfolding live' sets(1) by blast
  qed
  moreover have "K \<subseteq> live_set w'" using live(2) h(5) by blast
  ultimately show ?thesis
    using c(1,5-8) h(2,3,4)
    by (intro exI [of _ rc] exI [of _ h'] exI [of _ w'] exI [of _ d'] exI [of _ mp] exI [of _ m] exI [of _ b]
        exI [of _ b']) (simp add: case_prod_beta Let_def c(2))
qed

theorem rave_close_releases_witness:
  "\<exists>w d rc h' w' d' b'. rave_init 7 demo_platform (Some (fresh_handle 0x50000)) ''a.out'' demo_start demo_reader =
       Some (RAVE_SUCCESS, Some run_handle, w, d) \<and>
     rave_close demo_platform (Some run_handle) w d = Some (rc, Some h', w', d') \<and>
     h_binary h' = Some b' \<and> bin_mapping b' = NULL \<and>
     mappings w' = removeAll (0x30000, 0x2000) (mappings w) \<and>
     rave_close demo_platform (Some h') w' d' = None"
proof -
  obtain w d where r: "rave_init 7 demo_platform (Some (fresh_handle 0x50000)) ''a.out'' demo_start demo_reader =
       Some (RAVE_SUCCESS, Some run_handle, w, d)" "handle_inv run_handle run_segment run_text run_transform {} w"
    using run_start by blast
  have "munmap_frame (p_os demo_platform)" using demo_munmap_frame by (simp add: demo_platform_def)
  from rave_close_releases [OF r(2) this, of d] obtain rc h' w' d' b b' where
    c: "rave_close demo_platform (Some run_handle) w d = Some (rc, Some h', w', d')"
    "h_binary run_handle = Some b" "h_binary h' = Some b'" "file_closed (p_os demo_platform) b b' w w'"
    "rave_close demo_platform (Some h') w' d' = None"
    by (elim exE conjE)
  have "b = demo_binary" using c(2) by (simp add: run_handle_def demo_mapped_def)
  then have "bin_mapping b' = NULL" "mappings w' = removeAll (0x30000, 0x2000) (mappings w)"
    using c(4) by (auto simp: file_closed_def demo_binary_def demo_platform_def demo_os_def Let_def)
  with r(1) c show ?thesis by blast
qed

section \<open>Where the handle goes wrong\<close>

text \<open>
  C36. When the file cannot be loaded, or has no text section, \<open>rave_init\<close> goes to \<open>err\<close> and closes
  the handle, whose code window nothing has been stored to: on a new handle that is undefined.
\<close>

theorem rave_init_failure_undefined:
  assumes "metadata_create w = (mp, w1)" "mp \<noteq> NULL" "transform_create w1 = (tp, w2)" "tp \<noteq> NULL"
    and "binary_init (p_os pf) (p_elf pf) None filename w2 = (rc, b, w3)"
    and "rc \<noteq> RAVE_SUCCESS \<or>
      (\<exists>rc' sec. binary_find_section (p_elf pf) b ''.text'' = Some (rc', sec) \<and> rc' \<noteq> RAVE_SUCCESS)"
  shows "rave_init fuel pf (Some (fresh_handle p)) filename w d = None"
proof -
  have err: "rave_init_err pf rc h w d = None" if "code_segment h = None" for rc h w d
    using that by (simp add: rave_init_err_def rave_close_def)
  show ?thesis
  proof (cases "rc = RAVE_SUCCESS")
    case True
    with assms(6) have "\<exists>rc' sec. binary_find_section (p_elf pf) b ''.text'' = Some (rc', sec) \<and> rc' \<noteq> RAVE_SUCCESS"
      by (simp only: not_True_eq_False simp_thms)
    then obtain rc' sec where
      "binary_find_section (p_elf pf) b ''.text'' = Some (rc', sec)" "rc' \<noteq> RAVE_SUCCESS"
      by (elim exE conjE)
    with True show ?thesis
      by (simp add: rave_init_def fresh_handle_def assms(1-5) err)
  next
    case False
    then show ?thesis
      by (simp add: rave_init_def fresh_handle_def assms(1-5) err)
  qed
qed

theorem rave_init_failure_undefined_witness:
  "rave_init 7 demo_platform (Some (fresh_handle 0x50000)) ''missing'' demo_start demo_reader = None"
proof -
  let ?u = "demo_start\<lparr>live := [(0x100000, 16)], nalloc := Suc 0\<rparr>"
  let ?v = "demo_start\<lparr>live := [(0x110000, 16), (0x100000, 16)], nalloc := 2\<rparr>"
  have c1: "metadata_create demo_start = (0x100000, ?u)"
    by (simp add: metadata_create_def rave_malloc_def demo_start_def fresh_block_def sizeof_metadata_def)
  have c2: "transform_create ?u = (0x110000, ?v)"
    by (simp add: transform_create_def rave_malloc_def demo_start_def fresh_block_def sizeof_transform_def)
  have "\<exists>b w3. binary_init (p_os demo_platform) (p_elf demo_platform) None ''missing'' ?v = (RAVE_EFILE_OPEN, b, w3)"
    by (simp add: binary_init_def init_libelf_def map_file_def demo_apis demo_start_def)
  then obtain b w3 where
    b: "binary_init (p_os demo_platform) (p_elf demo_platform) None ''missing'' ?v = (RAVE_EFILE_OPEN, b, w3)"
    by blast
  show ?thesis
    by (rule rave_init_failure_undefined [OF c1 _ c2 _ b]) simp_all
qed

text \<open>
  C15. When \<open>rave_init\<close> on a new handle returns with a failure, one of two things has happened. Before
  the code is mapped, it fails with one of five codes and gives nothing back: the blocks it has taken
  are live, the file is still mapped, and the handle that holds them cannot be closed. Afterwards only
  the walk over the metadata fails, with \<open>RAVE_EDWARF\<close>, and the handle is as sound as after a success.
\<close>

theorem rave_init_failures:
  assumes "rave_init fuel pf (Some (fresh_handle p)) filename w d = Some (rc, Some h, w', d')"
    and "rc \<noteq> RAVE_SUCCESS" "mmap_frame (p_os pf)" "text_sane (p_elf pf)" "NULL \<notin> live_set w"
  shows "if code_segment h = None
    then rc \<in> {RAVE_ENOMEM, RAVE_EPROGRAM_HEADER, RAVE_ENO_SEGMENT, RAVE_EDWARF, RAVE_ESEG_NOT_LOADABLE} \<and>
      live_set w' = live_set w \<union> taken h \<and> taken h \<inter> live_set w = {} \<and>
      (\<forall>b. h_binary h = Some b \<longrightarrow> bin_mapping b \<noteq> NULL) \<and> (\<forall>v e. rave_close pf (Some h) v e = None)
    else rc = RAVE_EDWARF \<and> (\<exists>seg tw t. handle_inv h seg tw t (live_set w) w')"
  using assms(1,3)
proof (cases rule: rave_init_early)
  case (early h1)
  then show ?thesis by (simp add: unmapped_failure_def rave_close_unmapped)
next
  case (walk mp tp b w3 sec segment m d1 h6 w4 h1)
  then obtain seg tw t where inv: "handle_inv h seg tw t (live_set w) w'"
    using walk_inv [OF walk(1,2) assms(3-5)] by auto
  have "rc = RAVE_SUCCESS \<or> rc = RAVE_EDWARF"
    by (rule dw.each_status [OF walk(2)]) (rule process_function_status)
  then have "rc = RAVE_EDWARF" using assms(2) by simp
  moreover have "code_segment h = Some seg" using inv by (simp add: handle_inv_def)
  ultimately show ?thesis using inv by auto
qed

theorem rave_init_failures_witness:
  "\<exists>h w d. rave_init 7 demo_unreadable (Some (fresh_handle 0x50000)) ''a.out'' demo_start demo_reader =
      Some (RAVE_EDWARF, Some h, w, d) \<and> live_set w = {0x100000, 0x110000} \<and>
    (\<forall>v e. rave_close demo_unreadable (Some h) v e = None)"
proof -
  obtain h w d where r: "rave_init 7 demo_unreadable (Some (fresh_handle 0x50000)) ''a.out'' demo_start demo_reader =
      Some (RAVE_EDWARF, Some h, w, d)" "code_segment h = None" "taken h = {0x100000, 0x110000}"
    using demo_unreadable_init by blast
  have laws: "mmap_frame (p_os demo_unreadable)" "text_sane (p_elf demo_unreadable)" "live_set demo_start = {}"
    using demo_mmap_frame demo_text_sane
    by (simp_all add: demo_unreadable_def demo_platform_def live_set_def demo_start_def)
  have "NULL \<notin> live_set demo_start" by (simp add: laws(3))
  from rave_init_failures [OF r(1) _ laws(1,2) this] r laws(3) show ?thesis by simp
qed

text \<open>
  \<open>rave_init\<close> does not set the relocation offset: on a new handle, a fault that is asked for
  before \<open>rave_relocate\<close> reads an uninitialised field.
\<close>

theorem fault_before_relocate_undefined:
  assumes "rave_init fuel pf (Some (fresh_handle p)) filename w d = Some (RAVE_SUCCESS, Some h, w', d')"
  shows "rave_handle_fault (Some h) a = None"
proof -
  obtain mp tp b w3 sec segment m d1 h6 w4 where
    st: "init_stages fuel pf (fresh_handle p) filename w d mp tp b w3 sec segment m d1 h6 w4"
    and each: "foreach_function (p_dwarf pf) m (process_function fuel (p_dr pf)) d1 (h6, w4) =
       Some (RAVE_SUCCESS, d', (h, w'))"
    by (rule rave_init_stages [OF assms]) simp
  have "map_code_pages (staged (fresh_handle p) mp m tp b) sec segment w3 = Some (RAVE_SUCCESS, h6, w4)"
    using st unfolding init_stages_def by blast
  then have "reloc_offset h6 = None"
    by (rule map_code_pages_SomeD) (simp add: staged_def fresh_handle_def)
  moreover have "reloc_offset (fst (h, w')) = reloc_offset (fst (h6, w4))"
    by (rule dw.each_unchanged [OF each])
      (auto simp: process_function_def Let_def bind_eq_Some_conv split: if_splits option.splits)
  ultimately have "reloc_offset h = None" by simp
  then show ?thesis by (simp add: rave_handle_fault_def)
qed

theorem fault_before_relocate_undefined_witness: "rave_handle_fault (Some run_handle) 0x401000 = None"
proof -
  obtain w d where "rave_init 7 demo_platform (Some (fresh_handle 0x50000)) ''a.out'' demo_start demo_reader =
       Some (RAVE_SUCCESS, Some run_handle, w, d)"
    using demo_init by blast
  from fault_before_relocate_undefined [OF this] show ?thesis .
qed

text \<open>
  C37. A segment that does not start at a page boundary, relocated to a base that does not either:
  the addresses from the base to the end of its first page are in the segment, but a fault on them
  is answered with \<open>NULL\<close>, since the address is rounded down to before the base.
\<close>

theorem first_page_not_served:
  assumes "code_segment h = Some seg" "reloc_offset h = Some (orig seg - base)" "window_ok seg"
    and "unat (wlength seg) + 4096 \<le> 2 ^ 64" "base \<le> a" "PAGE_DOWN a < base"
  shows "rave_handle_fault (Some h) a = Some NULL"
proof -
  let ?x = "PAGE_DOWN a - base"
  have near: "unat base - unat (PAGE_DOWN a) < 4096" "unat (PAGE_DOWN a) < unat base"
    using PAGE_DOWN_near [of a] assms(5,6) by (simp_all add: word_le_nat_alt word_less_nat_alt)
  have "unat ?x = 2 ^ 64 + unat (PAGE_DOWN a) - unat base"
    using near(2) by (simp add: unat_sub_if_size word_size word_le_nat_alt)
  then have "\<not> unat ?x < unat (wlength seg)"
    using near assms(4) unfolding two_pow_64 by linarith
  then have out: "\<not> window_contains (Some seg) (orig seg + ?x)"
    using window_contains_shift [OF assms(3), of ?x] by simp
  have a1: "PAGE_DOWN a + (orig seg - base) = orig seg + ?x" by simp
  show ?thesis
    using assms(1,2) out by (simp add: rave_handle_fault_def a1)
qed

theorem first_page_not_served_witness:
  "rave_handle_fault (Some (run_handle\<lparr>code_segment := Some \<lparr>orig = 0x401140, data = 0x120000, wlength = 4096\<rparr>,
     reloc_offset := Some 0\<rparr>)) 0x401200 = Some NULL"
  by (rule first_page_not_served [where base = "0x401140" and seg = "\<lparr>orig = 0x401140, data = 0x120000, wlength = 4096\<rparr>"])
    (simp_all add: window_ok_def PAGE_DOWN_def PAGESZ_def)

end
